(* ===== verification/Prelude.thy ===== *)
theory Prelude
  imports Main "HOL-Library.Word"
begin

text \<open>
  Shared vocabulary of the development: the byte strings both programs exchange, the
  decimal rendering and parsing of integers that \<open>std::to_string\<close> and Java's string
  concatenation and \<open>Short.parseShort\<close> use, and the generic lemmas on lists and
  options the components share.
\<close>

section \<open>Names\<close>

text \<open>
  A C++ \<open>char\<close> and a Java \<open>byte\<close> are both eight bits wide. The wire carries values of
  type \<^typ>\<open>char\<close> of HOL, which has exactly 256 values. A \<open>std::string\<close> or
  \<open>std::vector<char>\<close> is a list of them and may hold NUL.
\<close>

type_synonym bytes = "char list"
type_synonym int16 = "16 word"
type_synonym int32 = "32 word"

abbreviation NUL :: char where "NUL \<equiv> CHR 0x00"
abbreviation SP :: char where "SP \<equiv> CHR '' ''"
abbreviation SEMI :: char where "SEMI \<equiv> CHR '';''"

text \<open>
  Facts about the outcome of an operation on the connection, collected so that
  \<open>simp add: conn_simps\<close> unfolds the small state updates of the handler.
\<close>

named_theorems conn_simps \<open>state updates and flag accessors of the connection handler\<close>
named_theorems wire_simps \<open>wire formats and their text renderings\<close>

section \<open>Lists\<close>

lemma take_butlast_snoc [simp]: "take (length (xs @ [x]) - 1) (xs @ [x]) = xs"
  by simp

lemma takeWhile_neq_prefix:
  "d \<notin> set pre \<Longrightarrow> takeWhile (\<lambda>c. c \<noteq> d) (pre @ d # rest) = pre"
  by (induction pre) auto

lemma takeWhile_neq_id [simp]: "d \<notin> set xs \<Longrightarrow> takeWhile (\<lambda>c. c \<noteq> d) xs = xs"
  by (induction xs) auto

lemma split_at_first:
  assumes "d \<in> set xs"
  obtains pre rest where "xs = pre @ d # rest" and "d \<notin> set pre"
  using assms by (meson split_list_first)

lemma length_ge_2E:
  assumes "2 \<le> length xs"
  obtains a b ys where "xs = a # b # ys"
  using assms by (cases xs; cases "tl xs") (auto simp: numeral_2_eq_2)

lemma length_2_iff: "length xs = 2 \<longleftrightarrow> (\<exists>a b. xs = [a, b])"
  by (auto simp: numeral_2_eq_2 length_Suc_conv)

lemma length_1_iff: "length xs = Suc 0 \<longleftrightarrow> (\<exists>a. xs = [a])"
  by (auto simp: length_Suc_conv)

lemma take_drop_split:
  assumes "t + m \<le> n"
  shows "take (n - t) (drop t xs) = take m (drop t xs) @ take (n - (t + m)) (drop (t + m) xs)"
proof -
  from assms have "n - t = m + (n - (t + m))" by simp
  then show ?thesis by (simp add: take_add add.commute)
qed

text \<open>Running code that returned: the shape of an exception handler.\<close>

lemma case_sum_eq_Some:
  "case_sum f g x = Some r \<longleftrightarrow> (\<exists>e. x = Inl e \<and> f e = Some r) \<or> (\<exists>v. x = Inr v \<and> g v = Some r)"
  by (cases x) auto

section \<open>Decimal numerals\<close>

text \<open>The digits of a natural number, most significant first; \<open>0\<close> is one digit.\<close>

definition digit_char :: "nat \<Rightarrow> char" where
  "digit_char d = char_of (48 + d)"

fun show_nat :: "nat \<Rightarrow> string" where
  "show_nat n = (if n < 10 then [digit_char n] else show_nat (n div 10) @ [digit_char (n mod 10)])"

declare show_nat.simps [simp del]

definition show_int :: "int \<Rightarrow> string" where
  "show_int i = (if i < 0 then CHR ''-'' # show_nat (nat (- i)) else show_nat (nat i))"

text \<open>
  The value of a decimal digit, and of a string of them read from the left with an
  accumulator; \<open>None\<close> where a character is not a digit.
\<close>

definition digit_val :: "char \<Rightarrow> nat option" where
  "digit_val c = (let n = of_char c :: nat in if 48 \<le> n \<and> n \<le> 57 then Some (n - 48) else None)"

fun read_digits :: "nat \<Rightarrow> string \<Rightarrow> nat option" where
  "read_digits acc [] = Some acc"
| "read_digits acc (c # cs) =
     (case digit_val c of None \<Rightarrow> None | Some d \<Rightarrow> read_digits (10 * acc + d) cs)"

lemma of_char_digit_char: "d < 10 \<Longrightarrow> (of_char (digit_char d) :: nat) = 48 + d"
  by (simp add: digit_char_def)

lemma digit_val_digit_char [simp]: "d < 10 \<Longrightarrow> digit_val (digit_char d) = Some d"
  by (simp add: digit_val_def of_char_digit_char)

lemma digit_char_neq:
  assumes "d < 10" and "(of_char c :: nat) < 48"
  shows "digit_char d \<noteq> c"
  using of_char_digit_char [OF assms(1)] assms(2) by auto

lemma show_nat_nonempty [simp]: "show_nat n \<noteq> []"
  by (subst show_nat.simps) simp

lemma show_nat_digits: "c \<in> set (show_nat n) \<Longrightarrow> \<exists>d<10. c = digit_char d"
proof (induction n rule: show_nat.induct)
  case (1 n)
  show ?case
  proof (cases "n < 10")
    case True
    with "1.prems" show ?thesis by (auto simp: show_nat.simps [of n])
  next
    case False
    with "1.prems" have "c \<in> set (show_nat (n div 10)) \<or> c = digit_char (n mod 10)"
      by (simp add: show_nat.simps [of n] disj_commute)
    moreover have "n mod 10 < 10" by simp
    ultimately show ?thesis using "1.IH" [OF False] by blast
  qed
qed

lemma show_nat_avoids: "(of_char c :: nat) < 48 \<Longrightarrow> c \<notin> set (show_nat n)"
  using show_nat_digits digit_char_neq by blast

lemma show_int_nonempty [simp]: "show_int i \<noteq> []"
  by (simp add: show_int_def)

lemma show_int_avoids: "(of_char c :: nat) < 48 \<Longrightarrow> c \<noteq> CHR ''-'' \<Longrightarrow> c \<notin> set (show_int i)"
  by (simp add: show_int_def show_nat_avoids)

lemma read_digits_append:
  "read_digits acc (xs @ ys) =
     (case read_digits acc xs of None \<Rightarrow> None | Some a \<Rightarrow> read_digits a ys)"
  by (induction xs arbitrary: acc) (auto split: option.splits)

lemma read_digits_show_nat: "read_digits 0 (show_nat n) = Some n"
proof (induction n rule: show_nat.induct)
  case (1 n)
  show ?case
  proof (cases "n < 10")
    case True
    then show ?thesis by (simp add: show_nat.simps [of n])
  next
    case False
    with "1.IH" have ih: "read_digits 0 (show_nat (n div 10)) = Some (n div 10)" by simp
    from False have "show_nat n = show_nat (n div 10) @ [digit_char (n mod 10)]"
      by (simp add: show_nat.simps [of n])
    then show ?thesis by (simp add: read_digits_append ih)
  qed
qed

lemma hd_show_nat_digit: "\<exists>d<10. hd (show_nat n) = digit_char d"
  by (meson show_nat_digits list.set_sel(1) show_nat_nonempty)

section \<open>Bytes and machine words\<close>

unbundle bit_operations_syntax

text \<open>A byte as a character, and the bit-level identities of 8-, 16- and 32-bit values.\<close>

definition byte_char :: "8 word \<Rightarrow> char" where
  "byte_char w = char_of (unat w)"

lemma of_char_byte_char [simp]: "(of_char (byte_char w) :: 8 word) = w"
proof -
  have "unat w < 2 ^ LENGTH(8)" by (rule unsigned_less)
  then have "(of_char (byte_char w) :: nat) = unat w" by (simp add: byte_char_def)
  moreover have "(of_char (byte_char w) :: 8 word) = of_nat (of_char (byte_char w) :: nat)"
    by (simp only: of_nat_of_char)
  ultimately show ?thesis by simp
qed

lemma mask8: "(0xFF :: int32) = mask 8"
  by (simp add: mask_eq_decr_exp)

lemma min_index: "n < Suc m \<Longrightarrow> min m n = n"
  by simp

lemma scast_mask8: "(scast (x :: 8 word) :: int32) AND 0xFF = ucast x"
proof (rule bit_word_eqI)
  fix n :: nat
  show "bit ((scast x :: int32) AND 0xFF) n = bit (ucast x :: int32) n"
    unfolding mask8 using min_index [of n 7]
    by (cases "n < 8") (auto simp: bit_simps dest: bit_imp_le_length)
qed

lemma ucast_push_bit: "(ucast (push_bit 8 (ucast (x :: 8 word) :: int32)) :: int16) = push_bit 8 (ucast x)"
  by (rule bit_word_eqI) (auto simp: bit_simps)

lemma ucast_via_int32: "(ucast (ucast (x :: 8 word) :: int32) :: int16) = ucast x"
  by (rule bit_word_eqI) (auto simp: bit_simps)

lemma high_byte: "(ucast (signed_drop_bit 8 (scast (w :: int16) :: int32) AND 0xFF) :: 8 word)
    = ucast (drop_bit 8 w)"
proof (rule bit_word_eqI)
  fix n :: nat
  assume "n < LENGTH(8)"
  then show "bit (ucast (signed_drop_bit 8 (scast w :: int32) AND 0xFF) :: 8 word) n
      = bit (ucast (drop_bit 8 w) :: 8 word) n"
    unfolding mask8 using min_index [of "8 + n" 15] by (auto simp: bit_simps)
qed

lemma low_byte: "(ucast ((scast (w :: int16) :: int32) AND 0xFF) :: 8 word) = ucast w"
  unfolding mask8
  by (rule bit_word_eqI) (auto simp: bit_simps min_def dest: bit_imp_le_length)

lemma join_bytes_or:
  "push_bit 8 (ucast (x :: 8 word)) + ucast (y :: 8 word) = push_bit 8 (ucast x) OR (ucast y :: int16)"
  by (rule disjunctive_add) (auto simp: bit_simps dest: bit_imp_le_length)

lemma join_split_bytes:
  "push_bit 8 (ucast (ucast (drop_bit 8 w) :: 8 word)) + ucast (ucast w :: 8 word) = (w :: int16)"
  unfolding join_bytes_or by (rule bit_word_eqI) (auto simp: bit_simps dest: bit_imp_le_length)

lemma unat_ucast_char: "unat (ucast (of_char c :: 8 word) :: int16) = of_char c"
proof -
  have "(of_char c :: 8 word) = of_nat (of_char c :: nat)" by (simp only: of_nat_of_char)
  then have "unat (of_char c :: 8 word) = of_char c" by (simp only: unat_of_nat) simp
  moreover have "of_char c < (2 :: nat) ^ 16" by (rule less_trans [of _ 256]) simp_all
  ultimately show ?thesis by (simp add: unsigned_ucast_eq take_bit_nat_eq_self)
qed

text \<open>A 16-bit value in network byte order.\<close>

definition be16 :: "int16 \<Rightarrow> bytes" where
  "be16 w = [byte_char (ucast (drop_bit 8 w)), byte_char (ucast w)]"

lemma length_be16 [simp]: "length (be16 w) = 2"
  by (simp add: be16_def)

end
