(* ===== verification/Asio.thy ===== *)
theory Asio
  imports Prelude
begin

text \<open>
  The boundary to Boost.Asio, which is not part of the repository. The operations the
  client calls on its \<open>tcp::socket\<close> are the fields of a record that every definition of
  the client takes as its first argument. The locales state the documented behaviour the
  client relies on; the queue socket at the end meets all of it and is used to run the
  model.
\<close>

section \<open>The operations the client calls\<close>

text \<open>
  \<open>'k\<close> is the socket together with whatever it is connected to, \<open>'a\<close> an address. An
  \<open>error_code\<close> that is set is \<open>Some\<close> of the text its \<open>what()\<close> gives.
  \<^item> \<open>from_string\<close>: \<open>address::from_string\<close>; \<open>Inl\<close> is the exception it throws.
  \<^item> \<open>sock_connect\<close>: \<open>socket.connect(endpoint, error)\<close>.
  \<^item> \<open>read_some\<close>: one blocking call with a buffer of the given size; the bytes delivered
    and the error, or \<open>None\<close> when the call does not return because the peer is silent.
  \<^item> \<open>write_some\<close>: one blocking call; how many of the bytes were taken, and the error, or
    \<open>None\<close> when it does not return.
  \<^item> \<open>sock_close\<close>: \<open>socket.close()\<close>; \<open>False\<close> when it throws.
\<close>

record ('k, 'a) asio =
  from_string :: "string \<Rightarrow> string + 'a"
  sock_connect :: "'k \<Rightarrow> 'a \<Rightarrow> int16 \<Rightarrow> string option \<times> 'k"
  read_some :: "'k \<Rightarrow> nat \<Rightarrow> (bytes \<times> string option \<times> 'k) option"
  write_some :: "'k \<Rightarrow> bytes \<Rightarrow> (nat \<times> string option \<times> 'k) option"
  sock_close :: "'k \<Rightarrow> bool \<times> 'k"

section \<open>What the client relies on\<close>

text \<open>
  Reading. \<open>avail\<close> is the sequence of bytes that have arrived and are not read yet,
  \<open>closed\<close> says that the peer has closed its side. A read with room in the buffer
  delivers at least one and at most that many of the next bytes; with nothing left it
  reports an error when the peer has closed and blocks when it has not.
\<close>

locale asio_in =
  fixes A :: "('k, 'a) asio"
    and avail :: "'k \<Rightarrow> bytes"
    and closed :: "'k \<Rightarrow> bool"
  assumes read_data: "0 < n \<Longrightarrow> avail k \<noteq> [] \<Longrightarrow>
      \<exists>bs k'. read_some A k n = Some (bs, None, k') \<and> bs \<noteq> [] \<and> length bs \<le> n
        \<and> avail k = bs @ avail k' \<and> closed k' = closed k"
    and read_eof: "0 < n \<Longrightarrow> avail k = [] \<Longrightarrow> closed k \<Longrightarrow>
      \<exists>e k'. read_some A k n = Some ([], Some e, k') \<and> avail k' = [] \<and> closed k'"
    and read_block: "0 < n \<Longrightarrow> avail k = [] \<Longrightarrow> \<not> closed k \<Longrightarrow> read_some A k n = None"

text \<open>
  Writing. \<open>sent\<close> is the sequence of bytes the socket has taken. A write of at least one
  byte takes a prefix of the bytes, which is not empty unless an error is reported.
\<close>

locale asio_out =
  fixes A :: "('k, 'a) asio"
    and sent :: "'k \<Rightarrow> bytes"
  assumes write_data: "bs \<noteq> [] \<Longrightarrow>
      \<exists>n e k'. write_some A k bs = Some (n, e, k') \<and> n \<le> length bs
        \<and> sent k' = sent k @ take n bs \<and> (e = None \<longrightarrow> 0 < n)"

text \<open>A connection that stays up: as long as \<open>up\<close> holds, writes report no error.\<close>

locale asio_up = asio_out +
  fixes up :: "'k \<Rightarrow> bool"
  assumes write_up: "bs \<noteq> [] \<Longrightarrow> up k \<Longrightarrow> write_some A k bs = Some (n, e, k') \<Longrightarrow> e = None \<and> up k'"

text \<open>
  A full-duplex stream: both directions, and neither touches the other.
\<close>

locale asio_stream = asio_in A avail closed + asio_up A sent up
  for A :: "('k, 'a) asio" and avail closed sent up +
  assumes read_frame: "read_some A k n = Some (bs, e, k') \<Longrightarrow> sent k' = sent k \<and> up k' = up k"
    and write_frame: "write_some A k ws = Some (m, e, k') \<Longrightarrow> avail k' = avail k \<and> closed k' = closed k"

section \<open>A socket that meets it\<close>

text \<open>
  Two byte queues. \<open>rxchunks\<close> and \<open>txchunks\<close> say how many bytes the successive calls
  transfer at most (any positive split is possible, as on a real network); when they
  run out a call transfers all it can.
\<close>

record tcp_sock =
  rxq :: bytes
  rxclosed :: bool
  rxchunks :: "nat list"
  txd :: bytes
  txdown :: bool
  txchunks :: "nat list"

definition chunk :: "nat list \<Rightarrow> nat \<Rightarrow> nat" where
  "chunk cs n = (case cs of [] \<Rightarrow> n | c # _ \<Rightarrow> min n (max 1 c))"

definition tcp_read :: "tcp_sock \<Rightarrow> nat \<Rightarrow> (bytes \<times> string option \<times> tcp_sock) option" where
  "tcp_read k n =
     (if n = 0 then Some ([], None, k)
      else if rxq k = [] then (if rxclosed k then Some ([], Some ''End of file'', k) else None)
      else let c = chunk (rxchunks k) n
           in Some (take c (rxq k), None, k\<lparr>rxq := drop c (rxq k), rxchunks := tl (rxchunks k)\<rparr>))"

definition tcp_write :: "tcp_sock \<Rightarrow> bytes \<Rightarrow> (nat \<times> string option \<times> tcp_sock) option" where
  "tcp_write k bs =
     (if txdown k then Some (0, Some ''Broken pipe'', k)
      else let c = chunk (txchunks k) (length bs)
           in Some (c, None, k\<lparr>txd := txd k @ take c bs, txchunks := tl (txchunks k)\<rparr>))"

definition tcp_asio :: "(tcp_sock, string) asio" where
  "tcp_asio =
     \<lparr>from_string = (\<lambda>s. if s = [] then Inl ''Invalid argument'' else Inr s),
      sock_connect = (\<lambda>k a p. (if rxclosed k then Some ''Connection refused'' else None, k)),
      read_some = tcp_read, write_some = tcp_write,
      sock_close = (\<lambda>k. (True, k\<lparr>rxclosed := True, txdown := True\<rparr>))\<rparr>"

lemma tcp_asio_simps [simp]:
  "read_some tcp_asio = tcp_read" "write_some tcp_asio = tcp_write"
  by (simp_all add: tcp_asio_def)

lemma chunk_pos [simp]: "0 < n \<Longrightarrow> 0 < chunk cs n"
  by (auto simp: chunk_def split: list.splits)

lemma chunk_le [simp]: "chunk cs n \<le> n"
  by (auto simp: chunk_def split: list.splits)

interpretation tcp: asio_stream tcp_asio rxq rxclosed txd "\<lambda>k. \<not> txdown k"
  by unfold_locales
     (auto simp: tcp_read_def tcp_write_def Let_def min.coboundedI2 min.coboundedI1
           split: if_splits)

end
