(* ===== verification/Handler.thy ===== *)
theory Handler
  imports Asio
begin

text \<open>
  The connection handler of the client (\<open>client/src/connectionHandler.cpp\<close>,
  \<open>client/include/connectionHandler.h\<close>): its object state, connecting and closing, the
  byte-level transfers and the frames read from the socket. Each method takes the socket
  operations \<open>A\<close> and the object and returns the new object; a method that can wait for
  the peer or loop for ever has an optional result, where \<^term>\<open>None\<close> means that the
  call does not return.
\<close>

section \<open>State\<close>

text \<open>
  The fields of the class. \<open>cout\<close> and \<open>cerr\<close> are the lines the program has written to
  the two standard streams, which the methods write to.
\<close>

record 'k handler =
  host :: string
  port :: int16
  socket :: 'k
  terminate :: bool
  logoutSent :: bool
  logoutFailed :: bool
  cout :: "string list"
  cerr :: "string list"

definition connectionHandler :: "string \<Rightarrow> int16 \<Rightarrow> 'k \<Rightarrow> 'k handler" where
  "connectionHandler hs p k =
     \<lparr>host = hs, port = p, socket = k, terminate = False, logoutSent = False,
      logoutFailed = False, cout = [], cerr = []\<rparr>"

definition say :: "string \<Rightarrow> 'k handler \<Rightarrow> 'k handler" where
  "say s h = h\<lparr>cout := cout h @ [s]\<rparr>"

definition complain :: "string \<Rightarrow> 'k handler \<Rightarrow> 'k handler" where
  "complain s h = h\<lparr>cerr := cerr h @ [s]\<rparr>"

definition recv_failed :: "string \<Rightarrow> string" where
  "recv_failed e = ''recv failed (Error: '' @ e @ '')''"

section \<open>Flags\<close>

definition shouldTerminate :: "'k handler \<Rightarrow> bool" where
  "shouldTerminate h = terminate h"

definition isLogOutSent :: "'k handler \<Rightarrow> bool" where
  "isLogOutSent h = logoutSent h"

definition isLogOutFailed :: "'k handler \<Rightarrow> bool" where
  "isLogOutFailed h = logoutFailed h"

definition resetLogout :: "'k handler \<Rightarrow> 'k handler" where
  "resetLogout h =
     (let h1 = (if logoutSent h then h\<lparr>logoutSent := False\<rparr> else h)
      in if logoutFailed h1 then h1\<lparr>logoutFailed := False\<rparr> else h1)"

lemma resetLogout_simps [conn_simps]:
  "resetLogout h = h\<lparr>logoutSent := False, logoutFailed := False\<rparr>"
  by (cases h) (simp add: resetLogout_def Let_def)

lemmas flag_defs [conn_simps] = shouldTerminate_def isLogOutSent_def isLogOutFailed_def

section \<open>Connecting and closing\<close>

definition connect :: "('k, 'a) asio \<Rightarrow> 'k handler \<Rightarrow> bool \<times> 'k handler" where
  "connect A h =
     (let h1 = say (''Starting connect to '' @ host h @ '':'' @ show_int (sint (port h))) h
      in case from_string A (host h1) of
           Inl e \<Rightarrow> (False, complain (''Connection failed (Error: '' @ e @ '')'') h1)
         | Inr a \<Rightarrow>
             (case sock_connect A (socket h1) a (port h1) of
                (Some e, k') \<Rightarrow>
                  (False, complain (''Connection failed (Error: '' @ e @ '')'') (h1\<lparr>socket := k'\<rparr>))
              | (None, k') \<Rightarrow> (True, h1\<lparr>socket := k'\<rparr>)))"

definition close :: "('k, 'a) asio \<Rightarrow> 'k handler \<Rightarrow> bool \<times> 'k handler" where
  "close A h =
     (case sock_close A (socket h) of
        (True, k') \<Rightarrow> (True, h\<lparr>socket := k'\<rparr>)
      | (False, k') \<Rightarrow>
          (False, say ''closing failed: connection already closed'' (h\<lparr>socket := k'\<rparr>)))"

section \<open>Reading and writing bytes\<close>

text \<open>
  The loop of \<open>getBytes\<close>. \<open>got\<close> is the part of the caller's buffer filled so far, so
  \<open>tmp\<close> of the code is its length.
\<close>

partial_function (option) getBytes_loop ::
  "('k, 'a) asio \<Rightarrow> nat \<Rightarrow> bytes \<Rightarrow> 'k \<Rightarrow> (bytes \<times> string option \<times> 'k) option" where
  "getBytes_loop A n got k =
     (if length got < n
      then Option.bind (read_some A k (n - length got)) (\<lambda>(bs, err, k').
             case err of
               None \<Rightarrow> getBytes_loop A n (got @ bs) k'
             | Some e \<Rightarrow> Some (got @ bs, Some e, k'))
      else Some (got, None, k))"

text \<open>
  The result of \<open>getBytes\<close>: whether all bytes were read, the bytes that were stored at
  the start of the buffer (the rest of the buffer keeps its contents), and the object.
\<close>

definition getBytes ::
  "('k, 'a) asio \<Rightarrow> nat \<Rightarrow> 'k handler \<Rightarrow> (bool \<times> bytes \<times> 'k handler) option" where
  "getBytes A n h =
     Option.bind (getBytes_loop A n [] (socket h)) (\<lambda>(got, err, k').
       case err of
         None \<Rightarrow> Some (True, got, h\<lparr>socket := k'\<rparr>)
       | Some e \<Rightarrow> Some (False, got, complain (recv_failed e) (h\<lparr>socket := k'\<rparr>)))"

partial_function (option) sendBytes_loop ::
  "('k, 'a) asio \<Rightarrow> bytes \<Rightarrow> nat \<Rightarrow> 'k \<Rightarrow> (string option \<times> 'k) option" where
  "sendBytes_loop A bs tmp k =
     (if tmp < length bs
      then Option.bind (write_some A k (drop tmp bs)) (\<lambda>(n, err, k').
             case err of
               None \<Rightarrow> sendBytes_loop A bs (tmp + n) k'
             | Some e \<Rightarrow> Some (Some e, k'))
      else Some (None, k))"

definition sendBytes ::
  "('k, 'a) asio \<Rightarrow> bytes \<Rightarrow> 'k handler \<Rightarrow> (bool \<times> 'k handler) option" where
  "sendBytes A bs h =
     Option.bind (sendBytes_loop A bs 0 (socket h)) (\<lambda>(err, k').
       case err of
         None \<Rightarrow> Some (True, h\<lparr>socket := k'\<rparr>)
       | Some e \<Rightarrow> Some (False, complain (recv_failed e) (h\<lparr>socket := k'\<rparr>)))"

section \<open>Frames\<close>

text \<open>
  \<open>getFrameAscii\<close> ignores the result of \<open>getBytes\<close>: when a read fails, the local
  \<open>ch\<close> keeps its value, which is the last byte read or, before the first, whatever the
  stack held (the parameter \<open>ch\<close> of the first call).
\<close>

partial_function (option) getFrameAscii ::
  "('k, 'a) asio \<Rightarrow> char \<Rightarrow> char \<Rightarrow> string \<Rightarrow> 'k handler \<Rightarrow> (bool \<times> string \<times> 'k handler) option" where
  "getFrameAscii A delimiter ch frame h =
     Option.bind (getBytes A 1 h) (\<lambda>(_, got, h').
       let ch' = (case got of [] \<Rightarrow> ch | c # _ \<Rightarrow> c);
           frame' = frame @ [ch']
       in if delimiter \<noteq> ch' then getFrameAscii A delimiter ch' frame' h'
          else Some (True, frame', h'))"

definition getLine ::
  "('k, 'a) asio \<Rightarrow> char \<Rightarrow> string \<Rightarrow> 'k handler \<Rightarrow> (bool \<times> string \<times> 'k handler) option" where
  "getLine A ch line h = getFrameAscii A SEMI ch line h"

text \<open>\<open>bytesToShort\<close>: both bytes are promoted to \<open>int\<close> as signed chars and masked.\<close>

unbundle bit_operations_syntax

definition char_to_int :: "char \<Rightarrow> int32" where
  "char_to_int c = scast (of_char c :: 8 word)"

definition bytesToShort :: "char \<Rightarrow> char \<Rightarrow> int16" where
  "bytesToShort b0 b1 =
     (let result = (ucast (push_bit 8 (char_to_int b0 AND 0xFF)) :: int16)
      in result + (ucast (char_to_int b1 AND 0xFF) :: int16))"

text \<open>The two bytes are the high and the low half of the 16-bit result.\<close>

lemma char_to_int_mask: "char_to_int c AND 0xFF = ucast (of_char c :: 8 word)"
  unfolding char_to_int_def by (rule scast_mask8)

lemma bytesToShort_eq:
  "bytesToShort b0 b1 = push_bit 8 (ucast (of_char b0 :: 8 word)) + ucast (of_char b1 :: 8 word)"
  unfolding bytesToShort_def Let_def char_to_int_mask ucast_push_bit ucast_via_int32 by simp

lemma unat_bytesToShort: "unat (bytesToShort b0 b1) = 256 * of_char b0 + of_char b1"
proof -
  have "of_char b0 < (256::nat)" "of_char b1 < (256::nat)" by simp_all
  then have "(of_char b0 :: nat) * 256 + of_char b1 < 65536" by linarith
  then show ?thesis
    unfolding bytesToShort_eq push_bit_eq_mult
    by (simp add: unat_word_ariths unat_ucast_char mult.commute)
qed

section \<open>The byte-level transfers on a stream\<close>

text \<open>
  Reading \<open>n\<close> bytes succeeds with exactly the next \<open>n\<close> bytes when they have arrived,
  reports failure with what there was when the peer has closed before, and waits
  otherwise. Whatever the socket delivers per call, the loop ends.
\<close>

context asio_in
begin

lemma getBytes_loop_enough:
  "length got \<le> n \<Longrightarrow> n \<le> length got + length (avail k) \<Longrightarrow>
   \<exists>k'. getBytes_loop A n got k = Some (got @ take (n - length got) (avail k), None, k')
      \<and> avail k' = drop (n - length got) (avail k) \<and> closed k' = closed k"
proof (induction "n - length got" arbitrary: got k rule: less_induct)
  case less
  show ?case
  proof (cases "length got < n")
    case False
    with less.prems show ?thesis by (subst getBytes_loop.simps) simp
  next
    case True
    then have "avail k \<noteq> []" and "0 < n - length got" using less.prems by auto
    then obtain bs k1 where r: "read_some A k (n - length got) = Some (bs, None, k1)"
      and bs: "bs \<noteq> []" "length bs \<le> n - length got"
      and av: "avail k = bs @ avail k1" and cl: "closed k1 = closed k"
      using read_data by blast
    have fits: "length (got @ bs) \<le> n" using bs True by simp
    have "0 < length bs" using bs by simp
    with True have dec: "n - length (got @ bs) < n - length got" by (simp add: diff_less_mono2)
    from less.hyps [OF dec fits, of k1] less.prems av
    obtain k' where k': "getBytes_loop A n (got @ bs) k1 =
        Some (got @ bs @ take (n - length got - length bs) (avail k1), None, k')"
      "avail k' = drop (n - length got - length bs) (avail k1)" "closed k' = closed k1"
      by (auto simp: add.assoc)
    show ?thesis
      by (subst getBytes_loop.simps) (use True r k' av cl bs in simp)
  qed
qed

lemma getBytes_loop_short:
  "length got + length (avail k) < n \<Longrightarrow> closed k \<Longrightarrow>
   \<exists>e k'. getBytes_loop A n got k = Some (got @ avail k, Some e, k') \<and> avail k' = [] \<and> closed k'"
proof (induction "length (avail k)" arbitrary: got k rule: less_induct)
  case less
  then have room: "length got < n" "0 < n - length got" by auto
  show ?case
  proof (cases "avail k = []")
    case True
    with read_eof [OF room(2) True] less.prems obtain e k'
      where "read_some A k (n - length got) = Some ([], Some e, k')" "avail k' = []" "closed k'"
      by blast
    with room True show ?thesis by (subst getBytes_loop.simps) simp
  next
    case False
    from read_data [OF room(2) False] obtain bs k1
      where r: "read_some A k (n - length got) = Some (bs, None, k1)" and bs: "bs \<noteq> []"
        and av: "avail k = bs @ avail k1" and cl: "closed k1 = closed k"
      by blast
    from less.hyps [of k1 "got @ bs"] less.prems bs av cl
    obtain e k' where "getBytes_loop A n (got @ bs) k1 = Some (got @ bs @ avail k1, Some e, k')"
      "avail k' = []" "closed k'" by auto
    with r av room show ?thesis by (subst getBytes_loop.simps) simp
  qed
qed

lemma getBytes_loop_blocks:
  "length got + length (avail k) < n \<Longrightarrow> \<not> closed k \<Longrightarrow> getBytes_loop A n got k = None"
proof (induction "length (avail k)" arbitrary: got k rule: less_induct)
  case less
  then have room: "length got < n" "0 < n - length got" by auto
  show ?case
  proof (cases "avail k = []")
    case True
    with read_block [OF room(2) True] less.prems room show ?thesis
      by (subst getBytes_loop.simps) simp
  next
    case False
    from read_data [OF room(2) False] obtain bs k1
      where r: "read_some A k (n - length got) = Some (bs, None, k1)" and bs: "bs \<noteq> []"
        and av: "avail k = bs @ avail k1" and cl: "closed k1 = closed k"
      by blast
    from less.hyps [of k1 "got @ bs"] less.prems bs av cl
    have "getBytes_loop A n (got @ bs) k1 = None" by auto
    with r room show ?thesis by (subst getBytes_loop.simps) simp
  qed
qed

lemma getBytes_enough:
  assumes "n \<le> length (avail (socket h))"
  obtains k' where "getBytes A n h = Some (True, take n (avail (socket h)), h\<lparr>socket := k'\<rparr>)"
    and "avail k' = drop n (avail (socket h))" and "closed k' = closed (socket h)"
  using getBytes_loop_enough [of "[]" n "socket h"] assms that by (auto simp: getBytes_def)

lemma getBytes_short:
  assumes "length (avail (socket h)) < n" and "closed (socket h)"
  obtains e k' where "getBytes A n h =
      Some (False, avail (socket h), complain (recv_failed e) (h\<lparr>socket := k'\<rparr>))"
    and "avail k' = []" and "closed k'"
  using getBytes_loop_short [of "[]" "socket h" n] assms that by (auto simp: getBytes_def)

lemma getBytes_blocks:
  "length (avail (socket h)) < n \<Longrightarrow> \<not> closed (socket h) \<Longrightarrow> getBytes A n h = None"
  using getBytes_loop_blocks [of "[]" "socket h" n] by (simp add: getBytes_def)


text \<open>One byte, the case frames and the closing delimiter use.\<close>

lemma getBytes_1:
  assumes "avail (socket h) = c # rest"
  obtains k' where "getBytes A 1 h = Some (True, [c], h\<lparr>socket := k'\<rparr>)"
    and "avail k' = rest" and "closed k' = closed (socket h)"
  using getBytes_enough [of 1 h] assms by auto

lemma getFrameAscii_found:
  assumes "avail (socket h) = pre @ delim # rest" and "delim \<notin> set pre"
  shows "\<exists>k'. getFrameAscii A delim ch frame h = Some (True, frame @ pre @ [delim], h\<lparr>socket := k'\<rparr>)
    \<and> avail k' = rest \<and> closed k' = closed (socket h)"
  using assms
proof (induction pre arbitrary: ch frame h)
  case Nil
  then obtain k' where "getBytes A 1 h = Some (True, [delim], h\<lparr>socket := k'\<rparr>)"
    "avail k' = rest" "closed k' = closed (socket h)"
    by (auto elim: getBytes_1)
  then show ?case by (subst getFrameAscii.simps) (auto intro!: exI [of _ k'])
next
  case (Cons c pre)
  then obtain k1 where g: "getBytes A 1 h = Some (True, [c], h\<lparr>socket := k1\<rparr>)"
    and k1: "avail k1 = pre @ delim # rest" "closed k1 = closed (socket h)"
    using getBytes_1 by (metis append_Cons)
  from Cons.IH [of "h\<lparr>socket := k1\<rparr>" c "frame @ [c]"] Cons.prems k1
  show ?case by (subst getFrameAscii.simps) (use g in auto)
qed

text \<open>Without the delimiter the loop never ends, whether the peer stays silent or closes.\<close>

lemma getFrameAscii_eof:
  assumes "avail (socket h) = []" and "closed (socket h)" and "delim \<noteq> ch"
  shows "getFrameAscii A delim ch frame h = None"
proof (rule ccontr)
  assume "getFrameAscii A delim ch frame h \<noteq> None"
  then obtain r where "getFrameAscii A delim ch frame h = Some r" by blast
  moreover have "avail (socket h) = [] \<longrightarrow> closed (socket h) \<longrightarrow> d \<noteq> c \<longrightarrow> B \<noteq> A"
    if "getFrameAscii B d c fr h = Some r" for B d c fr h r
  proof (rule getFrameAscii.raw_induct
      [where P = "\<lambda>B d c fr h r. avail (socket h) = [] \<longrightarrow> closed (socket h) \<longrightarrow> d \<noteq> c \<longrightarrow> B \<noteq> A", OF _ that])
    fix f and B :: "('k, 'a) asio" and d c fr and h :: "'k handler" and r
    assume ih: "\<And>B d c fr h r. f B d c fr h = Some r \<Longrightarrow>
        avail (socket h) = [] \<longrightarrow> closed (socket h) \<longrightarrow> d \<noteq> c \<longrightarrow> B \<noteq> A"
      and eq: "Option.bind (getBytes B 1 h) (\<lambda>(_, got, h').
        let ch' = (case got of [] \<Rightarrow> c | x # _ \<Rightarrow> x); frame' = fr @ [ch']
        in if d \<noteq> ch' then f B d ch' frame' h' else Some (True, frame', h')) = Some r"
    show "avail (socket h) = [] \<longrightarrow> closed (socket h) \<longrightarrow> d \<noteq> c \<longrightarrow> B \<noteq> A"
    proof (intro impI notI)
      assume a: "avail (socket h) = []" "closed (socket h)" "d \<noteq> c" "B = A"
      then obtain e k' where "getBytes A 1 h =
          Some (False, [], complain (recv_failed e) (h\<lparr>socket := k'\<rparr>))" "avail k' = []" "closed k'"
        using getBytes_short [of h 1] by auto
      with eq a ih [of A d c "fr @ [c]" "complain (recv_failed e) (h\<lparr>socket := k'\<rparr>)" r]
      show False by (simp add: complain_def)
    qed
  qed
  ultimately show False using assms by blast
qed

lemma getFrameAscii_missing:
  assumes "delim \<notin> set (avail (socket h))" and "delim \<noteq> ch"
  shows "getFrameAscii A delim ch frame h = None"
  using assms
proof (induction "avail (socket h)" arbitrary: ch frame h)
  case Nil
  show ?case
  proof (cases "closed (socket h)")
    case True
    with Nil show ?thesis by (simp add: getFrameAscii_eof)
  next
    case False
    with Nil have "getBytes A 1 h = None" using getBytes_blocks [of h 1] by simp
    then show ?thesis by (subst getFrameAscii.simps) simp
  qed
next
  case (Cons c rest)
  then obtain k1 where g: "getBytes A 1 h = Some (True, [c], h\<lparr>socket := k1\<rparr>)"
    and k1: "avail k1 = rest" by (metis getBytes_1)
  have "getFrameAscii A delim c (frame @ [c]) (h\<lparr>socket := k1\<rparr>) = None"
    using Cons.hyps(1) [of "h\<lparr>socket := k1\<rparr>" c "frame @ [c]"] Cons.hyps(2) Cons.prems k1
    by (metis handler.select_convs(3) handler.surjective handler.update_convs(3) list.set_intros(1,2))
  moreover have "delim \<noteq> c" using Cons.hyps(2) Cons.prems(1) by (metis list.set_intros(1))
  ultimately show ?case by (subst getFrameAscii.simps) (use g in \<open>simp add: Let_def\<close>)
qed

end

text \<open>\<open>getFrameAscii\<close> has no failing return.\<close>

lemma getFrameAscii_true:
  "getFrameAscii A delim ch frame h = Some (ok, fr, h') \<Longrightarrow> ok"
proof -
  assume r: "getFrameAscii A delim ch frame h = Some (ok, fr, h')"
  have "fst (ok, fr, h')"
  proof (rule getFrameAscii.raw_induct [where P = "\<lambda>A d c f h r. fst r", OF _ r])
    fix f and A :: "('a, 'b) asio" and d c fr and h :: "'a handler" and r
    assume ih: "\<And>A d c fr h r. f A d c fr h = Some r \<Longrightarrow> fst r"
      and eq: "Option.bind (getBytes A 1 h) (\<lambda>(_, got, h').
        let ch' = (case got of [] \<Rightarrow> c | x # _ \<Rightarrow> x); frame' = fr @ [ch']
        in if d \<noteq> ch' then f A d ch' frame' h' else Some (True, frame', h')) = Some r"
    from eq obtain ok got h' where "getBytes A 1 h = Some (ok, got, h')"
      by (auto simp: bind_eq_Some_conv)
    with eq ih show "fst r" by (auto simp: Let_def split: if_splits)
  qed
  then show ok by simp
qed

context asio_out
begin

lemma sendBytes_loop_prefix:
  "tmp \<le> length bs \<Longrightarrow>
   \<exists>n e k'. sendBytes_loop A bs tmp k = Some (e, k') \<and> tmp \<le> n \<and> n \<le> length bs
      \<and> sent k' = sent k @ take (n - tmp) (drop tmp bs) \<and> (e = None \<longrightarrow> n = length bs)"
proof (induction "length bs - tmp" arbitrary: tmp k rule: less_induct)
  case less
  show ?case
  proof (cases "tmp < length bs")
    case False
    with less.prems show ?thesis by (subst sendBytes_loop.simps) auto
  next
    case True
    then have "drop tmp bs \<noteq> []" by simp
    from write_data [OF this] obtain m e k1
      where w: "write_some A k (drop tmp bs) = Some (m, e, k1)" and m: "m \<le> length bs - tmp"
        and s1: "sent k1 = sent k @ take m (drop tmp bs)" and pos: "e = None \<longrightarrow> 0 < m"
      by (metis length_drop)
    show ?thesis
    proof (cases e)
      case (Some x)
      with True w s1 m show ?thesis
        by (subst sendBytes_loop.simps) (auto intro!: exI [of _ "tmp + m"])
    next
      case None
      with pos m True have "length bs - (tmp + m) < length bs - tmp" "tmp + m \<le> length bs" by auto
      from less.hyps [OF this, of k1] obtain n e' k'
        where r: "sendBytes_loop A bs (tmp + m) k1 = Some (e', k')" "tmp + m \<le> n" "n \<le> length bs"
          "sent k' = sent k1 @ take (n - (tmp + m)) (drop (tmp + m) bs)" "e' = None \<longrightarrow> n = length bs"
        by blast
      have "sent k' = sent k @ take (n - tmp) (drop tmp bs)"
        unfolding take_drop_split [OF r(2)] using r(4) s1 by simp
      moreover have "sendBytes_loop A bs tmp k = Some (e', k')"
        by (subst sendBytes_loop.simps) (use True w None r(1) in simp)
      ultimately show ?thesis using r(2,3,5) by (metis add_leD1)
    qed
  qed
qed

lemma sendBytes_sends:
  obtains ok n h' where "sendBytes A bs h = Some (ok, h')" and "n \<le> length bs"
    and "sent (socket h') = sent (socket h) @ take n bs" and "ok \<longrightarrow> n = length bs"
proof -
  obtain n e k' where r: "sendBytes_loop A bs 0 (socket h) = Some (e, k')" "n \<le> length bs"
    "sent k' = sent (socket h) @ take n bs" "e = None \<longrightarrow> n = length bs"
    using sendBytes_loop_prefix [of 0 bs "socket h"] by auto
  show ?thesis
  proof (cases e)
    case None
    with r that [of True "h\<lparr>socket := k'\<rparr>" n] show ?thesis by (simp add: sendBytes_def)
  next
    case (Some x)
    with r that [of False "complain (recv_failed x) (h\<lparr>socket := k'\<rparr>)" n] show ?thesis
      by (simp add: sendBytes_def complain_def)
  qed
qed

end

context asio_up
begin

lemma sendBytes_loop_up: "up k \<Longrightarrow> sendBytes_loop A bs tmp k = Some (e, k') \<Longrightarrow> e = None \<and> up k'"
proof (induction "length bs - tmp" arbitrary: tmp k rule: less_induct)
  case less
  show ?case
  proof (cases "tmp < length bs")
    case False
    with less.prems show ?thesis by (subst (asm) sendBytes_loop.simps) auto
  next
    case True
    then have ne: "drop tmp bs \<noteq> []" by simp
    from write_data [OF this] obtain m e1 k1
      where w: "write_some A k (drop tmp bs) = Some (m, e1, k1)" and pos: "e1 = None \<longrightarrow> 0 < m"
      by blast
    from write_up [OF ne less.prems(1) w] have "e1 = None" "up k1" by auto
    with less.hyps [of "tmp + m" k1] less.prems(2) True w pos show ?thesis
      by (subst (asm) sendBytes_loop.simps) auto
  qed
qed

lemma sendBytes_all:
  assumes "up (socket h)"
  obtains k' where "sendBytes A bs h = Some (True, h\<lparr>socket := k'\<rparr>)"
    and "sent k' = sent (socket h) @ bs" and "up k'"
proof -
  obtain n e k' where r: "sendBytes_loop A bs 0 (socket h) = Some (e, k')" "n \<le> length bs"
    "sent k' = sent (socket h) @ take n bs" "e = None \<longrightarrow> n = length bs"
    using sendBytes_loop_prefix [of 0 bs "socket h"] by auto
  with sendBytes_loop_up [OF assms r(1)] that show ?thesis by (simp add: sendBytes_def)
qed

end

text \<open>Sending leaves the receiving direction alone.\<close>

context asio_stream
begin

lemma sendBytes_loop_frame:
  "sendBytes_loop A bs tmp k = Some (e, k') \<Longrightarrow> avail k' = avail k \<and> closed k' = closed k"
proof (induction "length bs - tmp" arbitrary: tmp k rule: less_induct)
  case less
  show ?case
  proof (cases "tmp < length bs")
    case False
    with less.prems show ?thesis by (subst (asm) sendBytes_loop.simps) auto
  next
    case True
    then have ne: "drop tmp bs \<noteq> []" by simp
    from write_data [OF this] obtain m e1 k1
      where w: "write_some A k (drop tmp bs) = Some (m, e1, k1)" and pos: "e1 = None \<longrightarrow> 0 < m"
      by blast
    from write_frame [OF w] less.hyps [of "tmp + m" k1] less.prems True w pos show ?thesis
      by (subst (asm) sendBytes_loop.simps) (auto split: option.splits)
  qed
qed

lemma sendBytes_frame:
  "sendBytes A bs h = Some (ok, h') \<Longrightarrow> avail (socket h') = avail (socket h) \<and> closed (socket h') = closed (socket h)"
  by (auto simp: sendBytes_def bind_eq_Some_conv complain_def split: option.splits dest!: sendBytes_loop_frame)

end

lemma mod_shift: "0 \<le> u \<Longrightarrow> u < 65536 \<Longrightarrow> (u + 32768) mod 65536 - 32768 = (if u < 32768 then u else u - 65536)"
  for u :: int
proof -
  assume u: "0 \<le> u" "u < 65536"
  have "(u + 32768) mod 65536 = (u - 32768) mod 65536" using mod_add_self2 [of "u - 32768" 65536] by (simp add: add.commute)
  with u mod_pos_pos_trivial [of "u + 32768" 65536] mod_pos_pos_trivial [of "u - 32768" 65536]
  show "(u + 32768) mod 65536 - 32768 = (if u < 32768 then u else u - 65536)" by (auto simp: not_less)
qed

lemma sint_int16: "sint (w :: int16) = (if unat w < 32768 then int (unat w) else int (unat w) - 65536)"
proof -
  have u: "0 \<le> uint w" "uint w < 65536" using uint_bounded [of w] by simp_all
  have "sint w = (uint w + 32768) mod 65536 - 32768"
    by (simp add: sint_uint signed_take_bit_eq_take_bit_shift take_bit_eq_mod)
  also have "\<dots> = (if uint w < 32768 then uint w else uint w - 65536)" by (rule mod_shift [OF u])
  finally show ?thesis using u by (simp only: unat_eq_nat_uint nat_less_iff) simp
qed

section \<open>Properties\<close>

text \<open>A handler on a queue socket, at which the properties are evaluated.\<close>

definition sock_with :: "bytes \<Rightarrow> bool \<Rightarrow> tcp_sock" where
  "sock_with bs cl = \<lparr>rxq = bs, rxclosed = cl, rxchunks = [1, 3], txd = [], txdown = False, txchunks = [2]\<rparr>"

definition demo :: "bytes \<Rightarrow> bool \<Rightarrow> tcp_sock handler" where
  "demo bs cl = connectionHandler ''127.0.0.1'' 8888 (sock_with bs cl)"

lemma demo_simps [simp]:
  "rxq (socket (demo bs cl)) = bs" "rxclosed (socket (demo bs cl)) = cl" "txd (socket (demo bs cl)) = []"
  "txdown (socket (demo bs cl)) = False" "terminate (demo bs cl) = False"
  "logoutSent (demo bs cl) = False" "logoutFailed (demo bs cl) = False" "cout (demo bs cl) = []"
  by (simp_all add: demo_def connectionHandler_def sock_with_def)

text \<open>
  C18. Reading \<open>n\<close> bytes, however the network splits them, has exactly three outcomes: the
  next \<open>n\<close> bytes are stored and nothing else is consumed, or the peer has closed before
  and the call reports failure after taking what there was, or the call waits. The loop
  never spins.
\<close>

theorem getBytes_spec:
  assumes "asio_in A avail closed"
  shows "if n \<le> length (avail (socket h))
    then \<exists>k'. getBytes A n h = Some (True, take n (avail (socket h)), h\<lparr>socket := k'\<rparr>)
      \<and> avail k' = drop n (avail (socket h)) \<and> closed k' = closed (socket h)
    else if closed (socket h)
    then \<exists>e k'. getBytes A n h = Some (False, avail (socket h), complain (recv_failed e) (h\<lparr>socket := k'\<rparr>))
      \<and> avail k' = [] \<and> closed k'
    else getBytes A n h = None"
proof (cases "n \<le> length (avail (socket h))")
  case True
  with asio_in.getBytes_enough [OF assms True] show ?thesis by (simp, metis)
next
  case False
  then have short: "length (avail (socket h)) < n" by simp
  show ?thesis
  proof (cases "closed (socket h)")
    case True
    with False asio_in.getBytes_short [OF assms short True] show ?thesis by (simp, metis)
  next
    case silent: False
    with False show ?thesis using asio_in.getBytes_blocks [OF assms short] by simp
  qed
qed

theorem getBytes_spec_witness:
  "(\<exists>k'. getBytes tcp_asio 2 (demo ''abc'' True) = Some (True, ''ab'', (demo ''abc'' True)\<lparr>socket := k'\<rparr>)
      \<and> rxq k' = ''c'' \<and> rxclosed k')
   \<and> (\<exists>e k'. getBytes tcp_asio 4 (demo ''abc'' True) =
        Some (False, ''abc'', complain (recv_failed e) ((demo ''abc'' True)\<lparr>socket := k'\<rparr>)) \<and> rxq k' = [])
   \<and> getBytes tcp_asio 4 (demo ''abc'' False) = None"
  using getBytes_spec [OF tcp.asio_in_axioms, of 2 "demo ''abc'' True"]
    getBytes_spec [OF tcp.asio_in_axioms, of 4 "demo ''abc'' True"]
    getBytes_spec [OF tcp.asio_in_axioms, of 4 "demo ''abc'' False"]
  by (auto simp: numeral_eq_Suc)

text \<open>
  Sending always returns, and what the socket has taken is a prefix of the bytes, in
  order; the call reports success only when it is all of them.
\<close>

lemma sendBytes_spec:
  assumes "asio_out A sent"
  shows "\<exists>ok n h'. sendBytes A bs h = Some (ok, h') \<and> n \<le> length bs
    \<and> sent (socket h') = sent (socket h) @ take n bs \<and> (ok \<longrightarrow> n = length bs)"
  by (rule asio_out.sendBytes_sends [OF assms, of bs h]) blast





lemma getFrameAscii_last:
  assumes "getFrameAscii A d ch fr h = Some (ok, s, h')"
  shows "ok \<and> s \<noteq> [] \<and> last s = d"
proof -
  have "(\<lambda>(ok, s, h'). ok \<and> s \<noteq> [] \<and> last s = d) (ok, s, h')"
  proof (rule getFrameAscii.raw_induct
      [where P = "\<lambda>A d c f h r. (\<lambda>(ok, s, h'). ok \<and> s \<noteq> [] \<and> last s = d) r", OF _ assms])
    fix f and A :: "('a, 'b) asio" and d c fr and h :: "'a handler" and r
    assume ih: "\<And>A d c fr h r. f A d c fr h = Some r \<Longrightarrow> (\<lambda>(ok, s, h'). ok \<and> s \<noteq> [] \<and> last s = d) r"
      and eq: "Option.bind (getBytes A 1 h) (\<lambda>(_, got, h').
        let ch' = (case got of [] \<Rightarrow> c | x # _ \<Rightarrow> x); frame' = fr @ [ch']
        in if d \<noteq> ch' then f A d ch' frame' h' else Some (True, frame', h')) = Some r"
    from eq obtain ok got h' where "getBytes A 1 h = Some (ok, got, h')"
      by (auto simp: bind_eq_Some_conv)
    with eq ih show "(\<lambda>(ok, s, h'). ok \<and> s \<noteq> [] \<and> last s = d) r"
      by (auto simp: Let_def split: if_splits)
  qed
  then show ?thesis by simp
qed

text \<open>
  The result of a frame read is always \<open>true\<close> with a frame that ends with the
  delimiter: every \<open>if (!getFrameAscii(...))\<close> of the decoder is dead code.
\<close>

lemma getFrameAscii_never_fails:
  "getFrameAscii A delim ch frame h = Some (ok, s, h') \<Longrightarrow> ok \<and> s \<noteq> [] \<and> last s = delim"
  by (rule getFrameAscii_last)

lemma getFrameAscii_never_fails_witness:
  "\<exists>s h'. getFrameAscii tcp_asio NUL (CHR ''x'') [] (demo (''ab'' @ [NUL] @ ''c'') True) = Some (True, s, h')
     \<and> last s = NUL"
proof -
  have "rxq (socket (demo (''ab'' @ [NUL] @ ''c'') True)) = ''ab'' @ NUL # ''c''" "NUL \<notin> set ''ab''" by simp_all
  then obtain k' where "getFrameAscii tcp_asio NUL (CHR ''x'') [] (demo (''ab'' @ [NUL] @ ''c'') True) =
      Some (True, [] @ ''ab'' @ [NUL], (demo (''ab'' @ [NUL] @ ''c'') True)\<lparr>socket := k'\<rparr>)"
    using tcp.getFrameAscii_found by blast
  from this getFrameAscii_never_fails [OF this] show ?thesis by blast
qed

text \<open>
  Two bytes are read as a signed 16-bit number in network byte order: the value for every
  pair of bytes, with the wrap to the negative numbers when the high byte is 128 or more.
\<close>

lemma bytesToShort_value:
  "sint (bytesToShort b0 b1) =
     (let v = 256 * int (of_char b0) + int (of_char b1) in if of_char b0 < (128 :: nat) then v else v - 65536)"
proof -
  have "of_char b1 < (256 :: nat)" by simp
  then have "256 * of_char b0 + of_char b1 < (32768 :: nat) \<longleftrightarrow> of_char b0 < (128 :: nat)" by linarith
  then show ?thesis unfolding sint_int16 unat_bytesToShort by (simp add: Let_def)
qed

end
