(* ===== verification/Encoder.thy ===== *)
theory Encoder
  imports Handler
begin

text \<open>
  \<open>connectionHandler::Encoder\<close> and the two methods that send its result. The loops over
  the message are index loops, as in the code; the abstract description of the commands
  and of their wire format follows, with the lemma that \<open>Encoder\<close> implements it.
\<close>

section \<open>The method\<close>

text \<open>
  The first loop collects the command word; it stops at a space or at the end. The
  result is the word and the index after it.
\<close>

function scan_opcode :: "string \<Rightarrow> nat \<Rightarrow> string \<Rightarrow> string \<times> nat" where
  "scan_opcode msg i opCode =
     (if i < length msg \<and> msg ! i \<noteq> SP then scan_opcode msg (i + 1) (opCode @ [msg ! i])
      else (opCode, i))"
  by pat_completeness auto
termination
  by (relation "measure (\<lambda>(msg, i, opCode). length msg - i)") auto

declare scan_opcode.simps [simp del]

text \<open>
  The loops over the rest of the message differ in what they push for a character.
  REGISTER and LOGIN push NUL for a space, FOLLOW skips spaces, POST, STAT and BLOCK push
  every character, and PM does so with a case distinction.
\<close>

definition push_nul_sep :: "char \<Rightarrow> bytes" where
  "push_nul_sep c = (if c = SP then [NUL] else [c])"

definition push_no_space :: "char \<Rightarrow> bytes" where
  "push_no_space c = (if c \<noteq> SP then [c] else [])"

definition push_all :: "char \<Rightarrow> bytes" where
  "push_all c = [c]"

definition push_pm :: "char \<Rightarrow> bytes" where
  "push_pm c = (if c = SP then [SP] else [c])"

function push_rest :: "(char \<Rightarrow> bytes) \<Rightarrow> string \<Rightarrow> nat \<Rightarrow> bytes \<Rightarrow> bytes" where
  "push_rest f msg i ans =
     (if i < length msg then push_rest f msg (i + 1) (ans @ f (msg ! i)) else ans)"
  by pat_completeness auto
termination
  by (relation "measure (\<lambda>(f, msg, i, ans). length msg - i)") auto

declare push_rest.simps [simp del]

definition Encoder :: "string \<Rightarrow> 'k handler \<Rightarrow> bytes \<times> 'k handler" where
  "Encoder msg h =
     (let (opCode, i0) = scan_opcode msg 0 [];
          i = i0 + 1
      in if opCode = ''REGISTER'' then (push_rest push_nul_sep msg i ''01'' @ [NUL] @ [SEMI], h)
         else if opCode = ''LOGIN'' then (push_rest push_nul_sep msg i ''02'' @ [SEMI], h)
         else if opCode = ''LOGOUT'' then (''03'' @ [SEMI], h\<lparr>logoutSent := True\<rparr>)
         else if opCode = ''FOLLOW'' then (push_rest push_no_space msg i ''04'' @ [NUL] @ [SEMI], h)
         else if opCode = ''POST'' then (push_rest push_all msg i ''05'' @ [NUL] @ [SEMI], h)
         else if opCode = ''PM'' then (push_rest push_pm msg i ''06'' @ [NUL] @ [SEMI], h)
         else if opCode = ''LOGSTAT'' then (''07'' @ [SEMI], h)
         else if opCode = ''STAT'' then (push_rest push_all msg i ''08'' @ [NUL] @ [SEMI], h)
         else if opCode = ''BLOCK'' then (push_rest push_all msg i ''12'' @ [NUL] @ [SEMI], h)
         else ([], h))"

text \<open>\<open>sendFrameAscii\<close> encodes the frame and does not look at its delimiter argument.\<close>

definition sendFrameAscii ::
  "('k, 'a) asio \<Rightarrow> string \<Rightarrow> char \<Rightarrow> 'k handler \<Rightarrow> (bool \<times> 'k handler) option" where
  "sendFrameAscii A frame delimiter h =
     (let (encodedStr, h') = Encoder frame h in sendBytes A encodedStr h')"

definition sendLine :: "('k, 'a) asio \<Rightarrow> string \<Rightarrow> 'k handler \<Rightarrow> (bool \<times> 'k handler) option" where
  "sendLine A line h = sendFrameAscii A line SEMI h"

section \<open>The loops in closed form\<close>

lemma scan_opcode_eq:
  "i \<le> length msg \<Longrightarrow> scan_opcode msg i op =
     (op @ takeWhile (\<lambda>c. c \<noteq> SP) (drop i msg), i + length (takeWhile (\<lambda>c. c \<noteq> SP) (drop i msg)))"
proof (induction msg i op rule: scan_opcode.induct)
  case (1 msg i op)
  show ?case
  proof (cases "i < length msg")
    case False
    then show ?thesis by (simp add: scan_opcode.simps [of msg i])
  next
    case True
    then have "drop i msg = msg ! i # drop (Suc i) msg" by (simp add: Cons_nth_drop_Suc)
    with True "1.IH" show ?thesis by (simp add: scan_opcode.simps [of msg i])
  qed
qed

lemma push_rest_eq: "push_rest f msg i ans = ans @ concat (map f (drop i msg))"
proof (induction f msg i ans rule: push_rest.induct)
  case (1 f msg i ans)
  show ?case
  proof (cases "i < length msg")
    case False
    then show ?thesis by (simp add: push_rest.simps [of f msg i])
  next
    case True
    then have "drop i msg = msg ! i # drop (Suc i) msg" by (simp add: Cons_nth_drop_Suc)
    with True "1.IH" show ?thesis by (simp add: push_rest.simps [of f msg i])
  qed
qed

lemma concat_push_nul_sep: "concat (map push_nul_sep s) = map (\<lambda>c. if c = SP then NUL else c) s"
  by (induction s) (auto simp: push_nul_sep_def)

lemma concat_push_no_space: "concat (map push_no_space s) = filter (\<lambda>c. c \<noteq> SP) s"
  by (induction s) (auto simp: push_no_space_def)

lemma concat_push_all: "concat (map push_all s) = s"
  by (induction s) (auto simp: push_all_def)

lemma concat_push_pm: "concat (map push_pm s) = s"
  by (induction s) (auto simp: push_pm_def)

lemmas push_loops = push_rest_eq concat_push_nul_sep concat_push_no_space concat_push_all concat_push_pm

text \<open>The command word and what follows the space after it.\<close>

definition opcode_of :: "string \<Rightarrow> string" where
  "opcode_of msg = takeWhile (\<lambda>c. c \<noteq> SP) msg"

definition args_of :: "string \<Rightarrow> string" where
  "args_of msg = drop (length (opcode_of msg) + 1) msg"

lemma opcode_of_simps [wire_simps]:
  "opcode_of [] = []" "opcode_of (c # s) = (if c = SP then [] else c # opcode_of s)"
  by (simp_all add: opcode_of_def)

lemma args_of_simps [wire_simps]:
  "args_of [] = []" "args_of (c # s) = (if c = SP then s else args_of s)"
  by (simp_all add: args_of_def opcode_of_def)

lemma Encoder_eq:
  "Encoder msg h =
     (let w = opcode_of msg; s = args_of msg
      in if w = ''REGISTER'' then (''01'' @ map (\<lambda>c. if c = SP then NUL else c) s @ [NUL, SEMI], h)
         else if w = ''LOGIN'' then (''02'' @ map (\<lambda>c. if c = SP then NUL else c) s @ [SEMI], h)
         else if w = ''LOGOUT'' then (''03'' @ [SEMI], h\<lparr>logoutSent := True\<rparr>)
         else if w = ''FOLLOW'' then (''04'' @ filter (\<lambda>c. c \<noteq> SP) s @ [NUL, SEMI], h)
         else if w = ''POST'' then (''05'' @ s @ [NUL, SEMI], h)
         else if w = ''PM'' then (''06'' @ s @ [NUL, SEMI], h)
         else if w = ''LOGSTAT'' then (''07'' @ [SEMI], h)
         else if w = ''STAT'' then (''08'' @ s @ [NUL, SEMI], h)
         else if w = ''BLOCK'' then (''12'' @ s @ [NUL, SEMI], h)
         else ([], h))"
  by (simp add: Encoder_def scan_opcode_eq push_loops opcode_of_def args_of_def Let_def)

section \<open>The commands and their wire format\<close>

text \<open>
  The nine commands a user types (\<open>readme\<close>), the line that is typed for each, and the
  bytes the protocol puts on the wire. Arguments that end at a space must not hold one
  themselves; the content of POST, PM, STAT and BLOCK runs to the end of the line.
\<close>

datatype command =
    Register string string string
  | Login string string string
  | Logout
  | Follow string string
  | Post string
  | PM string string
  | Logstat
  | Stat string
  | Block string

fun show_command :: "command \<Rightarrow> string" where
  "show_command (Register u p b) = ''REGISTER'' @ SP # u @ SP # p @ SP # b"
| "show_command (Login u p c) = ''LOGIN'' @ SP # u @ SP # p @ SP # c"
| "show_command Logout = ''LOGOUT''"
| "show_command (Follow a u) = ''FOLLOW'' @ SP # a @ SP # u"
| "show_command (Post s) = ''POST'' @ SP # s"
| "show_command (PM u s) = ''PM'' @ SP # u @ SP # s"
| "show_command Logstat = ''LOGSTAT''"
| "show_command (Stat s) = ''STAT'' @ SP # s"
| "show_command (Block u) = ''BLOCK'' @ SP # u"

text \<open>The message without the \<open>;\<close> that ends it on the wire.\<close>

fun wire_command :: "command \<Rightarrow> bytes" where
  "wire_command (Register u p b) = ''01'' @ u @ NUL # p @ NUL # b @ [NUL]"
| "wire_command (Login u p c) = ''02'' @ u @ NUL # p @ NUL # c"
| "wire_command Logout = ''03''"
| "wire_command (Follow a u) = ''04'' @ a @ u @ [NUL]"
| "wire_command (Post s) = ''05'' @ s @ [NUL]"
| "wire_command (PM u s) = ''06'' @ u @ SP # s @ [NUL]"
| "wire_command Logstat = ''07''"
| "wire_command (Stat s) = ''08'' @ s @ [NUL]"
| "wire_command (Block u) = ''12'' @ u @ [NUL]"

fun command_ok :: "command \<Rightarrow> bool" where
  "command_ok (Register u p b) = (SP \<notin> set u \<and> SP \<notin> set p \<and> SP \<notin> set b)"
| "command_ok (Login u p c) = (SP \<notin> set u \<and> SP \<notin> set p \<and> SP \<notin> set c)"
| "command_ok (Follow a u) = (SP \<notin> set a \<and> SP \<notin> set u)"
| "command_ok (PM u s) = (SP \<notin> set u)"
| "command_ok _ = True"

definition mark_logout :: "command \<Rightarrow> 'k handler \<Rightarrow> 'k handler" where
  "mark_logout c h = (if c = Logout then h\<lparr>logoutSent := True\<rparr> else h)"

lemma map_nul_id: "SP \<notin> set s \<Longrightarrow> map (\<lambda>c. if c = SP then NUL else c) s = s"
  by (induction s) auto

lemma filter_no_space_id: "SP \<notin> set s \<Longrightarrow> filter (\<lambda>c. c \<noteq> SP) s = s"
  by (induction s) auto

text \<open>
  \<open>Encoder\<close> implements the wire format: for each of the nine commands the line the
  user types is encoded to exactly the bytes of the protocol followed by the delimiter,
  and \<open>LOGOUT\<close>, alone, raises the flag the keyboard thread waits on.
\<close>

lemma Encoder_command:
  "command_ok c \<Longrightarrow> Encoder (show_command c) h = (wire_command c @ [SEMI], mark_logout c h)"
  by (cases c)
     (simp_all add: Encoder_eq Let_def wire_simps mark_logout_def map_nul_id filter_no_space_id)

section \<open>Properties\<close>

lemma append_sep_inj:
  "d \<notin> set a \<Longrightarrow> d \<notin> set b \<Longrightarrow> a @ d # x = b @ d # y \<longleftrightarrow> a = b \<and> x = y"
proof (induction a arbitrary: b)
  case Nil
  then show ?case by (cases b) auto
next
  case (Cons c a)
  then show ?case by (cases b) auto
qed

fun command_clean :: "command \<Rightarrow> bool" where
  "command_clean (Register u p b) = (NUL \<notin> set u \<and> NUL \<notin> set p \<and> NUL \<notin> set b)"
| "command_clean (Login u p c) = (NUL \<notin> set u \<and> NUL \<notin> set p \<and> NUL \<notin> set c)"
| "command_clean (Follow a u) = (a = ''0'' \<or> a = ''1'')"
| "command_clean _ = True"

lemma wire_command_inj:
  assumes "command_ok c" "command_ok d" "command_clean c" "command_clean d"
    and "wire_command c = wire_command d"
  shows "c = d"
  using assms by (cases c; cases d) (auto simp: append_sep_inj)

text \<open>
  The wire format is unambiguous: two commands with the same encoding are the same
  command, provided their arguments hold no separator and FOLLOW has one of its two
  actions.
\<close>

lemma Encoder_injective:
  assumes "command_ok c" and "command_clean c" and "command_ok d" and "command_clean d"
    and "fst (Encoder (show_command c) h) = fst (Encoder (show_command d) h)"
  shows "c = d"
  using assms wire_command_inj by (simp add: Encoder_command)

definition opcodes :: "string list" where
  "opcodes = [''REGISTER'', ''LOGIN'', ''LOGOUT'', ''FOLLOW'', ''POST'', ''PM'', ''LOGSTAT'', ''STAT'', ''BLOCK'']"

text \<open>
  A line whose first word is none of the nine commands sends nothing, reports success
  and changes no state; the user is not told.
\<close>

lemma unknown_command:
  assumes "opcode_of line \<notin> set opcodes"
  shows "sendLine A line h = Some (True, h)"
  using assms
  by (simp add: sendLine_def sendFrameAscii_def Encoder_eq Let_def opcodes_def sendBytes_def
      sendBytes_loop.simps)

lemma unknown_command_witness:
  "sendLine tcp_asio ''HELLO world'' (demo [] False) = Some (True, demo [] False)"
  by (rule unknown_command) (simp add: opcode_of_simps opcodes_def)

text \<open>
  The delimiter that \<open>sendLine\<close> passes to \<open>sendFrameAscii\<close> is never used.
\<close>

lemma send_delimiter_ignored: "sendFrameAscii A frame d1 h = sendFrameAscii A frame d2 h"
  by (simp add: sendFrameAscii_def)

text \<open>
  C17. \<open>Encoder\<close> implements the wire format: for each of the nine commands the line the user
  types is encoded to exactly the bytes of the protocol followed by the delimiter, and
  \<open>LOGOUT\<close>, alone, raises the flag the keyboard thread waits on.
\<close>

theorem Encoder_implements_protocol:
  assumes "command_ok c"
  shows "Encoder (show_command c) h = (wire_command c @ [SEMI], mark_logout c h)"
  using assms by (rule Encoder_command)

theorem Encoder_implements_protocol_witness:
  "Encoder ''REGISTER roy 11 1-1-90'' (demo [] False) = (''01roy'' @ NUL # ''11'' @ NUL # ''1-1-90'' @ [NUL, SEMI], demo [] False)"
  using Encoder_implements_protocol [of "Register ''roy'' ''11'' ''1-1-90''" "demo [] False"] by (simp add: mark_logout_def)

end
