(* ===== verification/Decoder.thy ===== *)
theory Decoder
  imports Handler
begin

text \<open>
  \<open>connectionHandler::decoder\<close> and the three methods it calls, which read one message of
  the server from the socket and render it as the line that is shown to the user.

  Two things of C++ appear as values here. A method that executes \<open>return NULL\<close> with
  return type \<open>std::string\<close> constructs a string from a null pointer, which throws
  \<open>std::logic_error\<close>: its result is \<^term>\<open>Inl\<close>. And the methods read memory they have not
  written: a local \<open>char\<close> before the first read, and the bytes behind the array
  \<open>messageOpcode\<close>, which is appended to a string as if it ended with NUL. That memory is
  the record \<open>stack\<close>, over which every theorem quantifies.
\<close>

section \<open>The methods\<close>

datatype exn = LogicError

record stack =
  ch1 :: char             \<comment> \<open>\<open>ch\<close> in the first call of \<open>getFrameAscii\<close>\<close>
  ch2 :: char             \<comment> \<open>\<open>ch\<close> in the second\<close>
  beyond1 :: bytes        \<comment> \<open>behind \<open>messageOpcode\<close> at the first \<open>answer += messageOpcode\<close>\<close>
  beyond2 :: bytes        \<comment> \<open>and at the second\<close>

text \<open>A C string read from memory: the bytes up to the first NUL.\<close>

definition cstr :: "bytes \<Rightarrow> string" where
  "cstr mem = takeWhile (\<lambda>c. c \<noteq> NUL) mem"

definition interrupted :: "'k handler \<Rightarrow> ((exn + string) \<times> 'k handler) option" where
  "interrupted h = Some (Inl LogicError, say ''connection was interrupted'' h)"

definition notificationDecoder ::
  "('k, 'a) asio \<Rightarrow> stack \<Rightarrow> 'k handler \<Rightarrow> ((exn + string) \<times> 'k handler) option" where
  "notificationDecoder A m h =
     Option.bind (getBytes A 1 h) (\<lambda>(ok, stat, h1).
     if \<not> ok then interrupted h1
     else let ans = (if stat ! 0 = CHR ''1'' then ''Public '' else ''PM '') in
       Option.bind (getFrameAscii A NUL (ch1 m) [] h1) (\<lambda>(ok, postingUser, h2).
       if \<not> ok then interrupted h2
       else let postingUser = take (length postingUser - 1) postingUser;
                ans = ans @ postingUser @ '' '' in
         Option.bind (getFrameAscii A NUL (ch2 m) [] h2) (\<lambda>(ok, content, h3).
         if \<not> ok then interrupted h3
         else let content = take (length content - 1) content
              in Some (Inr (ans @ content), h3))))"

text \<open>The four counters of a statistics reply, read one after the other.\<close>

definition readShort ::
  "('k, 'a) asio \<Rightarrow> 'k handler \<Rightarrow> ((exn + int16) \<times> 'k handler) option" where
  "readShort A h =
     Option.bind (getBytes A 2 h) (\<lambda>(ok, argument, h1).
     if \<not> ok then Some (Inl LogicError, say ''connection was interrupted'' h1)
     else Some (Inr (bytesToShort (argument ! 0) (argument ! 1)), h1))"

fun readShorts ::
  "('k, 'a) asio \<Rightarrow> nat \<Rightarrow> string \<Rightarrow> 'k handler \<Rightarrow> ((exn + string) \<times> 'k handler) option" where
  "readShorts A 0 answer h = Some (Inr answer, h)"
| "readShorts A (Suc n) answer h =
     Option.bind (readShort A h) (\<lambda>(r, h1).
     case r of
       Inl e \<Rightarrow> Some (Inl e, h1)
     | Inr v \<Rightarrow> readShorts A n (answer @ show_int (sint v) @ (if n = 0 then [] else '' '')) h1)"

definition ackFollow ::
  "('k, 'a) asio \<Rightarrow> stack \<Rightarrow> string \<Rightarrow> 'k handler \<Rightarrow> ((exn + string) \<times> 'k handler) option" where
  "ackFollow A m answer h =
     Option.bind (getBytes A 2 h) (\<lambda>(ok, messageOpcode, h1).
     if \<not> ok then interrupted h1
     else let answer = answer @ cstr (messageOpcode @ beyond2 m) @ '' '' in
       Option.bind (getFrameAscii A NUL (ch1 m) [] h1) (\<lambda>(ok, userName, h2).
       if \<not> ok then interrupted h2
       else let answer = answer @ take (length userName - 1) userName in
         Option.bind (getBytes A 1 h2) (\<lambda>(ok, _, h3).
         if \<not> ok then interrupted h3 else Some (Inr answer, h3))))"

definition ackDecoder ::
  "('k, 'a) asio \<Rightarrow> stack \<Rightarrow> 'k handler \<Rightarrow> ((exn + string) \<times> 'k handler) option" where
  "ackDecoder A m h =
     Option.bind (getBytes A 2 h) (\<lambda>(ok, messageOpcode, h1).
     if \<not> ok then interrupted h1
     else let answer = cstr (messageOpcode @ beyond1 m) @ '' '';
              h2 = (if messageOpcode ! 0 = CHR ''0'' \<and> messageOpcode ! 1 = CHR ''3''
                    then h1\<lparr>terminate := True\<rparr> else h1)
          in if messageOpcode ! 0 = CHR ''0'' \<and> messageOpcode ! 1 = CHR ''4''
             then ackFollow A m answer h2
             else if messageOpcode ! 0 = CHR ''0'' \<and> messageOpcode ! 1 = CHR ''7''
                   \<or> messageOpcode ! 0 = CHR ''0'' \<and> messageOpcode ! 1 = CHR ''8''
             then readShorts A 4 answer h2
             else Some (Inr answer, h2))"

definition errorDecoder ::
  "('k, 'a) asio \<Rightarrow> 'k handler \<Rightarrow> ((exn + string) \<times> 'k handler) option" where
  "errorDecoder A h =
     Option.bind (getBytes A 2 h) (\<lambda>(ok, arg, h1).
     if \<not> ok then interrupted h1
     else let h2 = (if arg ! 0 = CHR ''0'' \<and> arg ! 1 = CHR ''3''
                    then h1\<lparr>logoutFailed := True\<rparr> else h1)
          in Some (Inr [arg ! 0, arg ! 1], h2))"

text \<open>
  \<open>decoder\<close> reads the opcode, the body, and in each branch one more byte for the delimiter,
  whose value it does not check. An exception of the body leaves the method at once.
\<close>

definition finish ::
  "('k, 'a) asio \<Rightarrow> string \<Rightarrow> (exn + string) \<times> 'k handler \<Rightarrow> ((exn + string) \<times> 'k handler) option" where
  "finish A prefix = (\<lambda>(r, h).
     case r of
       Inl e \<Rightarrow> Some (Inl e, h)
     | Inr body \<Rightarrow>
         Option.bind (getBytes A 1 h) (\<lambda>(ok, _, h').
         if \<not> ok then interrupted h' else Some (Inr (prefix @ body), h')))"

definition decoder ::
  "('k, 'a) asio \<Rightarrow> stack \<Rightarrow> 'k handler \<Rightarrow> ((exn + string) \<times> 'k handler) option" where
  "decoder A m h =
     Option.bind (getBytes A 2 h) (\<lambda>(ok, opCode, h1).
     if \<not> ok then interrupted h1
     else if opCode ! 0 = CHR ''0'' \<and> opCode ! 1 = CHR ''9''
       then Option.bind (notificationDecoder A m h1) (finish A ''NOTIFICATION '')
     else if opCode ! 0 = CHR ''1'' \<and> opCode ! 1 = CHR ''0''
       then Option.bind (ackDecoder A m h1) (finish A ''ACK '')
     else if opCode ! 0 = CHR ''1'' \<and> opCode ! 1 = CHR ''1''
       then Option.bind (errorDecoder A h1) (finish A ''ERROR '')
     else Some (Inl LogicError, h1))"

section \<open>The replies of the server\<close>

text \<open>
  A reply on the wire, the line the user is shown for it and its effect on the flags. An
  acknowledged FOLLOW carries one byte between the NUL that ends the user name and the
  delimiter, which the client skips (the server puts a second NUL there).
\<close>

lemma bytesToShort_be16 [simp]: "bytesToShort (be16 w ! 0) (be16 w ! Suc 0) = w"
  by (simp add: be16_def bytesToShort_eq join_split_bytes)

datatype reply =
    Notify bool string string
  | AckOp char char
  | AckFollow char char string char
  | AckStat char int16 int16 int16 int16
  | Err char char

fun wire_reply :: "reply \<Rightarrow> bytes" where
  "wire_reply (Notify public user content) =
     ''09'' @ [if public then CHR ''1'' else CHR ''0''] @ user @ NUL # content @ [NUL, SEMI]"
| "wire_reply (AckOp a b) = ''10'' @ [a, b, SEMI]"
| "wire_reply (AckFollow a b user x) = ''1004'' @ [a, b] @ user @ [NUL, x, SEMI]"
| "wire_reply (AckStat d age posts followers following) =
     ''100'' @ [d] @ be16 age @ be16 posts @ be16 followers @ be16 following @ [SEMI]"
| "wire_reply (Err a b) = ''11'' @ [a, b, SEMI]"

fun reply_ok :: "reply \<Rightarrow> bool" where
  "reply_ok (Notify public user content) = (NUL \<notin> set user \<and> NUL \<notin> set content)"
| "reply_ok (AckOp a b) = ([a, b] \<notin> {''04'', ''07'', ''08''})"
| "reply_ok (AckFollow a b user x) = (NUL \<notin> set user)"
| "reply_ok (AckStat d _ _ _ _) = (d = CHR ''7'' \<or> d = CHR ''8'')"
| "reply_ok (Err a b) = True"

fun render :: "stack \<Rightarrow> reply \<Rightarrow> string" where
  "render m (Notify public user content) =
     ''NOTIFICATION '' @ (if public then ''Public '' else ''PM '') @ user @ '' '' @ content"
| "render m (AckOp a b) = ''ACK '' @ cstr ([a, b] @ beyond1 m) @ '' ''"
| "render m (AckFollow a b user x) =
     ''ACK '' @ cstr (''04'' @ beyond1 m) @ '' '' @ cstr ([a, b] @ beyond2 m) @ '' '' @ user"
| "render m (AckStat d age posts followers following) =
     ''ACK '' @ cstr ([CHR ''0'', d] @ beyond1 m) @ '' '' @ show_int (sint age) @ '' ''
       @ show_int (sint posts) @ '' '' @ show_int (sint followers) @ '' '' @ show_int (sint following)"
| "render m (Err a b) = ''ERROR '' @ [a, b]"

definition effect :: "reply \<Rightarrow> 'k handler \<Rightarrow> 'k handler" where
  "effect r h =
     (if r = AckOp (CHR ''0'') (CHR ''3'') then h\<lparr>terminate := True\<rparr>
      else if r = Err (CHR ''0'') (CHR ''3'') then h\<lparr>logoutFailed := True\<rparr>
      else h)"

lemma effect_socket [conn_simps]:
  "socket (effect r h) = socket h" "(effect r (h\<lparr>socket := k\<rparr>))\<lparr>socket := k'\<rparr> = effect r (h\<lparr>socket := k'\<rparr>)"
  by (simp_all add: effect_def)

fun show_shorts :: "int16 list \<Rightarrow> string" where
  "show_shorts [] = []"
| "show_shorts (w # ws) = show_int (sint w) @ (if ws = [] then [] else '' '') @ show_shorts ws"

context asio_in
begin

lemma getBytes_pre:
  assumes "avail (socket h) = bs @ rest" and "length bs = n"
  obtains k' where "getBytes A n h = Some (True, bs, h\<lparr>socket := k'\<rparr>)"
    and "avail k' = rest" and "closed k' = closed (socket h)"
  using getBytes_enough [of n h] assms by auto

lemma getBytes_2:
  assumes "avail (socket h) = a # b # rest"
  obtains k' where "getBytes A 2 h = Some (True, [a, b], h\<lparr>socket := k'\<rparr>)"
    and "avail k' = rest" and "closed k' = closed (socket h)"
  using getBytes_pre [of h "[a, b]" rest 2] assms by auto

lemma getFrameAscii_pre:
  assumes "avail (socket h) = pre @ delim # rest" and "delim \<notin> set pre"
  obtains k' where "getFrameAscii A delim ch frame h = Some (True, frame @ pre @ [delim], h\<lparr>socket := k'\<rparr>)"
    and "avail k' = rest" and "closed k' = closed (socket h)"
  using getFrameAscii_found [OF assms] by blast

lemma notificationDecoder_reads:
  assumes "avail (socket h) = c # user @ NUL # content @ NUL # rest"
    and "NUL \<notin> set user" and "NUL \<notin> set content"
  obtains k' where "notificationDecoder A m h =
      Some (Inr ((if c = CHR ''1'' then ''Public '' else ''PM '') @ user @ '' '' @ content), h\<lparr>socket := k'\<rparr>)"
    and "avail k' = rest" and "closed k' = closed (socket h)"
proof -
  from assms(1) obtain k1 where 1: "getBytes A 1 h = Some (True, [c], h\<lparr>socket := k1\<rparr>)"
    "avail k1 = user @ NUL # content @ NUL # rest" "closed k1 = closed (socket h)"
    by (auto elim: getBytes_1)
  from 1(2) assms(2) obtain k2 where 2: "getFrameAscii A NUL (ch1 m) [] (h\<lparr>socket := k1\<rparr>) =
      Some (True, user @ [NUL], h\<lparr>socket := k2\<rparr>)"
    "avail k2 = content @ NUL # rest" "closed k2 = closed k1"
    using getFrameAscii_pre [of "h\<lparr>socket := k1\<rparr>" user NUL _ "ch1 m" "[]"] by auto
  from 2(2) assms(3) obtain k3 where 3: "getFrameAscii A NUL (ch2 m) [] (h\<lparr>socket := k2\<rparr>) =
      Some (True, content @ [NUL], h\<lparr>socket := k3\<rparr>)"
    "avail k3 = rest" "closed k3 = closed k2"
    using getFrameAscii_pre [of "h\<lparr>socket := k2\<rparr>" content NUL _ "ch2 m" "[]"] by auto
  show thesis
    by (rule that [of k3]) (use 1 2 3 in \<open>simp_all add: notificationDecoder_def\<close>)
qed

lemma readShort_reads:
  assumes "avail (socket h) = be16 w @ rest"
  obtains k' where "readShort A h = Some (Inr w, h\<lparr>socket := k'\<rparr>)"
    and "avail k' = rest" and "closed k' = closed (socket h)"
proof -
  from assms obtain k1 where "getBytes A 2 h = Some (True, be16 w, h\<lparr>socket := k1\<rparr>)"
    "avail k1 = rest" "closed k1 = closed (socket h)" by (auto elim: getBytes_pre)
  with that show thesis by (simp add: readShort_def)
qed

lemma readShorts_reads:
  assumes "avail (socket h) = concat (map be16 ws) @ rest"
  shows "\<exists>k'. readShorts A (length ws) answer h = Some (Inr (answer @ show_shorts ws), h\<lparr>socket := k'\<rparr>)
    \<and> avail k' = rest \<and> closed k' = closed (socket h)"
  using assms
proof (induction ws arbitrary: answer h)
  case Nil
  then show ?case by (auto intro: exI [of _ "socket h"])
next
  case (Cons w ws)
  then obtain k1 where "readShort A h = Some (Inr w, h\<lparr>socket := k1\<rparr>)"
    "avail k1 = concat (map be16 ws) @ rest" "closed k1 = closed (socket h)"
    using readShort_reads by (metis append.assoc concat.simps(2) list.map(2))
  with Cons.IH [of "h\<lparr>socket := k1\<rparr>" "answer @ show_int (sint w) @ (if ws = [] then [] else '' '')"]
  show ?case by simp
qed

lemma readShorts4_reads:
  assumes "avail (socket h) = be16 w1 @ be16 w2 @ be16 w3 @ be16 w4 @ rest"
  obtains k' where "readShorts A 4 answer h =
      Some (Inr (answer @ show_shorts [w1, w2, w3, w4]), h\<lparr>socket := k'\<rparr>)"
    and "avail k' = rest" and "closed k' = closed (socket h)"
  using readShorts_reads [of h "[w1, w2, w3, w4]" rest answer] assms by (auto simp: numeral_eq_Suc)

lemma ackFollow_reads:
  assumes "avail (socket h) = [a, b] @ user @ NUL # x # rest" and "NUL \<notin> set user"
  obtains k' where "ackFollow A m answer h =
      Some (Inr (answer @ cstr ([a, b] @ beyond2 m) @ '' '' @ user), h\<lparr>socket := k'\<rparr>)"
    and "avail k' = rest" and "closed k' = closed (socket h)"
proof -
  from assms(1) obtain k1 where 1: "getBytes A 2 h = Some (True, [a, b], h\<lparr>socket := k1\<rparr>)"
    "avail k1 = user @ NUL # x # rest" "closed k1 = closed (socket h)"
    by (auto elim: getBytes_2)
  from 1(2) assms(2) obtain k2 where 2: "getFrameAscii A NUL (ch1 m) [] (h\<lparr>socket := k1\<rparr>) =
      Some (True, user @ [NUL], h\<lparr>socket := k2\<rparr>)"
    "avail k2 = x # rest" "closed k2 = closed k1"
    using getFrameAscii_pre [of "h\<lparr>socket := k1\<rparr>" user NUL _ "ch1 m" "[]"] by auto
  from 2(2) obtain k3 where 3: "getBytes A 1 (h\<lparr>socket := k2\<rparr>) = Some (True, [x], h\<lparr>socket := k3\<rparr>)"
    "avail k3 = rest" "closed k3 = closed k2"
    using getBytes_1 [of "h\<lparr>socket := k2\<rparr>" x rest] by auto
  show thesis
    by (rule that [of k3]) (use 1 2 3 in \<open>simp_all add: ackFollow_def\<close>)
qed

lemma finish_reads:
  assumes "avail (socket h) = d # rest"
  obtains k' where "finish A p (Inr body, h) = Some (Inr (p @ body), h\<lparr>socket := k'\<rparr>)"
    and "avail k' = rest" and "closed k' = closed (socket h)"
proof -
  from assms obtain k' where "getBytes A 1 h = Some (True, [d], h\<lparr>socket := k'\<rparr>)"
    "avail k' = rest" "closed k' = closed (socket h)" by (auto elim: getBytes_1)
  with that show thesis by (simp add: finish_def)
qed

lemma decoder_notify:
  assumes "avail (socket h) = wire_reply (Notify pub user content) @ rest"
    and "NUL \<notin> set user" and "NUL \<notin> set content"
  shows "\<exists>k'. decoder A m h = Some (Inr (render m (Notify pub user content)), h\<lparr>socket := k'\<rparr>)
    \<and> avail k' = rest \<and> closed k' = closed (socket h)"
proof -
  from assms(1) obtain k1 where 1: "getBytes A 2 h = Some (True, ''09'', h\<lparr>socket := k1\<rparr>)"
    "avail k1 = (if pub then CHR ''1'' else CHR ''0'') # user @ NUL # content @ NUL # SEMI # rest"
    "closed k1 = closed (socket h)"
    by (auto elim: getBytes_2)
  obtain k2 where 2: "notificationDecoder A m (h\<lparr>socket := k1\<rparr>) =
      Some (Inr ((if pub then ''Public '' else ''PM '') @ user @ '' '' @ content), h\<lparr>socket := k2\<rparr>)"
    "avail k2 = SEMI # rest" "closed k2 = closed k1"
    using notificationDecoder_reads [of "h\<lparr>socket := k1\<rparr>" "if pub then CHR ''1'' else CHR ''0''" user content "SEMI # rest" m] 1(2) assms(2,3)
    by (auto split: if_splits)
  from finish_reads [of "h\<lparr>socket := k2\<rparr>" SEMI rest "''NOTIFICATION ''"] 2(2) obtain k3
    where 3: "finish A ''NOTIFICATION '' (Inr ((if pub then ''Public '' else ''PM '') @ user @ '' '' @ content),
        h\<lparr>socket := k2\<rparr>) = Some (Inr (''NOTIFICATION '' @ (if pub then ''Public '' else ''PM '') @ user @ '' '' @ content),
        h\<lparr>socket := k3\<rparr>)"
      "avail k3 = rest" "closed k3 = closed k2" by (auto simp del: append_Cons)
  show ?thesis
    by (rule exI [of _ k3]) (use 1 2 3 in \<open>simp add: decoder_def\<close>)
qed

lemma decoder_err:
  assumes "avail (socket h) = wire_reply (Err a b) @ rest"
  shows "\<exists>k'. decoder A m h = Some (Inr (render m (Err a b)), effect (Err a b) (h\<lparr>socket := k'\<rparr>))
    \<and> avail k' = rest \<and> closed k' = closed (socket h)"
proof -
  from assms(1) obtain k1 where 1: "getBytes A 2 h = Some (True, ''11'', h\<lparr>socket := k1\<rparr>)"
    "avail k1 = [a, b] @ SEMI # rest" "closed k1 = closed (socket h)"
    by (auto elim: getBytes_2)
  from 1(2) obtain k2 where 2: "getBytes A 2 (h\<lparr>socket := k1\<rparr>) = Some (True, [a, b], h\<lparr>socket := k2\<rparr>)"
    "avail k2 = SEMI # rest" "closed k2 = closed k1"
    using getBytes_2 [of "h\<lparr>socket := k1\<rparr>" a b "SEMI # rest"] by auto
  from 2(2) obtain k3 where 3: "finish A ''ERROR '' (Inr [a, b], effect (Err a b) (h\<lparr>socket := k2\<rparr>)) =
      Some (Inr (''ERROR '' @ [a, b]), effect (Err a b) (h\<lparr>socket := k3\<rparr>))"
    "avail k3 = rest" "closed k3 = closed k2"
    using finish_reads [of "effect (Err a b) (h\<lparr>socket := k2\<rparr>)" SEMI rest "''ERROR ''" "[a, b]"]
    by (auto simp: conn_simps)
  show ?thesis
    by (rule exI [of _ k3]) (use 1 2 3 in \<open>auto simp: decoder_def errorDecoder_def effect_def\<close>)
qed


text \<open>The acknowledgements share the outer frame: opcode \<open>10\<close>, a body, a delimiter.\<close>

lemma decoder_ack:
  assumes "avail (socket h) = ''10'' @ rest0"
    and body: "\<And>k1. avail k1 = rest0 \<Longrightarrow> closed k1 = closed (socket h) \<Longrightarrow>
      \<exists>k2. ackDecoder A m (h\<lparr>socket := k1\<rparr>) = Some (Inr ans, f (h\<lparr>socket := k2\<rparr>))
        \<and> avail k2 = d # rest \<and> closed k2 = closed (socket h)"
    and f: "\<And>k. socket (f (h\<lparr>socket := k\<rparr>)) = k"
      "\<And>k k'. (f (h\<lparr>socket := k\<rparr>))\<lparr>socket := k'\<rparr> = f (h\<lparr>socket := k'\<rparr>)"
  shows "\<exists>k'. decoder A m h = Some (Inr (''ACK '' @ ans), f (h\<lparr>socket := k'\<rparr>))
    \<and> avail k' = rest \<and> closed k' = closed (socket h)"
proof -
  from assms(1) obtain k1 where 1: "getBytes A 2 h = Some (True, ''10'', h\<lparr>socket := k1\<rparr>)"
    "avail k1 = rest0" "closed k1 = closed (socket h)"
    by (auto elim: getBytes_2)
  from body [OF 1(2,3)] obtain k2 where 2: "ackDecoder A m (h\<lparr>socket := k1\<rparr>) = Some (Inr ans, f (h\<lparr>socket := k2\<rparr>))"
    "avail k2 = d # rest" "closed k2 = closed (socket h)" by blast
  from 2(2) f(1) [of k2] obtain k3 where 3: "finish A ''ACK '' (Inr ans, f (h\<lparr>socket := k2\<rparr>)) =
      Some (Inr (''ACK '' @ ans), f (h\<lparr>socket := k3\<rparr>))"
    "avail k3 = rest" "closed k3 = closed k2"
    using finish_reads [of "f (h\<lparr>socket := k2\<rparr>)" d rest "''ACK ''" ans] f by auto
  show ?thesis
    by (rule exI [of _ k3]) (use 1 2 3 in \<open>simp add: decoder_def\<close>)
qed

lemma decoder_ack_op:
  assumes "avail (socket h) = wire_reply (AckOp a b) @ rest" and "reply_ok (AckOp a b)"
  shows "\<exists>k'. decoder A m h = Some (Inr (render m (AckOp a b)), effect (AckOp a b) (h\<lparr>socket := k'\<rparr>))
    \<and> avail k' = rest \<and> closed k' = closed (socket h)"
proof -
  have "\<exists>k2. ackDecoder A m (h\<lparr>socket := k1\<rparr>) =
      Some (Inr (cstr ([a, b] @ beyond1 m) @ '' ''), effect (AckOp a b) (h\<lparr>socket := k2\<rparr>))
      \<and> avail k2 = SEMI # rest \<and> closed k2 = closed (socket h)"
    if k1: "avail k1 = [a, b] @ SEMI # rest" "closed k1 = closed (socket h)" for k1
  proof -
    from k1 obtain k2 where "getBytes A 2 (h\<lparr>socket := k1\<rparr>) = Some (True, [a, b], h\<lparr>socket := k2\<rparr>)"
      "avail k2 = SEMI # rest" "closed k2 = closed k1"
      using getBytes_2 [of "h\<lparr>socket := k1\<rparr>" a b "SEMI # rest"] by auto
    with assms(2) k1(2) show ?thesis
      by (auto simp: ackDecoder_def effect_def intro!: exI [of _ k2])
  qed
  from decoder_ack [where f = "effect (AckOp a b)", OF _ this] assms(1) show ?thesis
    by (simp add: conn_simps)
qed

lemma decoder_ack_follow:
  assumes "avail (socket h) = wire_reply (AckFollow a b user x) @ rest" and "NUL \<notin> set user"
  shows "\<exists>k'. decoder A m h = Some (Inr (render m (AckFollow a b user x)), h\<lparr>socket := k'\<rparr>)
    \<and> avail k' = rest \<and> closed k' = closed (socket h)"
proof -
  let ?ans = "cstr (''04'' @ beyond1 m) @ '' '' @ cstr ([a, b] @ beyond2 m) @ '' '' @ user"
  have "\<exists>k2. ackDecoder A m (h\<lparr>socket := k1\<rparr>) = Some (Inr ?ans, h\<lparr>socket := k2\<rparr>)
      \<and> avail k2 = SEMI # rest \<and> closed k2 = closed (socket h)"
    if k1: "avail k1 = ''04'' @ [a, b] @ user @ NUL # x # SEMI # rest" "closed k1 = closed (socket h)" for k1
  proof -
    from k1 obtain k2 where 2: "getBytes A 2 (h\<lparr>socket := k1\<rparr>) = Some (True, ''04'', h\<lparr>socket := k2\<rparr>)"
      "avail k2 = [a, b] @ user @ NUL # x # SEMI # rest" "closed k2 = closed k1"
      using getBytes_2 [of "h\<lparr>socket := k1\<rparr>"] by auto
    from 2(2) assms(2) obtain k3 where "ackFollow A m (cstr (''04'' @ beyond1 m) @ '' '') (h\<lparr>socket := k2\<rparr>) =
        Some (Inr ?ans, h\<lparr>socket := k3\<rparr>)" "avail k3 = SEMI # rest" "closed k3 = closed k2"
      using ackFollow_reads [of "h\<lparr>socket := k2\<rparr>" a b user x "SEMI # rest" m "cstr (''04'' @ beyond1 m) @ '' ''"]
      by auto
    with 2 k1(2) show ?thesis by (auto simp: ackDecoder_def intro!: exI [of _ k3])
  qed
  from decoder_ack [where f = "\<lambda>h. h", OF _ this] assms(1) show ?thesis by simp
qed

lemma decoder_ack_stat:
  assumes "avail (socket h) = wire_reply (AckStat d w1 w2 w3 w4) @ rest" and "d = CHR ''7'' \<or> d = CHR ''8''"
  shows "\<exists>k'. decoder A m h = Some (Inr (render m (AckStat d w1 w2 w3 w4)), h\<lparr>socket := k'\<rparr>)
    \<and> avail k' = rest \<and> closed k' = closed (socket h)"
proof -
  let ?ans = "cstr ([CHR ''0'', d] @ beyond1 m) @ '' '' @ show_shorts [w1, w2, w3, w4]"
  have "\<exists>k2. ackDecoder A m (h\<lparr>socket := k1\<rparr>) = Some (Inr ?ans, h\<lparr>socket := k2\<rparr>)
      \<and> avail k2 = SEMI # rest \<and> closed k2 = closed (socket h)"
    if k1: "avail k1 = [CHR ''0'', d] @ be16 w1 @ be16 w2 @ be16 w3 @ be16 w4 @ SEMI # rest"
      "closed k1 = closed (socket h)" for k1
  proof -
    from k1 obtain k2 where 2: "getBytes A 2 (h\<lparr>socket := k1\<rparr>) = Some (True, [CHR ''0'', d], h\<lparr>socket := k2\<rparr>)"
      "avail k2 = be16 w1 @ be16 w2 @ be16 w3 @ be16 w4 @ SEMI # rest" "closed k2 = closed k1"
      using getBytes_2 [of "h\<lparr>socket := k1\<rparr>"] by auto
    from 2(2) obtain k3 where "readShorts A 4 (cstr ([CHR ''0'', d] @ beyond1 m) @ '' '') (h\<lparr>socket := k2\<rparr>) =
        Some (Inr ?ans, h\<lparr>socket := k3\<rparr>)" "avail k3 = SEMI # rest" "closed k3 = closed k2"
      using readShorts4_reads [of "h\<lparr>socket := k2\<rparr>" w1 w2 w3 w4 "SEMI # rest"
          "cstr ([CHR ''0'', d] @ beyond1 m) @ '' ''"] by auto
    with 2 k1(2) assms(2) show ?thesis by (auto simp: ackDecoder_def intro!: exI [of _ k3])
  qed
  from decoder_ack [where f = "\<lambda>h. h", OF _ this] assms(1) show ?thesis by simp
qed

lemma decoder_reads:
  assumes "avail (socket h) = wire_reply r @ rest" and "reply_ok r"
  shows "\<exists>k'. decoder A m h = Some (Inr (render m r), effect r (h\<lparr>socket := k'\<rparr>))
    \<and> avail k' = rest \<and> closed k' = closed (socket h)"
proof (cases r)
  case (Notify pub user content)
  with assms decoder_notify [of h pub user content rest m] show ?thesis by (simp add: effect_def)
next
  case (AckOp a b)
  with assms decoder_ack_op [of h a b rest m] show ?thesis by simp
next
  case (AckFollow a b user x)
  with assms decoder_ack_follow [of h a b user x rest m] show ?thesis by (simp add: effect_def)
next
  case (AckStat d w1 w2 w3 w4)
  with assms decoder_ack_stat [of h d w1 w2 w3 w4 rest m] show ?thesis by (simp add: effect_def)
next
  case (Err a b)
  with assms decoder_err [of h a b rest m] show ?thesis by simp
qed

end

section \<open>What the methods leave alone\<close>

text \<open>The three flags, which only the two opcodes of a logout reply change.\<close>

definition same_flags :: "'k handler \<Rightarrow> 'k handler \<Rightarrow> bool" where
  "same_flags h h' \<longleftrightarrow> terminate h' = terminate h \<and> logoutSent h' = logoutSent h
     \<and> logoutFailed h' = logoutFailed h"

lemma same_flags_simps [simp]:
  "same_flags h h" "same_flags h (h0\<lparr>socket := k\<rparr>) = same_flags h h0"
  "same_flags h (say s h0) = same_flags h h0" "same_flags h (complain s h0) = same_flags h h0"
  by (auto simp: same_flags_def say_def complain_def)

lemma getBytes_flags: "getBytes A n h = Some (ok, got, h') \<Longrightarrow> same_flags h h'"
  by (auto simp: getBytes_def bind_eq_Some_conv split: option.splits prod.splits)

lemma getFrameAscii_flags:
  assumes "getFrameAscii A d ch fr h = Some (ok, s, h')"
  shows "same_flags h h'"
proof -
  have "same_flags h (snd (snd (ok, s, h')))"
  proof (rule getFrameAscii.raw_induct [where P = "\<lambda>A d c f h r. same_flags h (snd (snd r))", OF _ assms])
    fix f and A :: "('a, 'b) asio" and d c fr and h :: "'a handler" and r
    assume ih: "\<And>A d c fr h r. f A d c fr h = Some r \<Longrightarrow> same_flags h (snd (snd r))"
      and eq: "Option.bind (getBytes A 1 h) (\<lambda>(_, got, h').
        let ch' = (case got of [] \<Rightarrow> c | x # _ \<Rightarrow> x); frame' = fr @ [ch']
        in if d \<noteq> ch' then f A d ch' frame' h' else Some (True, frame', h')) = Some r"
    from eq obtain ok got h1 where g: "getBytes A 1 h = Some (ok, got, h1)"
      by (auto simp: bind_eq_Some_conv)
    with eq ih have "same_flags h1 (snd (snd r))" by (auto simp: Let_def split: if_splits)
    with getBytes_flags [OF g] show "same_flags h (snd (snd r))" by (simp add: same_flags_def)
  qed
  then show ?thesis by simp
qed

lemma same_flags_trans: "same_flags h h1 \<Longrightarrow> same_flags h1 h2 \<Longrightarrow> same_flags h h2"
  by (simp add: same_flags_def)

lemmas bind_elims = bind_eq_Some_conv case_sum_eq_Some interrupted_def Let_def

lemma notificationDecoder_flags:
  "notificationDecoder A m h = Some (r, h') \<Longrightarrow> same_flags h h'"
  by (auto simp: notificationDecoder_def bind_elims split: if_splits
      dest!: getBytes_flags getFrameAscii_flags intro: same_flags_trans)

lemma readShort_flags: "readShort A h = Some (r, h') \<Longrightarrow> same_flags h h'"
  by (auto simp: readShort_def bind_elims split: if_splits dest!: getBytes_flags)

lemma readShorts_flags: "readShorts A n ans h = Some (r, h') \<Longrightarrow> same_flags h h'"
  by (induction n arbitrary: ans h)
     (auto simp: bind_elims dest!: readShort_flags intro: same_flags_trans)

lemma ackFollow_flags: "ackFollow A m ans h = Some (r, h') \<Longrightarrow> same_flags h h'"
  by (auto simp: ackFollow_def bind_elims split: if_splits
      dest!: getBytes_flags getFrameAscii_flags intro: same_flags_trans)

lemma finish_flags: "finish A p (r, h) = Some (r', h') \<Longrightarrow> same_flags h h'"
  by (auto simp: finish_def bind_elims split: if_splits dest!: getBytes_flags)

lemma readShorts_space: "SP \<in> set ans \<Longrightarrow> readShorts A n ans h = Some (Inr s, h') \<Longrightarrow> SP \<in> set s"
proof (induction n arbitrary: ans h)
  case 0
  then show ?case by simp
next
  case (Suc n)
  from Suc.prems(2) obtain v :: int16 and h1
    where "readShorts A n (ans @ show_int (sint v) @ (if n = 0 then [] else '' '')) h1 = Some (Inr s, h')"
    by (auto simp: bind_elims)
  from Suc.IH [OF _ this] Suc.prems(1) show ?case by simp
qed

lemma ackFollow_space: "SP \<in> set ans \<Longrightarrow> ackFollow A m ans h = Some (Inr s, h') \<Longrightarrow> SP \<in> set s"
  by (auto simp: ackFollow_def bind_elims split: if_splits)

lemma ackDecoder_space: "ackDecoder A m h = Some (Inr ans, h') \<Longrightarrow> SP \<in> set ans"
  by (auto simp: ackDecoder_def bind_elims split: if_splits
      elim!: readShorts_space [rotated] ackFollow_space [rotated])

text \<open>
  Whatever the server sends and whatever the memory holds, a line \<open>decoder\<close> returns is
  not empty and is not \<open>ACK 03\<close>: the socket thread's two comparisons of the line with
  \<open>""\<close> and with \<open>"ACK 03"\<close> always fail.
\<close>

lemma decoder_result:
  "decoder A m h = Some (Inr s, h') \<Longrightarrow> s \<noteq> [] \<and> s \<noteq> ''ACK 03''"
proof -
  assume r: "decoder A m h = Some (Inr s, h')"
  have "\<exists>body. s = ''NOTIFICATION '' @ body \<or> s = ''ERROR '' @ body \<or> s = ''ACK '' @ body \<and> SP \<in> set body"
    using r by (auto simp: decoder_def finish_def bind_elims
        split: if_splits dest: ackDecoder_space)
  then show ?thesis by auto
qed

context asio_in
begin

lemma getBytes_2_inv:
  assumes "getBytes A 2 h = Some (ok, got, h1)" and ok
  obtains a b k where "got = [a, b]" and "avail (socket h) = a # b # avail k" and "h1 = h\<lparr>socket := k\<rparr>"
proof (cases "2 \<le> length (avail (socket h))")
  case True
  then obtain a b rest where av: "avail (socket h) = a # b # rest" by (rule length_ge_2E)
  then obtain k where "getBytes A 2 h = Some (True, [a, b], h\<lparr>socket := k\<rparr>)" "avail k = rest"
    by (rule getBytes_2)
  with av assms that [of a b k] show thesis by simp
next
  case False
  then have short: "length (avail (socket h)) < 2" by simp
  show thesis
  proof (cases "closed (socket h)")
    case True
    with short assms show thesis by (auto elim: getBytes_short [OF short])
  next
    case False
    with short assms show thesis using getBytes_blocks [of h 2] by simp
  qed
qed

lemma decoder_bad_opcode:
  assumes "avail (socket h) = a # b # rest" and "[a, b] \<notin> {''09'', ''10'', ''11''}"
  shows "\<exists>k. decoder A m h = Some (Inl LogicError, h\<lparr>socket := k\<rparr>)
    \<and> avail k = rest \<and> closed k = closed (socket h)"
proof -
  from assms(1) obtain k where "getBytes A 2 h = Some (True, [a, b], h\<lparr>socket := k\<rparr>)"
    "avail k = rest" "closed k = closed (socket h)" by (rule getBytes_2)
  with assms(2) show ?thesis by (auto simp: decoder_def)
qed

lemma errorDecoder_flags:
  assumes "errorDecoder A h = Some (r, h')"
  shows "terminate h' = terminate h \<and> logoutSent h' = logoutSent h
    \<and> (logoutFailed h' = logoutFailed h \<or> logoutFailed h' \<and> (\<exists>rest. avail (socket h) = ''03'' @ rest))"
proof -
  from assms obtain ok got h1 where g: "getBytes A 2 h = Some (ok, got, h1)"
    by (auto simp: errorDecoder_def bind_eq_Some_conv)
  show ?thesis
  proof (cases ok)
    case False
    with assms g getBytes_flags [OF g] show ?thesis
      by (auto simp: errorDecoder_def bind_elims same_flags_def say_def)
  next
    case True
    with g obtain a b k where "got = [a, b]" "avail (socket h) = a # b # avail k" "h1 = h\<lparr>socket := k\<rparr>"
      by (rule getBytes_2_inv)
    with assms g True show ?thesis by (auto simp: errorDecoder_def bind_elims split: if_splits)
  qed
qed

lemma ackDecoder_flags:
  assumes "ackDecoder A m h = Some (r, h')"
  shows "logoutFailed h' = logoutFailed h \<and> logoutSent h' = logoutSent h
    \<and> (terminate h' = terminate h \<or> terminate h' \<and> (\<exists>rest. avail (socket h) = ''03'' @ rest))"
proof -
  from assms obtain ok got h1 where g: "getBytes A 2 h = Some (ok, got, h1)"
    by (auto simp: ackDecoder_def bind_eq_Some_conv)
  show ?thesis
  proof (cases ok)
    case False
    with assms g getBytes_flags [OF g] show ?thesis
      by (auto simp: ackDecoder_def bind_elims same_flags_def say_def)
  next
    case True
    with g obtain a b k where "got = [a, b]" "avail (socket h) = a # b # avail k" "h1 = h\<lparr>socket := k\<rparr>"
      by (rule getBytes_2_inv)
    with assms g True show ?thesis
      by (auto simp: ackDecoder_def bind_elims same_flags_def split: if_splits
          dest!: ackFollow_flags readShorts_flags)
  qed
qed

lemma decoder_flags:
  assumes "decoder A m h = Some (r, h')"
  shows "logoutSent h' = logoutSent h
    \<and> (terminate h' = terminate h \<or> terminate h' \<and> (\<exists>rest. avail (socket h) = ''1003'' @ rest))
    \<and> (logoutFailed h' = logoutFailed h \<or> logoutFailed h' \<and> (\<exists>rest. avail (socket h) = ''1103'' @ rest))"
proof -
  from assms obtain ok got h1 where g: "getBytes A 2 h = Some (ok, got, h1)"
    by (auto simp: decoder_def bind_eq_Some_conv)
  show ?thesis
  proof (cases ok)
    case False
    with assms g getBytes_flags [OF g] show ?thesis
      by (auto simp: decoder_def bind_elims same_flags_def say_def)
  next
    case True
    with g obtain a b k where "got = [a, b]" "avail (socket h) = a # b # avail k" "h1 = h\<lparr>socket := k\<rparr>"
      by (rule getBytes_2_inv)
    with assms g True show ?thesis
      by (auto simp: decoder_def bind_elims same_flags_def split: if_splits
          dest!: finish_flags notificationDecoder_flags ackDecoder_flags errorDecoder_flags)
  qed
qed

end

section \<open>Properties\<close>

text \<open>Memory in which the array happens to be followed by a NUL.\<close>

abbreviation clean_stack :: stack where
  "clean_stack \<equiv> \<lparr>ch1 = CHR ''x'', ch2 = CHR ''x'', beyond1 = [NUL], beyond2 = [NUL]\<rparr>"

text \<open>
  C4. \<open>decoder\<close> implements the protocol: for every well-formed reply, however the network
  splits it, the method returns the line that stands for it, has exactly the effect of the
  reply on the flags (\<open>ACK 03\<close> ends the client, \<open>ERROR 03\<close> refuses the logout) and consumes
  the reply and nothing after it.
\<close>

theorem decoder_implements_protocol:
  assumes "asio_in A avail closed" and "avail (socket h) = wire_reply r @ rest" and "reply_ok r"
  shows "\<exists>k'. decoder A m h = Some (Inr (render m r), effect r (h\<lparr>socket := k'\<rparr>))
    \<and> avail k' = rest \<and> closed k' = closed (socket h)"
  by (rule asio_in.decoder_reads [OF assms])

theorem decoder_implements_protocol_witness:
  "\<exists>k'. decoder tcp_asio clean_stack (demo ''1103;0'' False) = Some (Inr ''ERROR 03'', (demo ''1103;0'' False)\<lparr>socket := k', logoutFailed := True\<rparr>)
     \<and> rxq k' = ''0''"
  using decoder_implements_protocol [OF tcp.asio_in_axioms, of "demo ''1103;0'' False" "Err (CHR ''0'') (CHR ''3'')" "''0''" clean_stack]
  by (auto simp: effect_def)

text \<open>
  A message whose opcode is not one of the three the server uses takes two bytes from the
  stream and throws: the method constructs its result from a null pointer.
\<close>

lemma decoder_unknown_opcode:
  assumes "asio_in A avail closed" and "avail (socket h) = a # b # rest" and "[a, b] \<notin> {''09'', ''10'', ''11''}"
  shows "\<exists>k. decoder A m h = Some (Inl LogicError, h\<lparr>socket := k\<rparr>) \<and> avail k = rest"
  using asio_in.decoder_bad_opcode [OF assms, of m] by blast

lemma decoder_unknown_opcode_witness:
  "\<exists>k. decoder tcp_asio clean_stack (demo ''0503;'' False) = Some (Inl LogicError, (demo ''0503;'' False)\<lparr>socket := k\<rparr>) \<and> rxq k = ''03;''"
  using decoder_unknown_opcode [OF tcp.asio_in_axioms, of "demo ''0503;'' False" "CHR ''0''" "CHR ''5''" "''03;''" clean_stack]
  by simp

text \<open>
  Whatever the server sends and whatever the memory holds, a line \<open>decoder\<close> returns is not
  empty and is not \<open>ACK 03\<close>: the socket thread's comparisons of the line with the empty
  string and with \<open>ACK 03\<close> always fail.
\<close>

lemma decoder_line_shape:
  "decoder A m h = Some (Inr s, h') \<Longrightarrow> s \<noteq> [] \<and> s \<noteq> ''ACK 03''"
  by (rule decoder_result)

end
