(* ===== verification/Keyboard.thy ===== *)
theory Keyboard
  imports Encoder Decoder
begin

text \<open>
  The standard input of the client and the two thread bodies
  (\<open>readFromKeyboardThread.cpp\<close>, \<open>readFromSocketThread.cpp\<close>) as step functions. A step
  is one statement or one test of the body; \<^term>\<open>None\<close> is a step that does not return
  now (the peer is silent).
\<close>

section \<open>The input stream\<close>

text \<open>
  \<open>istream::getline (buf, n)\<close>: characters are taken until the end of the input, a newline
  (taken, not stored) or \<open>n - 1\<close> stored characters, tested in this order; the last case,
  and a call that takes no character, set \<open>failbit\<close>. On a stream that is not good the
  call stores the empty string and sets \<open>failbit\<close>.
\<close>

record istream =
  pending_input :: string
  eofbit :: bool
  failbit :: bool

datatype stop = Eof | Delim | Full

definition NL :: char where "NL = CHR 0x0A"

fun take_line :: "nat \<Rightarrow> string \<Rightarrow> string \<times> string \<times> stop" where
  "take_line room [] = ([], [], Eof)"
| "take_line room (c # cs) =
     (if c = NL then ([], cs, Delim)
      else if room = 0 then ([], c # cs, Full)
      else let (s, r, st) = take_line (room - 1) cs in (c # s, r, st))"

definition good :: "istream \<Rightarrow> bool" where
  "good i \<longleftrightarrow> \<not> eofbit i \<and> \<not> failbit i"

definition cin_getline :: "nat \<Rightarrow> istream \<Rightarrow> bytes \<times> istream" where
  "cin_getline n i =
     (if \<not> good i then ([NUL], i\<lparr>failbit := True\<rparr>)
      else let (s, r, st) = take_line (n - 1) (pending_input i)
           in (s @ [NUL],
               i\<lparr>pending_input := r, eofbit := (st = Eof),
                 failbit := (st = Full \<or> s = [] \<and> st \<noteq> Delim)\<rparr>))"

section \<open>The keyboard thread\<close>

datatype kpc =
    KTest            \<comment> \<open>the test of the outer loop\<close>
  | KGetline         \<comment> \<open>\<open>std::cin.getline(buf, bufsize)\<close>\<close>
  | KSend string     \<comment> \<open>\<open>con.sendLine(line)\<close>\<close>
  | KCheck string    \<comment> \<open>the comparison of the line with \<open>LOGOUT\<close>\<close>
  | KSpin            \<comment> \<open>the inner loop, which waits for the reply\<close>
  | KReset           \<comment> \<open>\<open>con.resetLogout()\<close>\<close>
  | KDone

definition bufsize :: nat where "bufsize = 1024"

fun kb_step ::
  "('k, 'a) asio \<Rightarrow> kpc \<Rightarrow> 'k handler \<Rightarrow> istream \<Rightarrow> (kpc \<times> 'k handler \<times> istream) option" where
  "kb_step A KTest h i = Some (if \<not> shouldTerminate h then KGetline else KDone, h, i)"
| "kb_step A KGetline h i =
     (let (buf, i') = cin_getline bufsize i in Some (KSend (cstr buf), h, i'))"
| "kb_step A (KSend line) h i =
     (case sendLine A line h of
        None \<Rightarrow> None
      | Some (True, h') \<Rightarrow> Some (KCheck line, h', i)
      | Some (False, h') \<Rightarrow> Some (KDone, say (''Disconnected. Exiting...'' @ [NL]) h', i))"
| "kb_step A (KCheck line) h i =
     Some (if take 7 line = ''LOGOUT'' then KSpin else KTest, h, i)"
| "kb_step A KSpin h i =
     Some (if \<not> shouldTerminate h \<and> \<not> isLogOutFailed h then KSpin else KReset, h, i)"
| "kb_step A KReset h i = Some (KTest, resetLogout h, i)"
| "kb_step A KDone h i = None"

section \<open>The socket thread\<close>

text \<open>
  \<open>SAbort\<close> is the thread after an exception that nobody catches; the program is then
  terminated by the runtime.
\<close>

datatype spc =
    STest            \<comment> \<open>the test of the outer loop\<close>
  | SDecode          \<comment> \<open>\<open>con.decoder()\<close>\<close>
  | SShow string     \<comment> \<open>the tests of the answer and its output\<close>
  | SSpin            \<comment> \<open>the inner loop\<close>
  | SCloseTest       \<comment> \<open>the test after it, with \<open>con.close()\<close>\<close>
  | SDone
  | SAbort

fun sk_step ::
  "('k, 'a) asio \<Rightarrow> stack \<Rightarrow> spc \<Rightarrow> 'k handler \<Rightarrow> (spc \<times> 'k handler) option" where
  "sk_step A m STest h = Some (if \<not> shouldTerminate h then SDecode else SDone, h)"
| "sk_step A m SDecode h =
     (case decoder A m h of
        None \<Rightarrow> None
      | Some (Inl e, h') \<Rightarrow> Some (SAbort, h')
      | Some (Inr ans, h') \<Rightarrow> Some (SShow ans, h'))"
| "sk_step A m (SShow ans) h =
     (if ans = [] then Some (SDone, say (''Disconnected. Exiting...'' @ [NL] @ '' '') h)
      else Some (if ans = ''ACK 03'' then SSpin else STest, say ans h))"
| "sk_step A m SSpin h =
     Some (if \<not> shouldTerminate h \<and> \<not> isLogOutSent h then SSpin else SCloseTest, h)"
| "sk_step A m SCloseTest h =
     Some (STest, if shouldTerminate h then snd (close A (say ''connection is closed'' h)) else h)"
| "sk_step A m SDone h = None"
| "sk_step A m SAbort h = None"

section \<open>Facts about the keyboard thread\<close>

lemma take_7_LOGOUT: "take 7 line = ''LOGOUT'' \<longleftrightarrow> line = ''LOGOUT''"
proof
  assume t: "take 7 line = ''LOGOUT''"
  then have "length (take 7 line) = 6" by simp
  then have "length line = 6" by (simp add: min_def split: if_splits)
  with t show "line = ''LOGOUT''" by simp
qed simp

lemma take_line_bound:
  "take_line n s = (t, r, st) \<Longrightarrow> length t \<le> n \<and> NL \<notin> set t"
  by (induction n s arbitrary: t r st rule: take_line.induct)
     (force split: if_splits prod.splits)+

lemma take_line_found:
  "NL \<notin> set t \<Longrightarrow> length t \<le> n \<Longrightarrow> take_line n (t @ NL # r) = (t, r, Delim)"
  by (induction t arbitrary: n) (auto split: prod.splits)

lemma take_line_full:
  "NL \<notin> set t \<Longrightarrow> length t = n \<Longrightarrow> c \<noteq> NL \<Longrightarrow> take_line n (t @ c # r) = (t, c # r, Full)"
  by (induction t arbitrary: n) (auto split: prod.splits)

lemma take_line_eof:
  "NL \<notin> set t \<Longrightarrow> length t \<le> n \<Longrightarrow> take_line n t = (t, [], Eof)"
  by (induction t arbitrary: n) (auto split: prod.splits)

lemma cstr_snoc: "NUL \<notin> set s \<Longrightarrow> cstr (s @ [NUL]) = s"
  by (simp add: cstr_def takeWhile_neq_prefix)

fun kb_run :: "('k, 'a) asio \<Rightarrow> nat \<Rightarrow> kpc \<Rightarrow> 'k handler \<Rightarrow> istream \<Rightarrow> (kpc \<times> 'k handler \<times> istream) option" where
  "kb_run A 0 p h i = Some (p, h, i)"
| "kb_run A (Suc n) p h i = Option.bind (kb_step A p h i) (\<lambda>(p', h', i'). kb_run A n p' h' i')"

lemma sendLine_empty: "sendLine A [] h = Some (True, h)"
  by (simp add: sendLine_def sendFrameAscii_def Encoder_eq wire_simps sendBytes_def sendBytes_loop.simps)

lemma kb_turn_dead:
  assumes "\<not> terminate h" and "\<not> good i"
  shows "kb_run A 4 KTest h i = Some (KTest, h, i\<lparr>failbit := True\<rparr>)"
  using assms by (simp add: numeral_eq_Suc conn_simps cin_getline_def cstr_def sendLine_empty)

lemma kb_run_add: "kb_run A (m + n) p h i =
    Option.bind (kb_run A m p h i) (\<lambda>(p', h', i'). kb_run A n p' h' i')"
  by (induction m arbitrary: p h i) (auto split: prod.splits option.splits simp: bind_eq_Some_conv Option.bind_assoc intro!: Option.bind_cong)

text \<open>One turn of the loop for a line that is not \<open>LOGOUT\<close>.\<close>

lemma kb_turn_line:
  assumes "\<not> terminate h" and "good i" and "pending_input i = line @ NL # r"
    and "length line \<le> 1023" and "NL \<notin> set line" and "NUL \<notin> set line" and "line \<noteq> ''LOGOUT''"
    and "sendLine A line h = Some (True, h')"
  shows "kb_run A 4 KTest h i = Some (KTest, h', i\<lparr>pending_input := r\<rparr>)"
proof -
  have get: "cin_getline bufsize i = (line @ [NUL], i\<lparr>pending_input := r\<rparr>)"
    using assms(2-5) by (simp add: cin_getline_def bufsize_def take_line_found good_def)
  have "cstr (line @ [NUL]) = line" by (rule cstr_snoc) (rule assms(6))
  moreover have "4 = Suc (Suc (Suc (Suc 0)))" by simp
  ultimately show ?thesis using get assms(1,7,8) by (simp only: kb_run.simps) (simp add: conn_simps take_7_LOGOUT)
qed

section \<open>Properties\<close>

text \<open>
  The keyboard thread waits for a reply exactly when the line is \<open>LOGOUT\<close>, although
  it compares seven characters of the line with a word of six.
\<close>

lemma waits_only_for_LOGOUT:
  "kb_step A (KCheck line) h i = Some (KSpin, h, i) \<longleftrightarrow> line = ''LOGOUT''"
  by (simp add: take_7_LOGOUT)

definition chars :: "string \<Rightarrow> istream" where
  "chars s = \<lparr>pending_input = s, eofbit = False, failbit = False\<rparr>"

text \<open>
  One call of \<open>getline\<close>: a line that fits is read without its newline and the stream
  stays good; a line of \<open>n\<close> characters or more is cut after \<open>n\<close> and the stream fails; at
  the end of the input the stream is not good any more.
\<close>

lemma getline_spec:
  assumes "good i" and "NL \<notin> set t"
  shows "(length t \<le> n \<and> pending_input i = t @ NL # r \<longrightarrow>
      cin_getline (n + 1) i = (t @ [NUL], i\<lparr>pending_input := r\<rparr>))
    \<and> (length t = n \<and> c \<noteq> NL \<and> pending_input i = t @ c # r \<longrightarrow>
      cin_getline (n + 1) i = (t @ [NUL], i\<lparr>pending_input := c # r, failbit := True\<rparr>))
    \<and> (length t \<le> n \<and> pending_input i = t \<longrightarrow>
      (\<exists>i'. cin_getline (n + 1) i = (t @ [NUL], i') \<and> \<not> good i'))"
  using assms
  by (auto simp: cin_getline_def good_def take_line_found take_line_full take_line_eof)

lemma getline_spec_witness:
  "cin_getline (1023 + 1) (chars (''LOGOUT'' @ NL # ''STAT'')) = (''LOGOUT'' @ [NUL], chars ''STAT'')"
  using getline_spec [of "chars (''LOGOUT'' @ NL # ''STAT'')" "''LOGOUT''" 1023 "''STAT''"]
  by (simp add: chars_def good_def NL_def)

lemma kb_dead:
  assumes "\<not> terminate h" and "\<not> good i"
  shows "kb_run A (4 * Suc n) KTest h i = Some (KTest, h, i\<lparr>failbit := True\<rparr>)"
proof (induction n)
  case 0
  from kb_turn_dead [OF assms] show ?case by simp
next
  case (Suc n)
  have "4 * Suc (Suc n) = 4 * Suc n + 4" by simp
  moreover have "\<not> good (i\<lparr>failbit := True\<rparr>)" by (simp add: good_def)
  ultimately show ?case
    using Suc kb_turn_dead [OF assms(1), of "i\<lparr>failbit := True\<rparr>" A] by (simp only: kb_run_add) simp
qed


text \<open>
  Once the input stream is not good (end of input, or a line that was too long), the
  keyboard thread turns for ever: every four steps it is back at the head of its loop
  with the connection untouched, and what the user types is not read.
\<close>

lemma keyboard_dead:
  assumes "\<not> terminate h" and "\<not> good i"
  shows "kb_run A (4 * Suc n) KTest h i = Some (KTest, h, i\<lparr>failbit := True\<rparr>)"
  using assms by (rule kb_dead)

end
