(* ===== verification/Threads.thy ===== *)
theory Threads
  imports Keyboard
begin

text \<open>
  \<open>client.cpp\<close>: the process as a state machine. The two threads share the connection
  handler, the scheduler chooses who moves, and the network may change the socket between
  any two steps (the relation \<open>net\<close>). The flags are read and written by single steps: the
  model is sequentially consistent, which the plain \<open>bool\<close> fields of the class do not
  promise.
\<close>

section \<open>The process\<close>

record 'k sys =
  kb :: kpc
  sk :: spc
  con :: "'k handler"
  cin :: istream
  exit_code :: "int option"

text \<open>
  An uncaught exception in the socket thread ends the process at once, without an exit
  code of \<open>main\<close>.
\<close>

definition running :: "'k sys \<Rightarrow> bool" where
  "running s \<longleftrightarrow> exit_code s = None \<and> sk s \<noteq> SAbort"

text \<open>
  \<open>main\<close>: the port goes through \<open>short\<close>; without a connection the program returns 1, and
  the destructor of the handler closes the socket. \<open>k\<close> is the socket before it is
  connected, \<open>inp\<close> the standard input.
\<close>

definition main_host :: string where "main_host = ''127.0.0.1''"
definition main_port :: int16 where "main_port = of_int 8888"

definition main_start :: "('k, 'a) asio \<Rightarrow> 'k \<Rightarrow> istream \<Rightarrow> 'k sys" where
  "main_start A k inp =
     (case connect A (connectionHandler main_host main_port k) of
        (True, h) \<Rightarrow> \<lparr>kb = KTest, sk = STest, con = h, cin = inp, exit_code = None\<rparr>
      | (False, h) \<Rightarrow>
          \<lparr>kb = KDone, sk = SDone,
           con = snd (close A (complain (''Cannot connect to '' @ main_host @ '':''
                    @ show_int (sint main_port)) h)),
           cin = inp, exit_code = Some 1\<rparr>)"

inductive sys_step :: "('k, 'a) asio \<Rightarrow> ('k \<Rightarrow> 'k \<Rightarrow> bool) \<Rightarrow> 'k sys \<Rightarrow> 'k sys \<Rightarrow> bool"
  for A net where
  keyboard: "running s \<Longrightarrow> kb_step A (kb s) (con s) (cin s) = Some (p, h, i) \<Longrightarrow>
     sys_step A net s (s\<lparr>kb := p, con := h, cin := i\<rparr>)"
| socket: "running s \<Longrightarrow> sk_step A m (sk s) (con s) = Some (p, h) \<Longrightarrow>
     sys_step A net s (s\<lparr>sk := p, con := h\<rparr>)"
| network: "running s \<Longrightarrow> net (socket (con s)) k \<Longrightarrow>
     sys_step A net s (s\<lparr>con := (con s)\<lparr>socket := k\<rparr>\<rparr>)"
| joined: "running s \<Longrightarrow> kb s = KDone \<Longrightarrow> sk s = SDone \<Longrightarrow>
     sys_step A net s (s\<lparr>con := snd (close A (con s)), exit_code := Some 0\<rparr>)"

inductive_cases sys_stepE: "sys_step A net s t"

inductive reachable :: "('k, 'a) asio \<Rightarrow> ('k \<Rightarrow> 'k \<Rightarrow> bool) \<Rightarrow> 'k \<Rightarrow> istream \<Rightarrow> 'k sys \<Rightarrow> bool"
  for A net k inp where
  start: "reachable A net k inp (main_start A k inp)"
| step: "reachable A net k inp s \<Longrightarrow> sys_step A net s t \<Longrightarrow> reachable A net k inp t"

abbreviation sys_steps :: "('k, 'a) asio \<Rightarrow> ('k \<Rightarrow> 'k \<Rightarrow> bool) \<Rightarrow> 'k sys \<Rightarrow> 'k sys \<Rightarrow> bool" where
  "sys_steps A net \<equiv> rtranclp (sys_step A net)"

section \<open>What the steps do to the flags\<close>

lemma Encoder_flags: "Encoder msg h = (bs, h') \<Longrightarrow>
    terminate h' = terminate h \<and> logoutFailed h' = logoutFailed h \<and> (logoutSent h \<longrightarrow> logoutSent h')"
  by (auto simp: Encoder_eq Let_def split: if_splits)

lemma sendBytes_flags: "sendBytes A bs h = Some (ok, h') \<Longrightarrow> same_flags h h'"
  by (auto simp: sendBytes_def bind_eq_Some_conv split: option.splits)

lemma sendLine_flags: "sendLine A line h = Some (ok, h') \<Longrightarrow>
    terminate h' = terminate h \<and> logoutFailed h' = logoutFailed h"
  by (auto simp: sendLine_def sendFrameAscii_def same_flags_def split: prod.splits
      dest!: Encoder_flags sendBytes_flags)

lemma say_flags [conn_simps]:
  "terminate (say s h) = terminate h" "logoutSent (say s h) = logoutSent h"
  "logoutFailed (say s h) = logoutFailed h" "socket (say s h) = socket h"
  "cout (say s h) = cout h @ [s]"
  by (simp_all add: say_def)

lemma close_flags [conn_simps]:
  "terminate (snd (close A h)) = terminate h" "logoutFailed (snd (close A h)) = logoutFailed h"
  "logoutSent (snd (close A h)) = logoutSent h"
  by (auto simp: close_def say_def split: prod.splits bool.splits)

lemma kb_step_terminate: "kb_step A p h i = Some (p', h', i') \<Longrightarrow> terminate h' = terminate h"
  by (cases p) (auto simp: conn_simps Let_def split: option.splits prod.splits bool.splits if_splits
      dest!: sendLine_flags)

lemma kb_step_logoutFailed:
  "kb_step A p h i = Some (p', h', i') \<Longrightarrow> logoutFailed h' = (logoutFailed h \<and> p \<noteq> KReset)"
  by (cases p) (auto simp: conn_simps Let_def split: option.splits prod.splits bool.splits if_splits
      dest!: sendLine_flags)

context asio_in
begin

lemma sk_step_flags:
  assumes "sk_step A m p h = Some (p', h')"
  shows "logoutSent h' = logoutSent h
    \<and> (terminate h' = terminate h \<or> terminate h' \<and> p = SDecode \<and> (\<exists>rest. avail (socket h) = ''1003'' @ rest))
    \<and> (logoutFailed h' = logoutFailed h \<or> logoutFailed h' \<and> p = SDecode \<and> (\<exists>rest. avail (socket h) = ''1103'' @ rest))"
proof (cases p)
  case SDecode
  with assms obtain r where "decoder A m h = Some (r, h')"
    by (auto split: option.splits prod.splits sum.splits)
  from decoder_flags [OF this] SDecode show ?thesis by simp
qed (use assms in \<open>auto simp: conn_simps split: if_splits\<close>)

end

lemma term_needs_ack:
  assumes "asio_in A avail closed" and "sys_step A net s t"
    and "\<not> terminate (con s)" and "terminate (con t)"
  shows "sk s = SDecode \<and> (\<exists>rest. avail (socket (con s)) = ''1003'' @ rest)"
  using assms(2)
proof (cases rule: sys_step.cases)
  case (keyboard p h i)
  with assms(3,4) show ?thesis by (auto dest: kb_step_terminate)
next
  case (socket m p h)
  with assms(3,4) asio_in.sk_step_flags [OF assms(1), of m "sk s" "con s" p h] show ?thesis by auto
qed (use assms(3,4) in \<open>simp_all add: conn_simps\<close>)

lemma step_terminate_stable:
  assumes "asio_in A avail closed" and "sys_step A net s t" and "terminate (con s)"
  shows "terminate (con t)"
  using assms(2)
proof (cases rule: sys_step.cases)
  case (keyboard p h i)
  with assms(3) show ?thesis by (auto dest: kb_step_terminate)
next
  case (socket m p h)
  with assms(3) asio_in.sk_step_flags [OF assms(1), of m "sk s" "con s" p h] show ?thesis by auto
qed (use assms(3) in \<open>simp_all add: conn_simps\<close>)

definition sk_inv :: "spc \<Rightarrow> bool" where
  "sk_inv p \<longleftrightarrow> p \<noteq> SSpin \<and> p \<noteq> SCloseTest \<and> p \<noteq> SShow [] \<and> p \<noteq> SShow ''ACK 03''"

lemma sk_step_inv:
  assumes "sk_inv p" and "sk_step A m p h = Some (p', h')"
  shows "sk_inv p'"
proof (cases p)
  case SDecode
  with assms(2) show ?thesis
    by (auto simp: sk_inv_def split: option.splits prod.splits sum.splits dest: decoder_result)
qed (use assms in \<open>auto simp: sk_inv_def split: if_splits\<close>)

lemma sys_step_sk_inv: "sys_step A net s t \<Longrightarrow> sk_inv (sk s) \<Longrightarrow> sk_inv (sk t)"
  by (induction rule: sys_step.induct) (auto dest: sk_step_inv)

lemma reachable_sk_inv: "reachable A net k inp s \<Longrightarrow> sk_inv (sk s)"
proof (induction rule: reachable.induct)
  case start
  show ?case by (auto simp: main_start_def sk_inv_def split: prod.splits bool.splits)
next
  case (step s t)
  then show ?case by (blast intro: sys_step_sk_inv)
qed

text \<open>Runs of one thread.\<close>

lemma socket_1:
  "running s \<Longrightarrow> sk_step A m (sk s) (con s) = Some (p, h) \<Longrightarrow> sys_steps A net s (s\<lparr>sk := p, con := h\<rparr>)"
  by (rule r_into_rtranclp) (rule sys_step.socket)

lemma keyboard_1:
  "running s \<Longrightarrow> kb_step A (kb s) (con s) (cin s) = Some (p, h, i) \<Longrightarrow>
   sys_steps A net s (s\<lparr>kb := p, con := h, cin := i\<rparr>)"
  by (rule r_into_rtranclp) (rule sys_step.keyboard)

text \<open>One turn of the socket thread that decodes and shows an answer.\<close>

lemma shown_answer:
  assumes "running s" and "sk s = STest" and "\<not> terminate (con s)"
    and d: "decoder A m (con s) = Some (Inr (render m r), effect r ((con s)\<lparr>socket := k'\<rparr>))"
  shows "sys_steps A net s (s\<lparr>con := say (render m r) (effect r ((con s)\<lparr>socket := k'\<rparr>))\<rparr>)"
proof -
  from decoder_result [OF d] have ne: "render m r \<noteq> []" "render m r \<noteq> ''ACK 03''" by auto
  let ?h = "effect r ((con s)\<lparr>socket := k'\<rparr>)"
  have "sys_steps A net s (s\<lparr>sk := SDecode\<rparr>)"
    using socket_1 [of s A m SDecode "con s"] assms(1-3) by (simp add: conn_simps)
  also have "sys_steps A net (s\<lparr>sk := SDecode\<rparr>) (s\<lparr>sk := SShow (render m r), con := ?h\<rparr>)"
    using socket_1 [of "s\<lparr>sk := SDecode\<rparr>" A m "SShow (render m r)" ?h net] assms(1) d
    by (simp add: running_def)
  also have "sys_steps A net (s\<lparr>sk := SShow (render m r), con := ?h\<rparr>)
      (s\<lparr>sk := STest, con := say (render m r) ?h\<rparr>)"
    using socket_1 [of "s\<lparr>sk := SShow (render m r), con := ?h\<rparr>" A m STest "say (render m r) ?h" net] assms(1) ne
    by (simp add: running_def)
  finally show ?thesis using assms(2) by (metis sys.surjective sys.update_convs(2))
qed

context asio_in
begin

text \<open>One valid reply is one turn of the socket thread's loop.\<close>

lemma socket_turn:
  assumes "running s" and "sk s = STest" and "\<not> terminate (con s)"
    and "avail (socket (con s)) = wire_reply r @ rest" and "reply_ok r"
  shows "\<exists>k'. sys_steps A net s (s\<lparr>con := say (render m r) (effect r ((con s)\<lparr>socket := k'\<rparr>))\<rparr>)
    \<and> avail k' = rest \<and> closed k' = closed (socket (con s))"
  using decoder_reads [OF assms(4,5), of m] shown_answer [OF assms(1-3)] by blast

lemma socket_turns:
  assumes "running s" and "sk s = STest" and "\<not> terminate (con s)"
    and "avail (socket (con s)) = concat (map wire_reply rs) @ rest"
    and "\<forall>r\<in>set rs. reply_ok r \<and> r \<noteq> AckOp (CHR ''0'') (CHR ''3'')"
  shows "\<exists>h. sys_steps A net s (s\<lparr>con := h\<rparr>) \<and> cout h = cout (con s) @ map (render m) rs
    \<and> avail (socket h) = rest \<and> \<not> terminate h
    \<and> logoutFailed h = (logoutFailed (con s) \<or> Err (CHR ''0'') (CHR ''3'') \<in> set rs)"
  using assms
proof (induction rs arbitrary: s)
  case Nil
  then show ?case by (auto intro!: exI [of _ "con s"])
next
  case (Cons r rs)
  from socket_turn [of s r "concat (map wire_reply rs) @ rest" net m] Cons.prems obtain k'
    where run: "sys_steps A net s (s\<lparr>con := say (render m r) (effect r ((con s)\<lparr>socket := k'\<rparr>))\<rparr>)"
      and k': "avail k' = concat (map wire_reply rs) @ rest" by auto
  let ?s = "s\<lparr>con := say (render m r) (effect r ((con s)\<lparr>socket := k'\<rparr>))\<rparr>"
  have e: "terminate (con ?s) = terminate (con s)" "cout (con ?s) = cout (con s) @ [render m r]"
    "logoutFailed (con ?s) = (logoutFailed (con s) \<or> r = Err (CHR ''0'') (CHR ''3''))"
    using Cons.prems(5) by (auto simp: effect_def conn_simps)
  from Cons.IH [of ?s] Cons.prems k' e obtain h
    where "sys_steps A net ?s (?s\<lparr>con := h\<rparr>)" "cout h = cout (con ?s) @ map (render m) rs"
      "avail (socket h) = rest" "\<not> terminate h"
      "logoutFailed h = (logoutFailed (con ?s) \<or> Err (CHR ''0'') (CHR ''3'') \<in> set rs)"
    by (auto simp: running_def conn_simps)
  with run e show ?case by (auto intro!: exI [of _ h] intro: rtranclp_trans)
qed

end

section \<open>The logout handshake\<close>

text \<open>
  With \<open>terminate\<close> set, the loops of both threads end and \<open>main\<close> returns 0, whatever the
  user has typed ahead.
\<close>

lemma exit_run:
  assumes "running s" and "sk s = STest" and "kb s = KSpin" and "terminate (con s)"
  shows "\<exists>t. sys_steps A net s t \<and> exit_code t = Some 0 \<and> cin t = cin s \<and> con t = snd (close A (resetLogout (con s)))"
proof -
  let ?h = "resetLogout (con s)"
  have "sys_steps A net s (s\<lparr>sk := SDone\<rparr>)"
    using socket_1 [of s A _ SDone "con s" net] assms by (simp add: conn_simps)
  also have "sys_steps A net (s\<lparr>sk := SDone\<rparr>) (s\<lparr>sk := SDone, kb := KReset\<rparr>)"
    using keyboard_1 [of "s\<lparr>sk := SDone\<rparr>" A KReset "con s" "cin s" net] assms
    by (simp add: running_def conn_simps)
  also have "sys_steps A net (s\<lparr>sk := SDone, kb := KReset\<rparr>) (s\<lparr>sk := SDone, kb := KTest, con := ?h\<rparr>)"
    using keyboard_1 [of "s\<lparr>sk := SDone, kb := KReset\<rparr>" A KTest ?h "cin s" net] assms
    by (simp add: running_def)
  also have "sys_steps A net (s\<lparr>sk := SDone, kb := KTest, con := ?h\<rparr>)
      (s\<lparr>sk := SDone, kb := KDone, con := ?h\<rparr>)"
    using keyboard_1 [of "s\<lparr>sk := SDone, kb := KTest, con := ?h\<rparr>" A KDone ?h "cin s" net] assms
    by (simp add: running_def conn_simps)
  also have "sys_steps A net (s\<lparr>sk := SDone, kb := KDone, con := ?h\<rparr>)
      (s\<lparr>sk := SDone, kb := KDone, con := snd (close A ?h), exit_code := Some 0\<rparr>)"
    using sys_step.joined [of "s\<lparr>sk := SDone, kb := KDone, con := ?h\<rparr>" A net] assms
    by (simp add: running_def)
  finally show ?thesis by - (rule exI, rule conjI, assumption, simp)
qed

context asio_in
begin

lemma logout_acknowledged:
  assumes "running s" and "sk s = STest" and "kb s = KSpin" and "\<not> terminate (con s)"
    and "avail (socket (con s)) = wire_reply (AckOp (CHR ''0'') (CHR ''3'')) @ rest"
  shows "\<exists>t. sys_steps A net s t \<and> exit_code t = Some 0 \<and> cin t = cin s"
proof -
  let ?r = "AckOp (CHR ''0'') (CHR ''3'')"
  from socket_turn [OF assms(1,2,4,5), of net m] obtain k'
    where run: "sys_steps A net s (s\<lparr>con := say (render m ?r) (effect ?r ((con s)\<lparr>socket := k'\<rparr>))\<rparr>)"
    by auto
  let ?s = "s\<lparr>con := say (render m ?r) (effect ?r ((con s)\<lparr>socket := k'\<rparr>))\<rparr>"
  have "running ?s" "sk ?s = STest" "kb ?s = KSpin" "terminate (con ?s)"
    using assms by (simp_all add: running_def effect_def conn_simps)
  from exit_run [OF this, of A net] obtain t
    where "sys_steps A net ?s t" "exit_code t = Some 0" "cin t = cin ?s" by blast
  with run show ?thesis by (auto intro: rtranclp_trans)
qed

lemma logout_refused:
  assumes "running s" and "sk s = STest" and "kb s = KSpin" and "\<not> terminate (con s)"
    and "avail (socket (con s)) = wire_reply (Err (CHR ''0'') (CHR ''3'')) @ rest"
  shows "\<exists>t. sys_steps A net s t \<and> kb t = KTest \<and> sk t = STest \<and> \<not> terminate (con t)
    \<and> \<not> logoutSent (con t) \<and> \<not> logoutFailed (con t) \<and> cout (con t) = cout (con s) @ [''ERROR 03'']
    \<and> exit_code t = None \<and> avail (socket (con t)) = rest"
proof -
  let ?r = "Err (CHR ''0'') (CHR ''3'')"
  from socket_turn [OF assms(1,2,4,5), of net m] obtain k'
    where run: "sys_steps A net s (s\<lparr>con := say (render m ?r) (effect ?r ((con s)\<lparr>socket := k'\<rparr>))\<rparr>)"
      and k': "avail k' = rest"
    by auto
  let ?h = "say (render m ?r) (effect ?r ((con s)\<lparr>socket := k'\<rparr>))"
  have reset: "sys_steps A net (s\<lparr>con := ?h\<rparr>) (s\<lparr>kb := KReset, con := ?h\<rparr>)"
    using keyboard_1 [of "s\<lparr>con := ?h\<rparr>" A KReset ?h "cin s" net] assms
    by (simp add: running_def effect_def conn_simps)
  have test: "sys_steps A net (s\<lparr>kb := KReset, con := ?h\<rparr>) (s\<lparr>kb := KTest, con := resetLogout ?h\<rparr>)"
    using keyboard_1 [of "s\<lparr>kb := KReset, con := ?h\<rparr>" A KTest "resetLogout ?h" "cin s" net] assms
    by (simp add: running_def)
  from rtranclp_trans [OF run rtranclp_trans [OF reset test]] show ?thesis
    by - (rule exI, rule conjI, assumption,
      use assms k' in \<open>simp add: running_def effect_def conn_simps\<close>)
qed

text \<open>A server that closes the connection: the next turn of the loop aborts the process.\<close>

lemma decoder_closed:
  assumes "length (avail (socket h)) < 2" and "closed (socket h)"
  shows "\<exists>h'. decoder A m h = Some (Inl LogicError, h')
    \<and> cout h' = cout h @ [''connection was interrupted''] \<and> same_flags h h'"
proof -
  from getBytes_short [OF assms] obtain e k' where "getBytes A 2 h =
      Some (False, avail (socket h), complain (recv_failed e) (h\<lparr>socket := k'\<rparr>))" by blast
  then show ?thesis by (simp add: decoder_def interrupted_def say_def complain_def same_flags_def)
qed

lemma server_gone:
  assumes "running s" and "sk s = STest" and "\<not> terminate (con s)"
    and "length (avail (socket (con s))) < 2" and "closed (socket (con s))"
  shows "\<exists>t. sys_steps A net s t \<and> \<not> running t \<and> exit_code t = None
    \<and> cout (con t) = cout (con s) @ [''connection was interrupted'']"
proof -
  from decoder_closed [OF assms(4,5), of m] obtain h'
    where d: "decoder A m (con s) = Some (Inl LogicError, h')"
      "cout h' = cout (con s) @ [''connection was interrupted'']" by blast
  have "sys_steps A net s (s\<lparr>sk := SDecode\<rparr>)"
    using socket_1 [of s A m SDecode "con s"] assms(1-3) by (simp add: conn_simps)
  also have "sys_steps A net (s\<lparr>sk := SDecode\<rparr>) (s\<lparr>sk := SAbort, con := h'\<rparr>)"
    using socket_1 [of "s\<lparr>sk := SDecode\<rparr>" A m SAbort h' net] assms(1) d by (simp add: running_def)
  finally show ?thesis
    by - (rule exI, rule conjI, assumption, use assms d in \<open>simp add: running_def\<close>)
qed

end

section \<open>Waiting for the reply\<close>

lemma sendLine_LOGOUT: "sendLine A ''LOGOUT'' h = sendBytes A ''03;'' (h\<lparr>logoutSent := True\<rparr>)"
  by (simp add: sendLine_def sendFrameAscii_def Encoder_eq Let_def wire_simps)

definition wait_inv :: "'k sys \<Rightarrow> bool" where
  "wait_inv s \<longleftrightarrow> (kb s \<in> {KSpin, KReset, KCheck ''LOGOUT''} \<longrightarrow> logoutSent (con s))"

lemma kb_step_wait:
  assumes "kb_step A p h i = Some (p', h', i')" and "p \<in> {KSpin, KReset, KCheck ''LOGOUT''} \<longrightarrow> logoutSent h"
    and "p' \<in> {KSpin, KReset, KCheck ''LOGOUT''}"
  shows "logoutSent h'"
proof (cases p)
  case (KSend line)
  with assms(1,3) have "line = ''LOGOUT''" and "sendLine A line h = Some (True, h')"
    by (auto split: option.splits prod.splits bool.splits)
  then show ?thesis by (auto simp: sendLine_LOGOUT same_flags_def dest: sendBytes_flags)
qed (use assms in \<open>auto simp: take_7_LOGOUT split: if_splits prod.splits\<close>)

lemma sys_step_wait:
  assumes "asio_in A avail closed" and "sys_step A net s t" and "wait_inv s"
  shows "wait_inv t"
  using assms(2)
proof (cases rule: sys_step.cases)
  case (keyboard p h i)
  with assms(3) kb_step_wait [of A "kb s" "con s" "cin s" p h i] show ?thesis by (auto simp: wait_inv_def)
next
  case (socket m p h)
  with assms(3) asio_in.sk_step_flags [OF assms(1), of m "sk s" "con s" p h] show ?thesis
    by (auto simp: wait_inv_def)
qed (use assms(3) in \<open>auto simp: wait_inv_def conn_simps\<close>)

lemma reachable_wait_inv:
  assumes "asio_in A avail closed"
  shows "reachable A net k inp s \<Longrightarrow> wait_inv s"
proof (induction rule: reachable.induct)
  case start
  show ?case by (auto simp: main_start_def wait_inv_def split: prod.splits bool.splits)
next
  case (step s t)
  then show ?case by (blast intro: sys_step_wait [OF assms])
qed

context asio_stream
begin

lemma logout_sent:
  assumes "running s" and "kb s = KSend ''LOGOUT''" and "up (socket (con s))"
  shows "\<exists>h. sys_steps A net s (s\<lparr>kb := KSpin, con := h\<rparr>) \<and> sent (socket h) = sent (socket (con s)) @ ''03;''
    \<and> avail (socket h) = avail (socket (con s)) \<and> closed (socket h) = closed (socket (con s))
    \<and> logoutSent h \<and> terminate h = terminate (con s) \<and> cout h = cout (con s)
    \<and> logoutFailed h = logoutFailed (con s)"
proof -
  let ?h0 = "(con s)\<lparr>logoutSent := True\<rparr>"
  have "up (socket ?h0)" using assms(3) by simp
  then obtain k' where b: "sendBytes A ''03;'' ?h0 = Some (True, ?h0\<lparr>socket := k'\<rparr>)"
    "sent k' = sent (socket (con s)) @ ''03;''" by (rule sendBytes_all) simp
  let ?h = "?h0\<lparr>socket := k'\<rparr>"
  have send: "sys_steps A net s (s\<lparr>kb := KCheck ''LOGOUT'', con := ?h\<rparr>)"
    using keyboard_1 [of s A "KCheck ''LOGOUT''" ?h "cin s" net] assms(1,2) b(1) by (simp add: sendLine_LOGOUT)
  have check: "sys_steps A net (s\<lparr>kb := KCheck ''LOGOUT'', con := ?h\<rparr>) (s\<lparr>kb := KSpin, con := ?h\<rparr>)"
    using keyboard_1 [of "s\<lparr>kb := KCheck ''LOGOUT'', con := ?h\<rparr>" A KSpin ?h "cin s" net] assms(1)
    by (simp add: running_def)
  from rtranclp_trans [OF send check] sendBytes_frame [OF b(1)] b(2) show ?thesis by auto
qed

end

context asio_in
begin

lemma bad_opcode_aborts:
  fixes m :: stack
  assumes "running s" and "sk s = STest" and "\<not> terminate (con s)"
    and "avail (socket (con s)) = a # b # rest" and "[a, b] \<notin> {''09'', ''10'', ''11''}"
  shows "\<exists>t. sys_steps A net s t \<and> \<not> running t \<and> exit_code t = None \<and> cout (con t) = cout (con s)"
proof -
  from decoder_bad_opcode [OF assms(4,5), of m] obtain k
    where d: "decoder A m (con s) = Some (Inl LogicError, (con s)\<lparr>socket := k\<rparr>)" by blast
  have "sys_steps A net s (s\<lparr>sk := SDecode\<rparr>)"
    using socket_1 [of s A m SDecode "con s"] assms(1-3) by (simp add: conn_simps)
  also have "sys_steps A net (s\<lparr>sk := SDecode\<rparr>) (s\<lparr>sk := SAbort, con := (con s)\<lparr>socket := k\<rparr>\<rparr>)"
    using socket_1 [of "s\<lparr>sk := SDecode\<rparr>" A m SAbort "(con s)\<lparr>socket := k\<rparr>" net] assms(1) d
    by (simp add: running_def)
  finally show ?thesis
    by - (rule exI, rule conjI, assumption, use assms in \<open>simp add: running_def\<close>)
qed

end

lemma reach_steps:
  "reachable A net k inp s \<Longrightarrow> sys_steps A net s t \<Longrightarrow> reachable A net k inp t"
  by (rotate_tac, induction rule: rtranclp_induct) (auto intro: reachable.step)

lemma sys_step_running: "sys_step A net s t \<Longrightarrow> running s"
  by (erule sys_stepE) simp_all

section \<open>Properties\<close>

text \<open>A program on a queue socket, at which the properties are evaluated.\<close>

definition demo_sys :: "kpc \<Rightarrow> bytes \<Rightarrow> bool \<Rightarrow> tcp_sock sys" where
  "demo_sys p bs cl =
     \<lparr>kb = p, sk = STest, con = demo bs cl, cin = chars ''FOLLOW 0 bob'', exit_code = None\<rparr>"

lemma demo_sys_simps [simp]:
  "kb (demo_sys p bs cl) = p" "sk (demo_sys p bs cl) = STest" "con (demo_sys p bs cl) = demo bs cl"
  "cin (demo_sys p bs cl) = chars ''FOLLOW 0 bob''" "exit_code (demo_sys p bs cl) = None"
  "running (demo_sys p bs cl)"
  by (simp_all add: demo_sys_def running_def)

abbreviation quiet :: "'k \<Rightarrow> 'k \<Rightarrow> bool" where "quiet \<equiv> \<lambda>_ _. False"

definition run_start :: "tcp_sock sys" where
  "run_start = main_start tcp_asio (sock_with [] False) (chars (''LOGOUT'' @ [NL]))"

lemma run_start_eq: "\<exists>h. run_start = \<lparr>kb = KTest, sk = STest, con = h, cin = chars (''LOGOUT'' @ [NL]), exit_code = None\<rparr>
   \<and> \<not> terminate h \<and> socket h = sock_with [] False"
  by (simp add: run_start_def main_start_def connect_def tcp_asio_def main_host_def say_def
      connectionHandler_def sock_with_def Let_def)

text \<open>
  In every reachable state of the program, whatever the two threads, the user and the
  server do, the socket thread is not in its inner waiting loop, not at the test that
  closes the connection and not at its disconnect branch: this code is never reached.
\<close>

lemma socket_thread_inv:
  "reachable A net k inp s \<Longrightarrow> sk s \<notin> {SSpin, SCloseTest, SShow []}"
  by (drule reachable_sk_inv) (auto simp: sk_inv_def)

text \<open>
  The flag that ends both threads is never lowered, and a step raises it only when the
  socket thread decodes an acknowledgement of a logout, the bytes \<open>1003\<close>.
\<close>

lemma terminate_only_on_ack:
  assumes "asio_in A avail closed" and "sys_step A net s t"
  shows "if terminate (con s) then terminate (con t)
    else \<not> terminate (con t) \<or> sk s = SDecode \<and> (\<exists>rest. avail (socket (con s)) = ''1003'' @ rest)"
  using term_needs_ack [OF assms] step_terminate_stable [OF assms] by auto

text \<open>
  In every reachable state in which the keyboard thread waits for the reply to a logout,
  the request has been passed to \<open>Encoder\<close> and not been reset: the flag is up.
\<close>

lemma waiting_means_sent:
  assumes "asio_in A avail closed" and "reachable A net k inp s" and "kb s \<in> {KSpin, KReset}"
  shows "logoutSent (con s)"
  using reachable_wait_inv [OF assms(1,2)] assms(3) by (auto simp: wait_inv_def)

text \<open>
  A logout that the server acknowledges: the client puts \<open>03;\<close> on the wire, waits, and
  when the acknowledgement arrives both threads can end, \<open>main\<close> returns 0 and what the user
  has typed ahead stays unread.
\<close>

lemma logout_handshake:
  assumes "asio_stream A avail closed sent up"
    and "running s" and "kb s = KSend ''LOGOUT''" and "sk s = STest"
    and "\<not> terminate (con s)" and "up (socket (con s))"
    and "avail (socket (con s)) = ''1003;'' @ rest"
  shows "\<exists>t u. sys_steps A net s t \<and> sent (socket (con t)) = sent (socket (con s)) @ ''03;'' \<and> kb t = KSpin
    \<and> sys_steps A net t u \<and> exit_code u = Some 0 \<and> cin u = cin s"
proof -
  from asio_stream.logout_sent [OF assms(1-3,6), of net] obtain h where
    t: "sys_steps A net s (s\<lparr>kb := KSpin, con := h\<rparr>)" "sent (socket h) = sent (socket (con s)) @ ''03;''"
      "avail (socket h) = avail (socket (con s))" "\<not> terminate h" using assms(5) by auto
  have "asio_in A avail closed" using assms(1) by (simp add: asio_stream_def)
  from asio_in.logout_acknowledged [OF this, of "s\<lparr>kb := KSpin, con := h\<rparr>" rest net] t assms
  obtain u where "sys_steps A net (s\<lparr>kb := KSpin, con := h\<rparr>) u" "exit_code u = Some 0" "cin u = cin s"
    by (auto simp: running_def)
  with t show ?thesis
    by - (rule exI [of _ "s\<lparr>kb := KSpin, con := h\<rparr>"], rule exI [of _ u], simp)
qed

text \<open>
  A logout that the server refuses: the line \<open>ERROR 03\<close> is shown, both flags are lowered
  and the keyboard thread is back at the head of its loop, able to send the next command.
\<close>

lemma logout_retry:
  assumes "asio_in A avail closed"
    and "running s" and "sk s = STest" and "kb s = KSpin" and "\<not> terminate (con s)"
    and "avail (socket (con s)) = ''1103;'' @ rest"
  shows "\<exists>t. sys_steps A net s t \<and> kb t = KTest \<and> sk t = STest \<and> \<not> terminate (con t)
    \<and> \<not> logoutSent (con t) \<and> \<not> logoutFailed (con t) \<and> cout (con t) = cout (con s) @ [''ERROR 03'']
    \<and> exit_code t = None \<and> avail (socket (con t)) = rest"
  using asio_in.logout_refused [OF assms(1-5), of rest net] assms(6) by simp

text \<open>
  C37. When the server closes the connection between two replies, the client prints that the
  connection was interrupted and is then ended by an exception nobody catches: it neither
  reports the disconnect nor returns from \<open>main\<close>.
\<close>

theorem server_closes:
  assumes "asio_in A avail closed"
    and "running s" and "sk s = STest" and "\<not> terminate (con s)"
    and "length (avail (socket (con s))) < 2" and "closed (socket (con s))"
  shows "\<exists>t. sys_steps A net s t \<and> \<not> running t \<and> exit_code t = None
    \<and> cout (con t) = cout (con s) @ [''connection was interrupted'']"
  by (rule asio_in.server_gone [OF assms])

theorem server_closes_witness:
  "\<exists>t. sys_steps tcp_asio quiet (demo_sys KGetline [] True) t \<and> \<not> running t \<and> exit_code t = None
    \<and> cout (con t) = [''connection was interrupted'']"
  using server_closes [OF tcp.asio_in_axioms, of "demo_sys KGetline [] True" quiet] by simp

text \<open>
  Any sequence of well-formed replies, other than the acknowledgement of a logout, is shown
  completely and in the order in which it was sent, one line each, and the socket thread
  is back at the head of its loop with the stream behind the last of them.
\<close>

lemma replies_shown_in_order:
  assumes "asio_in A avail closed"
    and "running s" and "sk s = STest" and "\<not> terminate (con s)"
    and "avail (socket (con s)) = concat (map wire_reply rs) @ rest"
    and "\<forall>r\<in>set rs. reply_ok r \<and> r \<noteq> AckOp (CHR ''0'') (CHR ''3'')"
  shows "\<exists>t. sys_steps A net s t \<and> sk t = STest \<and> cout (con t) = cout (con s) @ map (render m) rs
    \<and> avail (socket (con t)) = rest \<and> \<not> terminate (con t)"
proof -
  from asio_in.socket_turns [OF assms, of net m] obtain h where
    "sys_steps A net s (s\<lparr>con := h\<rparr>)" "cout h = cout (con s) @ map (render m) rs"
    "avail (socket h) = rest" "\<not> terminate h" by blast
  with assms(3) show ?thesis by - (rule exI, rule conjI, assumption, simp)
qed

lemma replies_shown_in_order_witness:
  "\<exists>t. sys_steps tcp_asio quiet
      (demo_sys KGetline (concat (map wire_reply [AckOp (CHR ''0'') (CHR ''2''), Notify True ''rick'' ''hi all''])) False) t
    \<and> cout (con t) = [''ACK 02 '', ''NOTIFICATION Public rick hi all'']"
  using replies_shown_in_order [OF tcp.asio_in_axioms,
      of "demo_sys KGetline (concat (map wire_reply [AckOp (CHR ''0'') (CHR ''2''), Notify True ''rick'' ''hi all''])) False"
        "[AckOp (CHR ''0'') (CHR ''2''), Notify True ''rick'' ''hi all'']" "[]" quiet clean_stack]
  by (force simp: cstr_def)

text \<open>
  Without a server the program ends with exit code 1 before it starts a thread: the state
  after the failed \<open>connect\<close> is the only reachable one and no input is read.
\<close>

lemma no_connection:
  assumes "\<not> fst (connect A (connectionHandler main_host main_port k))" and "reachable A net k inp s"
  shows "s = main_start A k inp \<and> exit_code s = Some 1 \<and> cin s = inp"
proof -
  have e: "exit_code (main_start A k inp) = Some 1 \<and> cin (main_start A k inp) = inp"
    using assms(1) by (auto simp: main_start_def split: prod.splits bool.splits)
  from assms(2) show ?thesis
  proof (induction rule: reachable.induct)
    case start
    from e show ?case by simp
  next
    case (step s t)
    then show ?case by (auto dest: sys_step_running simp: running_def)
  qed
qed

lemma no_connection_witness:
  "exit_code (main_start tcp_asio (sock_with [] True) (chars ''LOGOUT'')) = Some 1"
  by (rule no_connection [OF _ reachable.start, THEN conjunct2, THEN conjunct1])
     (simp add: connect_def tcp_asio_def main_host_def say_def connectionHandler_def sock_with_def Let_def)

end
