(* ===== verification/ServerCodec.thy ===== *)
theory ServerCodec
  imports Prelude
begin

text \<open>
  The server's side of the byte stream:
  \<open>MessageEncoderDecoderImpl\<close> and \<open>LineMessageEncoderDecoder\<close>, the two text codecs behind
  the interface \<open>MessageEncoderDecoder\<close>, and the loop of the connection handlers that
  feeds a codec. A Java string is modelled by the bytes of its UTF-8 encoding, which is
  the string itself for ASCII text; on it \<open>new String(\<dots>, UTF_8)\<close> and
  \<open>getBytes(UTF_8)\<close> are the identity.
\<close>

section \<open>The growing byte buffer\<close>

text \<open>
  Both codecs keep an array and a fill count. The array starts with 1024 zero bytes and is
  doubled with \<open>Arrays.copyOf\<close> when it is full.
\<close>

record codec =
  buf :: bytes
  len :: nat

definition new_codec :: codec where
  "new_codec = \<lparr>buf = replicate 1024 NUL, len = 0\<rparr>"

definition copyOf :: "bytes \<Rightarrow> nat \<Rightarrow> bytes" where
  "copyOf a n = take n a @ replicate (n - length a) NUL"

definition pushByte :: "char \<Rightarrow> codec \<Rightarrow> codec" where
  "pushByte nextByte s =
     (let a = (if length (buf s) \<le> len s then copyOf (buf s) (len s * 2) else buf s)
      in s\<lparr>buf := a[len s := nextByte], len := len s + 1\<rparr>)"

definition popString :: "codec \<Rightarrow> string \<times> codec" where
  "popString s = (take (len s) (buf s), s\<lparr>len := 0\<rparr>)"

definition decodeNextByte :: "char \<Rightarrow> codec \<Rightarrow> string option \<times> codec" where
  "decodeNextByte nextByte s =
     (if nextByte = SEMI then (let (r, s') = popString s in (Some r, s'))
      else (None, pushByte nextByte s))"

definition line_decodeNextByte :: "char \<Rightarrow> codec \<Rightarrow> string option \<times> codec" where
  "line_decodeNextByte nextByte s =
     (if nextByte = CHR 0x0A then (let (r, s') = popString s in (Some r, s'))
      else (None, pushByte nextByte s))"

definition line_encode :: "string \<Rightarrow> bytes" where
  "line_encode message = message @ [CHR 0x0A]"

section \<open>Feeding a codec\<close>

text \<open>
  The loop over the buffer in \<open>NonBlockingConnectionHandler.continueRead\<close>: every byte goes
  through the codec, and each completed message is handed on, in order. The loop of
  \<open>ConnectionHandlerImpl.run\<close> does the same for the bytes it reads from the socket, until the
  protocol terminates.
\<close>

fun feed :: "(char \<Rightarrow> 's \<Rightarrow> 'm option \<times> 's) \<Rightarrow> bytes \<Rightarrow> 's \<Rightarrow> 'm list \<times> 's" where
  "feed dec [] s = ([], s)"
| "feed dec (b # bs) s =
     (let (r, s1) = dec b s; (ms, s2) = feed dec bs s1
      in (case r of None \<Rightarrow> ms | Some m \<Rightarrow> m # ms, s2))"

lemma feed_append:
  "feed dec (xs @ ys) s =
     (let (ms, s1) = feed dec xs s; (ns, s2) = feed dec ys s1 in (ms @ ns, s2))"
  by (induction xs arbitrary: s) (auto simp: Let_def split: prod.splits option.splits)

text \<open>
  The contract of a delimited codec. \<open>partial\<close> is the unfinished message; a byte other than
  the delimiter is appended to it, and the delimiter delivers it and starts afresh.
\<close>

locale delimited_codec =
  fixes dec :: "char \<Rightarrow> 's \<Rightarrow> bytes option \<times> 's"
    and delim :: char
    and partial :: "'s \<Rightarrow> bytes"
    and inv :: "'s \<Rightarrow> bool"
  assumes dec_delim: "inv s \<Longrightarrow> \<exists>s'. dec delim s = (Some (partial s), s') \<and> inv s' \<and> partial s' = []"
    and dec_other: "inv s \<Longrightarrow> b \<noteq> delim \<Longrightarrow>
      \<exists>s'. dec b s = (None, s') \<and> inv s' \<and> partial s' = partial s @ [b]"
begin

lemma feed_body:
  "inv s \<Longrightarrow> delim \<notin> set bs \<Longrightarrow>
   \<exists>s'. feed dec bs s = ([], s') \<and> inv s' \<and> partial s' = partial s @ bs"
proof (induction bs arbitrary: s)
  case Nil
  then show ?case by simp
next
  case (Cons b bs)
  then obtain s1 where "dec b s = (None, s1)" "inv s1" "partial s1 = partial s @ [b]"
    using dec_other by (metis list.set_intros(1))
  with Cons.IH [of s1] Cons.prems show ?case by auto
qed

lemma feed_message:
  assumes "inv s" and "delim \<notin> set bs"
  shows "\<exists>s'. feed dec (bs @ [delim]) s = ([partial s @ bs], s') \<and> inv s' \<and> partial s' = []"
proof -
  from feed_body [OF assms] obtain s1
    where s1: "feed dec bs s = ([], s1)" "inv s1" "partial s1 = partial s @ bs" by blast
  with dec_delim [of s1] show ?thesis by (auto simp: feed_append)
qed

lemma feed_messages:
  assumes "inv s" and "partial s = []" and "\<forall>m\<in>set ms. delim \<notin> set m"
  shows "\<exists>s'. feed dec (concat (map (\<lambda>m. m @ [delim]) ms)) s = (ms, s') \<and> inv s' \<and> partial s' = []"
  using assms
proof (induction ms arbitrary: s)
  case Nil
  then show ?case by simp
next
  case (Cons m ms)
  then obtain s1 where "feed dec (m @ [delim]) s = ([m], s1)" "inv s1" "partial s1 = []"
    using feed_message [of s m] by auto
  moreover from Cons.IH [of s1] calculation Cons.prems
  obtain s2 where "feed dec (concat (map (\<lambda>m. m @ [delim]) ms)) s1 = (ms, s2)" "inv s2" "partial s2 = []"
    by auto
  ultimately show ?case
    using feed_append [of dec "m @ [delim]" "concat (map (\<lambda>m. m @ [delim]) ms)" s] by simp
qed

text \<open>Any byte stream is cut exactly at its delimiters.\<close>

lemma feed_count:
  "inv s \<Longrightarrow> feed dec bs s = (ms, s') \<Longrightarrow> length ms = count_list bs delim \<and> inv s'"
proof (induction bs arbitrary: s ms)
  case Nil
  then show ?case by simp
next
  case (Cons b bs)
  then show ?case
  proof (cases "b = delim")
    case True
    with dec_delim [OF Cons.prems(1)] Cons show ?thesis by (fastforce split: prod.splits)
  next
    case False
    with dec_other [OF Cons.prems(1) False] Cons show ?thesis by (fastforce split: prod.splits)
  qed
qed

text \<open>Nothing is lost or invented: the messages and the unfinished rest are the stream.\<close>

lemma feed_lossless:
  "inv s \<Longrightarrow> delim \<notin> set (partial s) \<Longrightarrow> feed dec bs s = (ms, s') \<Longrightarrow>
   partial s @ bs = concat (map (\<lambda>m. m @ [delim]) ms) @ partial s'
     \<and> (\<forall>m\<in>set ms. delim \<notin> set m) \<and> delim \<notin> set (partial s') \<and> inv s'"
proof (induction bs arbitrary: s ms)
  case Nil
  then show ?case by simp
next
  case (Cons b bs)
  show ?case
  proof (cases "b = delim")
    case True
    with dec_delim [OF Cons.prems(1)] obtain s1
      where s1: "dec b s = (Some (partial s), s1)" "inv s1" "partial s1 = []" by auto
    with Cons.prems(3) obtain ms' where ms: "ms = partial s # ms'" "feed dec bs s1 = (ms', s')"
      by (auto split: prod.splits)
    with Cons.IH [OF s1(2) _ ms(2)] s1(3) Cons.prems(2) True show ?thesis by simp
  next
    case False
    with dec_other [OF Cons.prems(1) False] obtain s1
      where s1: "dec b s = (None, s1)" "inv s1" "partial s1 = partial s @ [b]" by auto
    with Cons.prems(3) have "feed dec bs s1 = (ms, s')" by (auto split: prod.splits)
    with Cons.IH [OF s1(2) _ this] s1(3) Cons.prems(2) False show ?thesis by simp
  qed
qed

end

text \<open>
  The array codecs meet it: the unfinished message is the filled part of the array. The
  invariant says that the count is within the array and that the array is not empty, which
  doubling needs.
\<close>

definition codec_inv :: "codec \<Rightarrow> bool" where
  "codec_inv s \<longleftrightarrow> len s \<le> length (buf s) \<and> 0 < length (buf s)"

definition unfinished :: "codec \<Rightarrow> bytes" where
  "unfinished s = take (len s) (buf s)"

lemma codec_inv_new [simp]: "codec_inv new_codec" "unfinished new_codec = []"
  by (simp_all add: codec_inv_def new_codec_def unfinished_def)

lemma pushByte_props:
  assumes "codec_inv s"
  shows "codec_inv (pushByte b s)" and "unfinished (pushByte b s) = unfinished s @ [b]"
  using assms
  by (auto simp: codec_inv_def unfinished_def pushByte_def copyOf_def Let_def take_Suc_conv_app_nth
      take_update_cancel not_le Suc_le_eq)

lemma popString_props:
  "popString s = (unfinished s, s\<lparr>len := 0\<rparr>)" "codec_inv s \<Longrightarrow> codec_inv (s\<lparr>len := 0\<rparr>)"
  "unfinished (s\<lparr>len := 0\<rparr>) = []"
  by (simp_all add: popString_def unfinished_def codec_inv_def)

interpretation semi: delimited_codec decodeNextByte SEMI unfinished codec_inv
  by unfold_locales (auto simp: decodeNextByte_def popString_props pushByte_props)

interpretation newline: delimited_codec line_decodeNextByte "CHR 0x0A" unfinished codec_inv
  by unfold_locales (auto simp: line_decodeNextByte_def popString_props pushByte_props)

section \<open>Encoding\<close>

text \<open>
  \<open>encode\<close> appends the delimiter to a text message. A statistics message (\<open>1007\<close>,
  \<open>1008\<close>) is text with decimal numbers, one line per user; it is rewritten to binary in an
  array of \<open>2\<^sup>1\<^sup>6\<close> bytes, all of which are returned. The exceptions of the Java library are
  values.
\<close>

datatype jexn = StringIndexOutOfBounds | ArrayIndexOutOfBounds | NumberFormat | ClassCast

text \<open>
  \<open>String.split\<close> on a single character: trailing empty pieces are dropped, and a string
  without the separator is one piece.
\<close>

fun pieces :: "char \<Rightarrow> string \<Rightarrow> string list" where
  "pieces c [] = [[]]"
| "pieces c (x # xs) =
     (if x = c then [] # pieces c xs
      else case pieces c xs of [] \<Rightarrow> [[x]] | w # ws \<Rightarrow> (x # w) # ws)"

definition java_split :: "char \<Rightarrow> string \<Rightarrow> string list" where
  "java_split c s =
     (if c \<notin> set s then [s] else rev (dropWhile (\<lambda>w. w = []) (rev (pieces c s))))"

definition parseInt :: "string \<Rightarrow> int option" where
  "parseInt s =
     (case s of
        [] \<Rightarrow> None
      | c # cs \<Rightarrow>
          (if c = CHR ''-'' \<or> c = CHR ''+''
           then (if cs = [] then None
                 else map_option (\<lambda>n. if c = CHR ''-'' then - int n else int n) (read_digits 0 cs))
           else map_option int (read_digits 0 s)))"

definition parseShort :: "string \<Rightarrow> jexn + int16" where
  "parseShort s =
     (case parseInt s of
        None \<Rightarrow> Inl NumberFormat
      | Some i \<Rightarrow> if - 32768 \<le> i \<and> i \<le> 32767 then Inr (word_of_int i) else Inl NumberFormat)"

definition shortToBytes :: "int16 \<Rightarrow> bytes" where
  "shortToBytes num =
     [byte_char (ucast (signed_drop_bit 8 (scast num :: int32) AND 0xFF)),
      byte_char (ucast ((scast num :: int32) AND 0xFF))]"

text \<open>\<open>Short.parseShort(content[k])\<close>.\<close>

definition short_field :: "string list \<Rightarrow> nat \<Rightarrow> jexn + int16" where
  "short_field content k =
     (if k < length content then parseShort (content ! k) else Inl ArrayIndexOutOfBounds)"

text \<open>
  The loop over the users. \<open>ans\<close> is the part of the array that has been written; the
  array has \<open>2\<^sup>1\<^sup>6\<close> places.
\<close>

definition ans_size :: nat where "ans_size = 2 ^ 16"

fun encode_users :: "string list \<Rightarrow> bytes \<Rightarrow> jexn + bytes" where
  "encode_users [] ans = Inr ans"
| "encode_users (s # users) ans =
     (let content = java_split SP s
      in case short_field content 0 of Inl e \<Rightarrow> Inl e | Inr age \<Rightarrow>
         (case short_field content 1 of Inl e \<Rightarrow> Inl e | Inr numOfPosts \<Rightarrow>
         (case short_field content 2 of Inl e \<Rightarrow> Inl e | Inr numOfFollowers \<Rightarrow>
         (case short_field content 3 of Inl e \<Rightarrow> Inl e | Inr numOfFollowing \<Rightarrow>
           if ans_size < length ans + 8 then Inl ArrayIndexOutOfBounds
           else encode_users users (ans @ shortToBytes age @ shortToBytes numOfPosts
                  @ shortToBytes numOfFollowers @ shortToBytes numOfFollowing)))))"

definition encode :: "string \<Rightarrow> jexn + bytes" where
  "encode message =
     (if length message < 4 then Inl StringIndexOutOfBounds
      else if take 4 message = ''1007'' \<or> take 4 message = ''1008''
      then (case encode_users (java_split (CHR 0x0A) (drop 4 message)) (take 4 message) of
              Inl e \<Rightarrow> Inl e
            | Inr ans \<Rightarrow>
                if ans_size \<le> length ans then Inl ArrayIndexOutOfBounds
                else Inr (ans @ [SEMI] @ replicate (ans_size - length ans - 1) NUL))
      else Inr (message @ [SEMI]))"

lemma shortToBytes_be16: "shortToBytes w = be16 w"
  by (simp add: shortToBytes_def be16_def high_byte low_byte)

lemma pieces_no_sep: "c \<notin> set s \<Longrightarrow> pieces c s = [s]"
  by (induction s) auto

lemma pieces_append: "c \<notin> set w \<Longrightarrow> pieces c (w @ c # s) = w # pieces c s"
  by (induction w) auto

lemma java_split_no_sep: "c \<notin> set s \<Longrightarrow> java_split c s = [s]"
  by (simp add: java_split_def)

text \<open>Pieces that are joined by the separator, the last of which is not empty, come back.\<close>

fun join :: "char \<Rightarrow> string list \<Rightarrow> string" where
  "join c [] = []"
| "join c [w] = w"
| "join c (w # ws) = w @ c # join c ws"

lemma pieces_join: "ws \<noteq> [] \<Longrightarrow> \<forall>w\<in>set ws. c \<notin> set w \<Longrightarrow> pieces c (join c ws) = ws"
  by (induction c ws rule: join.induct) (auto simp: pieces_no_sep pieces_append)

lemma sep_in_join: "2 \<le> length ws \<Longrightarrow> c \<in> set (join c ws)"
  by (cases "(c, ws)" rule: join.cases) auto

lemma java_split_join:
  assumes "ws \<noteq> []" and "last ws \<noteq> []" and "\<forall>w\<in>set ws. c \<notin> set w"
  shows "java_split c (join c ws) = ws"
proof -
  from assms(1,2) have "rev (dropWhile (\<lambda>w. w = []) (rev ws)) = ws"
    by (simp add: dropWhile_eq_self_iff [THEN iffD2] hd_rev)
  moreover have "c \<notin> set (join c ws) \<Longrightarrow> join c ws = last ws \<and> length ws = 1"
    using sep_in_join [of ws c] assms(1) by (cases "(c, ws)" rule: join.cases) auto
  ultimately show ?thesis
    using pieces_join [OF assms(1,3)] by (auto simp: java_split_def length_Suc_conv)
qed

lemma parseInt_show_int: "parseInt (show_int i) = Some i"
proof (cases "i < 0")
  case True
  then show ?thesis by (simp add: parseInt_def show_int_def read_digits_show_nat)
next
  case False
  obtain d where d: "d < 10" "hd (show_nat (nat i)) = digit_char d" using hd_show_nat_digit by blast
  moreover have "digit_char d \<noteq> CHR ''-''" "digit_char d \<noteq> CHR ''+''"
    using digit_char_neq [OF d(1), of "CHR ''-''"] digit_char_neq [OF d(1), of "CHR ''+''"]
    by simp_all
  ultimately show ?thesis
    using False read_digits_show_nat [of "nat i"]
    by (cases "show_nat (nat i)") (auto simp: parseInt_def show_int_def)
qed

lemma parseShort_show_int: "parseShort (show_int (sint w)) = Inr w"
proof -
  have "- (2 ^ (LENGTH(16) - 1)) \<le> sint w" using sint_greater_eq [of w] by simp
  moreover have "sint w < 2 ^ (LENGTH(16) - 1)" using sint_less [of w] by simp
  ultimately show ?thesis by (simp add: parseShort_def parseInt_show_int)
qed

section \<open>Properties\<close>



text \<open>
  The line codec of the echo server is a round trip: feeding the encoded form of any
  messages without a newline delivers exactly these messages.
\<close>

lemma line_codec_roundtrip:
  assumes "\<forall>m\<in>set ms. CHR 0x0A \<notin> set m"
  shows "fst (feed line_decodeNextByte (concat (map line_encode ms)) new_codec) = ms"
proof -
  have "map line_encode ms = map (\<lambda>m. m @ [CHR 0x0A]) ms" by (simp add: line_encode_def)
  moreover obtain s' where "feed line_decodeNextByte (concat (map (\<lambda>m. m @ [CHR 0x0A]) ms)) new_codec = (ms, s')"
    using newline.feed_messages [OF codec_inv_new assms] by blast
  ultimately show ?thesis by (simp only: fst_conv)
qed

lemma line_codec_roundtrip_witness:
  "fst (feed line_decodeNextByte (concat (map line_encode [''hello'', ''bye''])) new_codec) = [''hello'', ''bye'']"
  by (rule line_codec_roundtrip) simp

end
