(* ===== verification/Session.thy ===== *)
theory Session
  imports Threads ServerCodec
begin

text \<open>
  The two programs on one connection: what the client's encoder writes is what the
  server's codec delivers, and what the server's codec writes is what the client shows.
\<close>

section \<open>From the client to the server\<close>

text \<open>Typing several lines, one \<open>sendLine\<close> each, as long as they succeed.\<close>

fun sendLines :: "('k, 'a) asio \<Rightarrow> string list \<Rightarrow> 'k handler \<Rightarrow> (bool \<times> 'k handler) option" where
  "sendLines A [] h = Some (True, h)"
| "sendLines A (line # lines) h =
     (case sendLine A line h of
        None \<Rightarrow> None
      | Some (False, h') \<Rightarrow> Some (False, h')
      | Some (True, h') \<Rightarrow> sendLines A lines h')"

lemma mark_logout_socket [conn_simps]: "socket (mark_logout c h) = socket h"
  by (simp add: mark_logout_def)

context asio_up
begin

lemma sendLine_sends:
  assumes "up (socket h)" and "command_ok c"
  obtains k' where "sendLine A (show_command c) h = Some (True, (mark_logout c h)\<lparr>socket := k'\<rparr>)"
    and "sent k' = sent (socket h) @ wire_command c @ [SEMI]" and "up k'"
proof -
  have "up (socket (mark_logout c h))" using assms(1) by (simp add: conn_simps)
  then obtain k' where "sendBytes A (wire_command c @ [SEMI]) (mark_logout c h) =
      Some (True, (mark_logout c h)\<lparr>socket := k'\<rparr>)"
    "sent k' = sent (socket (mark_logout c h)) @ wire_command c @ [SEMI]" "up k'"
    by (rule sendBytes_all)
  with assms(2) that show thesis
    by (simp add: sendLine_def sendFrameAscii_def Encoder_command conn_simps)
qed

lemma sendLines_sends:
  "up (socket h) \<Longrightarrow> \<forall>c\<in>set cs. command_ok c \<Longrightarrow>
   \<exists>h'. sendLines A (map show_command cs) h = Some (True, h') \<and> up (socket h')
     \<and> sent (socket h') = sent (socket h) @ concat (map (\<lambda>c. wire_command c @ [SEMI]) cs)"
proof (induction cs arbitrary: h)
  case Nil
  then show ?case by simp
next
  case (Cons c cs)
  from Cons.prems obtain k'
    where "sendLine A (show_command c) h = Some (True, (mark_logout c h)\<lparr>socket := k'\<rparr>)"
      "sent k' = sent (socket h) @ wire_command c @ [SEMI]" "up k'"
    using sendLine_sends [of h c] by auto
  with Cons.IH [of "(mark_logout c h)\<lparr>socket := k'\<rparr>"] Cons.prems(2) show ?case by auto
qed

end

lemma wire_command_no_semi: "SEMI \<notin> set (show_command c) \<Longrightarrow> SEMI \<notin> set (wire_command c)"
  by (cases c) auto

lemma feed_commands:
  assumes "\<forall>c\<in>set cs. SEMI \<notin> set (show_command c)"
  shows "\<exists>s'. feed decodeNextByte (concat (map (\<lambda>c. wire_command c @ [SEMI]) cs)) new_codec
      = (map wire_command cs, s') \<and> unfinished s' = []"
proof -
  from assms have "\<forall>m\<in>set (map wire_command cs). SEMI \<notin> set m"
    using wire_command_no_semi by auto
  from semi.feed_messages [OF codec_inv_new this] show ?thesis by (auto simp: comp_def)
qed

section \<open>From the server to the client\<close>

text \<open>The message the server passes to \<open>encode\<close> for each of the text replies.\<close>

fun server_text :: "reply \<Rightarrow> string" where
  "server_text (Notify public user content) =
     ''09'' @ [if public then CHR ''1'' else CHR ''0''] @ user @ NUL # content @ [NUL]"
| "server_text (AckOp a b) = ''10'' @ [a, b]"
| "server_text (AckFollow a b user x) = ''1004'' @ [a, b] @ user @ [NUL, x]"
| "server_text (AckStat d w1 w2 w3 w4) =
     ''100'' @ [d] @ join SP (map (\<lambda>w. show_int (sint w)) [w1, w2, w3, w4])"
| "server_text (Err a b) = ''11'' @ [a, b]"

definition is_stat :: "reply \<Rightarrow> bool" where
  "is_stat r = (case r of AckStat _ _ _ _ _ \<Rightarrow> True | _ \<Rightarrow> False)"

lemma encode_text:
  "reply_ok r \<Longrightarrow> \<not> is_stat r \<Longrightarrow> encode (server_text r) = Inr (wire_reply r)"
  by (cases r) (auto simp: encode_def is_stat_def)

lemma show_int_no_sep: "SP \<notin> set (show_int i)" "CHR 0x0A \<notin> set (show_int i)"
  by (simp_all add: show_int_avoids)

lemma encode_stat:
  assumes "d = CHR ''7'' \<or> d = CHR ''8''"
  shows "encode (server_text (AckStat d w1 w2 w3 w4)) =
    Inr (wire_reply (AckStat d w1 w2 w3 w4) @ replicate 65523 NUL)"
proof -
  let ?ws = "map (\<lambda>w. show_int (sint w)) [w1, w2, w3, w4]"
  have "java_split SP (join SP ?ws) = ?ws"
    by (rule java_split_join) (auto simp: show_int_no_sep)
  moreover have "java_split (CHR 0x0A) (join SP ?ws) = [join SP ?ws]"
    by (rule java_split_no_sep) (auto simp: show_int_no_sep)
  ultimately have "encode_users (java_split (CHR 0x0A) (join SP ?ws)) [CHR ''1'', CHR ''0'', CHR ''0'', d] =
      Inr (''100'' @ [d] @ be16 w1 @ be16 w2 @ be16 w3 @ be16 w4)"
    by (simp add: short_field_def parseShort_show_int shortToBytes_be16 ans_size_def)
  then show ?thesis using assms by (auto simp: encode_def ans_size_def)
qed

section \<open>Whole lines typed\<close>

text \<open>A command as one line of input: it fits the buffer and has no byte that ends a line or a C string.\<close>

fun line_ok :: "command \<Rightarrow> bool" where
  "line_ok c = (c \<noteq> Logout \<and> command_ok c \<and> length (show_command c) \<le> 1023
     \<and> NL \<notin> set (show_command c) \<and> NUL \<notin> set (show_command c))"

lemma show_command_LOGOUT: "show_command c = ''LOGOUT'' \<longleftrightarrow> c = Logout"
  by (cases c) auto

context asio_up
begin

lemma typed_lines:
  "up (socket h) \<Longrightarrow> \<not> terminate h \<Longrightarrow> good i \<Longrightarrow> \<forall>c\<in>set cs. line_ok c \<Longrightarrow>
   pending_input i = concat (map (\<lambda>c. show_command c @ [NL]) cs) @ r \<Longrightarrow>
   \<exists>k'. kb_run A (4 * length cs) KTest h i = Some (KTest, h\<lparr>socket := k'\<rparr>, i\<lparr>pending_input := r\<rparr>)
     \<and> up k' \<and> sent k' = sent (socket h) @ concat (map (\<lambda>c. wire_command c @ [SEMI]) cs)"
proof (induction cs arbitrary: h i)
  case Nil
  then show ?case by (auto intro!: exI [of _ "socket h"])
next
  case (Cons c cs)
  from Cons.prems(4) have ok: "c \<noteq> Logout" "command_ok c" by auto
  from sendLine_sends [OF Cons.prems(1) ok(2)] ok(1) obtain k1
    where k1: "sendLine A (show_command c) h = Some (True, h\<lparr>socket := k1\<rparr>)"
      "sent k1 = sent (socket h) @ wire_command c @ [SEMI]" "up k1"
    by (auto simp: mark_logout_def)
  let ?i = "i\<lparr>pending_input := concat (map (\<lambda>c. show_command c @ [NL]) cs) @ r\<rparr>"
  have turn: "kb_run A 4 KTest h i = Some (KTest, h\<lparr>socket := k1\<rparr>, ?i)"
    by (rule kb_turn_line [where line = "show_command c"])
       (use Cons.prems k1(1) in \<open>auto simp: show_command_LOGOUT\<close>)
  from Cons.IH [of "h\<lparr>socket := k1\<rparr>" ?i] Cons.prems k1 obtain k'
    where k': "kb_run A (4 * length cs) KTest (h\<lparr>socket := k1\<rparr>) ?i =
        Some (KTest, h\<lparr>socket := k'\<rparr>, i\<lparr>pending_input := r\<rparr>)"
      "up k'" "sent k' = sent k1 @ concat (map (\<lambda>c. wire_command c @ [SEMI]) cs)"
    by (auto simp: good_def)
  have "4 * length (c # cs) = 4 + 4 * length cs" by simp
  with turn k' k1(2) show ?case by (simp only: kb_run_add) (auto intro!: exI [of _ k'])
qed

end

end
