(* ===== verification/Users.thy ===== *)
theory Users
  imports ServerCodec "HOL-Library.AList" "HOL-Library.Sublist" "HOL-Library.Multiset"
begin

text \<open>
  The shared state of the server: the users (\<open>api/User.java\<close>) and the connection table
  (\<open>api/ConnectionsImpl.java\<close>). Users are shared mutable objects, compared by identity, so they
  live on a heap and the maps and queues hold references. A \<open>ConcurrentHashMap\<close> is an
  association list with distinct keys; the order in which its values are visited depends on
  hash codes and is a parameter.
\<close>

section \<open>Users\<close>

text \<open>
  As in the code, the queue \<open>followers\<close> of a user holds the users he follows. A user is not
  connected as long as \<open>connId\<close> is \<open>-1\<close>.
\<close>

record user =
  username :: string
  password :: string
  birthday :: string
  isActivated :: bool
  connId :: int
  followers :: "nat list"
  awaitingPosts :: "string list"
  following :: int16
  blockingUsers :: "nat list"

definition User :: "string \<Rightarrow> string \<Rightarrow> string \<Rightarrow> user" where
  "User un pw bd =
     \<lparr>username = un, password = pw, birthday = bd, isActivated = False, connId = -1,
      followers = [], awaitingPosts = [], following = 0, blockingUsers = []\<rparr>"

definition activate :: "user \<Rightarrow> user" where
  "activate u = (if \<not> isActivated u then u\<lparr>isActivated := True\<rparr> else u)"

definition deActivate :: "user \<Rightarrow> user" where
  "deActivate u = (if isActivated u then u\<lparr>isActivated := False\<rparr> else u)"

definition setConnId :: "int \<Rightarrow> user \<Rightarrow> user" where
  "setConnId c u = u\<lparr>connId := c\<rparr>"

definition incrementFollowing :: "user \<Rightarrow> user" where
  "incrementFollowing u = u\<lparr>following := following u + 1\<rparr>"

definition decreaseFollowing :: "user \<Rightarrow> user" where
  "decreaseFollowing u = u\<lparr>following := following u - 1\<rparr>"

definition addFollower :: "nat \<Rightarrow> user \<Rightarrow> user" where
  "addFollower r u = u\<lparr>followers := followers u @ [r]\<rparr>"

definition removeFollower :: "nat \<Rightarrow> user \<Rightarrow> user" where
  "removeFollower r u = u\<lparr>followers := remove1 r (followers u)\<rparr>"

definition addBlocking :: "nat \<Rightarrow> user \<Rightarrow> user" where
  "addBlocking r u = u\<lparr>blockingUsers := blockingUsers u @ [r]\<rparr>"

definition addAwaiting :: "string \<Rightarrow> user \<Rightarrow> user" where
  "addAwaiting p u = u\<lparr>awaitingPosts := awaitingPosts u @ [p]\<rparr>"

named_theorems user_defs \<open>the setters of a user\<close>

lemmas [user_defs] = activate_def deActivate_def setConnId_def incrementFollowing_def
  decreaseFollowing_def addFollower_def removeFollower_def addBlocking_def addAwaiting_def

section \<open>The connection table\<close>

text \<open>
  \<open>connectionsMap\<close> is represented by the ids of the connections that have a handler; \<open>sent_to\<close>
  is the log of the bytes the handlers have written, with the id of the connection. An
  \<open>IOException\<close> of a write is caught and printed by the handler and does not appear.
\<close>

record srv =
  heap :: "user list"
  ActiveUsersMap :: "(string \<times> nat) list"
  UsersMap :: "(string \<times> nat) list"
  connectionsMap :: "int list"
  filteredWords :: "string list"
  howMuchPostIPost :: int32
  sent_to :: "(int \<times> bytes) list"

definition new_srv :: "string list \<Rightarrow> srv" where
  "new_srv ws =
     \<lparr>heap = [], ActiveUsersMap = [], UsersMap = [], connectionsMap = [], filteredWords = ws,
      howMuchPostIPost = 0, sent_to = []\<rparr>"

text \<open>What a server uses of the Java machine: the order of a map's values and the year.\<close>

record jvm =
  map_values :: "(string \<times> nat) list \<Rightarrow> nat list"
  current_year :: int32

definition the_user :: "srv \<Rightarrow> nat \<Rightarrow> user" where
  "the_user s r = heap s ! r"

definition upd :: "nat \<Rightarrow> (user \<Rightarrow> user) \<Rightarrow> srv \<Rightarrow> srv" where
  "upd r f s = s\<lparr>heap := (heap s)[r := f (heap s ! r)]\<rparr>"

definition incrementPostIPost :: "srv \<Rightarrow> srv" where
  "incrementPostIPost s = s\<lparr>howMuchPostIPost := howMuchPostIPost s + 1\<rparr>"

text \<open>
  The outcome of a call is the exception it throws, if any, and the state; an exception leaves
  the changes made before it in place.
\<close>

type_synonym outcome = "jexn option \<times> srv"

definition then_do :: "outcome \<Rightarrow> (srv \<Rightarrow> outcome) \<Rightarrow> outcome" where
  "then_do p f = (case p of (None, s) \<Rightarrow> f s | (Some e, s) \<Rightarrow> (Some e, s))"

definition send :: "int \<Rightarrow> string \<Rightarrow> srv \<Rightarrow> outcome" where
  "send c msg s =
     (if c \<in> set (connectionsMap s)
      then case encode msg of
             Inl e \<Rightarrow> (Some e, s)
           | Inr bs \<Rightarrow> (None, s\<lparr>sent_to := sent_to s @ [(c, bs)]\<rparr>)
      else (None, s))"

section \<open>The order of a map's values\<close>

locale map_order =
  fixes vals :: "(string \<times> nat) list \<Rightarrow> nat list"
  assumes vals_mset: "distinct (map fst m) \<Longrightarrow> mset (vals m) = mset (map snd m)"
begin

lemma set_vals: "distinct (map fst m) \<Longrightarrow> set (vals m) = snd ` set m"
  using vals_mset [of m] by (metis mset_eq_setD list.set_map)

lemma vals_Nil: "vals [] = []"
  using vals_mset [of "[]"] by simp

lemma vals_eq_Nil: "distinct (map fst m) \<Longrightarrow> vals m = [] \<longleftrightarrow> m = []"
  using set_vals [of m] by auto

text \<open>The search loops of the protocol: the first value with a property.\<close>

lemma find_vals_None: "distinct (map fst m) \<Longrightarrow> find P (vals m) = None \<longleftrightarrow> (\<forall>r\<in>snd ` set m. \<not> P r)"
  using set_vals [of m] by (simp add: find_None_iff)

lemma find_vals_Some: "distinct (map fst m) \<Longrightarrow> find P (vals m) = Some r \<Longrightarrow> r \<in> snd ` set m \<and> P r"
  using set_vals [of m] by (metis find_Some_iff nth_mem)

end

text \<open>
  The order of \<open>ConcurrentHashMap\<close> before its first resize (fewer than 12 entries): 16 bins,
  visited in order, each in the order of insertion; the bin of a key is given by its hash code.
\<close>

unbundle bit_operations_syntax

definition hashCode :: "string \<Rightarrow> int32" where
  "hashCode s = foldl (\<lambda>h c. 31 * h + of_char c) 0 s"

definition bin :: "string \<Rightarrow> nat" where
  "bin k = (let h = hashCode k in unat ((h XOR drop_bit 16 h) AND 15))"

definition bin_order :: "(string \<times> nat) list \<Rightarrow> nat list" where
  "bin_order m = map snd (sort_key (\<lambda>(k, _). bin k) m)"

interpretation bins: map_order bin_order
  by unfold_locales (simp add: bin_order_def)

section \<open>Facts about the state\<close>

lemma then_do_simps [simp]:
  "then_do (None, s) f = f s" "then_do (Some e, s) f = (Some e, s)"
  by (simp_all add: then_do_def)

lemma snd_then_do: "snd (then_do p f) = (if fst p = None then snd (f (snd p)) else snd p)"
  by (cases p; cases "fst p") (simp_all add: then_do_def)

text \<open>Invariance under sequencing, the rule for most of the proofs about the protocol.\<close>

lemma then_do_invI: "I (snd p) \<Longrightarrow> (\<And>s. I s \<Longrightarrow> I (snd (f s))) \<Longrightarrow> I (snd (then_do p f))"
  by (simp add: snd_then_do)

lemma send_frame [simp]:
  "heap (snd (send c msg s)) = heap s" "ActiveUsersMap (snd (send c msg s)) = ActiveUsersMap s"
  "UsersMap (snd (send c msg s)) = UsersMap s" "connectionsMap (snd (send c msg s)) = connectionsMap s"
  "filteredWords (snd (send c msg s)) = filteredWords s"
  "howMuchPostIPost (snd (send c msg s)) = howMuchPostIPost s"
  by (auto simp: send_def split: sum.splits)

lemma upd_frame [simp]:
  "length (heap (upd r f s)) = length (heap s)" "ActiveUsersMap (upd r f s) = ActiveUsersMap s"
  "UsersMap (upd r f s) = UsersMap s" "connectionsMap (upd r f s) = connectionsMap s"
  "filteredWords (upd r f s) = filteredWords s" "sent_to (upd r f s) = sent_to s"
  "howMuchPostIPost (upd r f s) = howMuchPostIPost s"
  by (simp_all add: upd_def)

lemma increment_frame [simp]:
  "heap (incrementPostIPost s) = heap s" "ActiveUsersMap (incrementPostIPost s) = ActiveUsersMap s"
  "UsersMap (incrementPostIPost s) = UsersMap s" "connectionsMap (incrementPostIPost s) = connectionsMap s"
  "filteredWords (incrementPostIPost s) = filteredWords s" "sent_to (incrementPostIPost s) = sent_to s"
  by (simp_all add: incrementPostIPost_def)

lemma upd_nth: "r < length (heap s) \<Longrightarrow> q < length (heap s) \<Longrightarrow>
    heap (upd r f s) ! q = (if q = r then f (heap s ! r) else heap s ! q)"
  by (simp add: upd_def nth_list_update)

lemma encode_no_stat:
  "4 \<le> length msg \<Longrightarrow> take 4 msg \<noteq> ''1007'' \<Longrightarrow> take 4 msg \<noteq> ''1008'' \<Longrightarrow> encode msg = Inr (msg @ [SEMI])"
  by (simp add: encode_def)

lemma send_text:
  "4 \<le> length msg \<Longrightarrow> take 4 msg \<noteq> ''1007'' \<Longrightarrow> take 4 msg \<noteq> ''1008'' \<Longrightarrow>
   send c msg s = (None, if c \<in> set (connectionsMap s)
     then s\<lparr>sent_to := sent_to s @ [(c, msg @ [SEMI])]\<rparr> else s)"
  by (simp add: send_def encode_no_stat)

end
