(* ===== verification/Protocol.thy ===== *)
theory Protocol
  imports Users
begin

text \<open>
  The protocol of the server, \<open>api/BidiMessagingProtocolImpl.java\<close>: \<open>process\<close> and one definition
  per opcode. A handler takes the Java machine \<open>J\<close>, the id \<open>c\<close> of the connection it serves and
  the message without its opcode. A call of \<open>process\<close> is atomic here; the code takes no lock
  across one (see \<open>Races\<close>).
\<close>

section \<open>Searching\<close>

definition registered :: "jvm \<Rightarrow> srv \<Rightarrow> nat list" where
  "registered J s = map_values J (UsersMap s)"

definition active :: "jvm \<Rightarrow> srv \<Rightarrow> nat list" where
  "active J s = map_values J (ActiveUsersMap s)"

text \<open>The user of this connection: the first active user with its id.\<close>

definition serves :: "int \<Rightarrow> srv \<Rightarrow> nat \<Rightarrow> bool" where
  "serves c s r \<longleftrightarrow> connId (the_user s r) = c"

text \<open>\<open>message.contains(user.getUsername())\<close> and \<open>user.getUsername().contains(name)\<close>.\<close>

definition named_in :: "string \<Rightarrow> srv \<Rightarrow> nat \<Rightarrow> bool" where
  "named_in message s r \<longleftrightarrow> sublist (username (the_user s r)) message"

definition name_contains :: "string \<Rightarrow> srv \<Rightarrow> nat \<Rightarrow> bool" where
  "name_contains name s r \<longleftrightarrow> sublist name (username (the_user s r))"

text \<open>
  The loops of PM and LOGSTAT leave the last user they have looked at in the variable when
  none matches, and null when there is none at all.
\<close>

definition find_or_last :: "('a \<Rightarrow> bool) \<Rightarrow> 'a list \<Rightarrow> 'a option" where
  "find_or_last P xs =
     (case find P xs of
        Some x \<Rightarrow> Some x
      | None \<Rightarrow> if xs = [] then None else Some (last xs))"

section \<open>REGISTER, LOGIN and LOGOUT\<close>

text \<open>
  The arguments are the pieces between NULs; a missing one is an exception before anything
  changes. The object of a refused registration is garbage and is not put on the heap.
\<close>

definition do_register :: "jvm \<Rightarrow> int \<Rightarrow> string \<Rightarrow> srv \<Rightarrow> outcome" where
  "do_register J c message s =
     (let args = java_split NUL message
      in if length args < 3 then (Some ArrayIndexOutOfBounds, s)
         else if list_ex (name_contains (args ! 0) s) (registered J s)
         then send c ''1101'' s
         else send c ''1001''
                (s\<lparr>heap := heap s @ [User (args ! 0) (args ! 1) (args ! 2)],
                   UsersMap := AList.update (args ! 0) (length (heap s)) (UsersMap s)\<rparr>))"

text \<open>
  The posts that wait for a user. The variables \<open>senderName\<close> and \<open>limit\<close> are declared before the
  loop over the posts, and the name is appended to for each of them.
\<close>

fun scan_sender :: "string \<Rightarrow> nat \<Rightarrow> string \<Rightarrow> nat \<Rightarrow> string \<times> nat" where
  "scan_sender [] i senderName limit = (senderName, limit)"
| "scan_sender (ch # cs) i senderName limit =
     (if ch \<noteq> SP then scan_sender cs (i + 1) (senderName @ [ch]) limit else (senderName, i + 1))"

fun send_awaiting :: "nat \<Rightarrow> string \<Rightarrow> nat \<Rightarrow> string list \<Rightarrow> srv \<Rightarrow> outcome" where
  "send_awaiting r senderName limit [] s = (None, s)"
| "send_awaiting r senderName limit (p # posts) s =
     (let (senderName', limit') = scan_sender p 0 senderName limit
      in if length p < limit' then (Some StringIndexOutOfBounds, s)
         else then_do (send (connId (the_user s r)) (''091'' @ senderName' @ NUL # drop limit' p @ [NUL]) s)
                (send_awaiting r senderName' limit' posts))"

definition do_login :: "jvm \<Rightarrow> int \<Rightarrow> string \<Rightarrow> srv \<Rightarrow> outcome" where
  "do_login J c message s =
     (let args = java_split NUL message
      in if length args < 3 then (Some ArrayIndexOutOfBounds, s)
         else case find (name_contains (args ! 0) s) (registered J s) of
                None \<Rightarrow> send c ''1102'' s
              | Some r \<Rightarrow>
                  if password (the_user s r) = args ! 1 \<and> args ! 2 = ''1'' \<and> \<not> isActivated (the_user s r)
                  then let s1 = upd r (setConnId c \<circ> activate)
                                  (s\<lparr>ActiveUsersMap := AList.update (args ! 0) r (ActiveUsersMap s)\<rparr>)
                       in then_do (send c ''1002'' s1)
                            (\<lambda>s2. send_awaiting r [] 0 (awaitingPosts (the_user s2 r)) s2)
                  else send c ''1102'' s)"

text \<open>
  \<open>remove(myUser)\<close> looks for a key that equals a user; the keys are strings, so it removes
  nothing.
\<close>

definition do_logout :: "jvm \<Rightarrow> int \<Rightarrow> srv \<Rightarrow> outcome" where
  "do_logout J c s =
     (case find (serves c s) (active J s) of
        Some r \<Rightarrow> send c ''1003'' (upd r deActivate s)
      | None \<Rightarrow> send c ''1103'' s)"

section \<open>FOLLOW\<close>

definition do_follow :: "jvm \<Rightarrow> int \<Rightarrow> string \<Rightarrow> srv \<Rightarrow> outcome" where
  "do_follow J c message s =
     (if message = [] then (Some StringIndexOutOfBounds, s)
      else let action = take 1 message; message = drop 1 message
      in case find (named_in message s) (registered J s) of
           None \<Rightarrow> send c ''1104'' s
         | Some other \<Rightarrow>
             (case find (serves c s) (active J s) of
                None \<Rightarrow> (None, s)
              | Some my \<Rightarrow>
                  if isActivated (the_user s my)
                  then if action = ''0'' \<and> other \<notin> set (followers (the_user s my))
                          \<and> my \<notin> set (blockingUsers (the_user s other))
                       then send c (''100400'' @ message @ [NUL])
                              (upd my (incrementFollowing \<circ> addFollower other) s)
                       else if action = ''1'' \<and> other \<in> set (followers (the_user s my))
                       then send c (''100401'' @ message @ [NUL])
                              (upd my (decreaseFollowing \<circ> removeFollower other) s)
                       else send c ''1104'' s
                  else (None, s)))"

section \<open>POST\<close>

text \<open>
  The text after an \<open>@\<close> up to a space or the last character, which is not taken. The result
  is the name and what is left of the text; \<^term>\<open>None\<close> when there is no character.
\<close>

fun scan_name :: "string \<Rightarrow> string \<Rightarrow> (string \<times> string) option" where
  "scan_name [] userName = None"
| "scan_name (ch # cs) userName =
     (if ch = SP \<or> cs = [] then Some (userName, cs) else scan_name cs (userName @ [ch]))"

lemma scan_name_shorter: "scan_name cs userName = Some (n, rest) \<Longrightarrow> length rest < length cs"
  by (induction cs userName rule: scan_name.induct) (auto split: if_splits)

function mentions :: "string \<Rightarrow> string list" where
  "mentions [] = []"
| "mentions (ch # cs) =
     (if ch = CHR ''@''
      then case scan_name cs [] of
             Some (userName, rest) \<Rightarrow> userName # mentions rest
           | None \<Rightarrow> mentions cs
      else mentions cs)"
  by pat_completeness auto
termination
  by (relation "measure length") (auto dest: scan_name_shorter)

text \<open>The users whose name contains a mentioned name, without those who follow the sender.\<close>

definition mentioned :: "jvm \<Rightarrow> string \<Rightarrow> srv \<Rightarrow> nat list" where
  "mentioned J message s =
     concat (map (\<lambda>userName. filter (name_contains userName s) (registered J s)) (mentions message))"

definition follows :: "srv \<Rightarrow> nat \<Rightarrow> nat \<Rightarrow> bool" where
  "follows s r my \<longleftrightarrow> my \<in> set (followers (the_user s r))"

definition drop_followers :: "srv \<Rightarrow> nat \<Rightarrow> nat list \<Rightarrow> nat list" where
  "drop_followers s my others = foldl (\<lambda>q r. if follows s r my then remove1 r q else q) others others"

fun deliver_post :: "nat \<Rightarrow> string \<Rightarrow> nat list \<Rightarrow> srv \<Rightarrow> outcome" where
  "deliver_post my message [] s = (None, s)"
| "deliver_post my message (r # rs) s =
     (if \<not> isActivated (the_user s r)
      then deliver_post my message rs
             (incrementPostIPost (upd r (addAwaiting (username (the_user s my) @ SP # message)) s))
      else then_do (send (connId (the_user s r))
                      (''091'' @ username (the_user s my) @ NUL # message @ [NUL]) s)
             (\<lambda>s1. deliver_post my message rs (incrementPostIPost s1)))"

definition do_post :: "jvm \<Rightarrow> int \<Rightarrow> string \<Rightarrow> srv \<Rightarrow> outcome" where
  "do_post J c message s =
     (if message = [] then (Some StringIndexOutOfBounds, s)
      else let message = butlast message
      in case find (serves c s) (active J s) of
           None \<Rightarrow> send c ''1105'' s
         | Some my \<Rightarrow>
             let others = drop_followers s my (mentioned J message s)
             in then_do (deliver_post my message (filter (\<lambda>r. follows s r my) (registered J s)) s)
                  (\<lambda>s1. then_do (deliver_post my message others s1) (send c ''1005'')))"

section \<open>PM\<close>

text \<open>
  \<open>replaceAll("\\b" + word + "\\b", "<filtered>")\<close> for a word that consists of word characters:
  an occurrence counts when no word character stands before or after it. \<open>prev\<close> says whether
  the character before the rest is a word character.
\<close>

definition word_char :: "char \<Rightarrow> bool" where
  "word_char ch \<longleftrightarrow>
     (let n = of_char ch :: nat
      in 48 \<le> n \<and> n \<le> 57 \<or> 65 \<le> n \<and> n \<le> 90 \<or> 97 \<le> n \<and> n \<le> 122 \<or> n = 95)"

definition boundary :: "string \<Rightarrow> bool" where
  "boundary rest = (case rest of [] \<Rightarrow> True | ch # _ \<Rightarrow> \<not> word_char ch)"

function replace_word :: "string \<Rightarrow> bool \<Rightarrow> string \<Rightarrow> string" where
  "replace_word w prev [] = []"
| "replace_word w prev (ch # cs) =
     (if \<not> prev \<and> w \<noteq> [] \<and> prefix w (ch # cs) \<and> boundary (drop (length w) (ch # cs))
      then ''<filtered>'' @ replace_word w True (drop (length w) (ch # cs))
      else ch # replace_word w (word_char ch) cs)"
  by pat_completeness auto
termination
  by (relation "measure (\<lambda>(w, prev, s). length s)") (auto simp: Suc_le_eq)

definition filter_words :: "string list \<Rightarrow> string \<Rightarrow> string" where
  "filter_words ws message = foldl (\<lambda>m w. replace_word w False m) message ws"

definition do_pm :: "jvm \<Rightarrow> int \<Rightarrow> string \<Rightarrow> srv \<Rightarrow> outcome" where
  "do_pm J c message s =
     (if message = [] then (Some StringIndexOutOfBounds, s)
      else let message = butlast message
      in case (find_or_last (serves c s) (active J s), find_or_last (named_in message s) (registered J s)) of
           (Some my, Some other) \<Rightarrow>
             if other \<notin> set (followers (the_user s my)) \<or> my \<in> set (blockingUsers (the_user s other))
             then send c ''1106'' s
             else let s1 = incrementPostIPost s;
                      message = filter_words (filteredWords s) message;
                      n = length (username (the_user s other)) + 1
                  in if length message < n then (Some StringIndexOutOfBounds, s1)
                     else then_do (send (connId (the_user s other))
                             (''090'' @ username (the_user s my) @ NUL # drop n message @ [NUL]) s1)
                            (send c ''1006'')
         | _ \<Rightarrow> send c ''1106'' s)"

section \<open>LOGSTAT and STAT\<close>

text \<open>\<open>Integer.parseInt\<close>.\<close>

definition parse_int32 :: "string \<Rightarrow> jexn + int32" where
  "parse_int32 s =
     (case parseInt s of
        None \<Rightarrow> Inl NumberFormat
      | Some i \<Rightarrow> if - 2147483648 \<le> i \<and> i \<le> 2147483647 then Inr (word_of_int i) else Inl NumberFormat)"

definition age :: "jvm \<Rightarrow> user \<Rightarrow> jexn + int32" where
  "age J u =
     (if length (birthday u) < 6 then Inl StringIndexOutOfBounds
      else case parse_int32 (drop 6 (birthday u)) of
             Inl e \<Rightarrow> Inl e
           | Inr year \<Rightarrow> Inr (current_year J - year - 1))"

definition stat_line :: "int32 \<Rightarrow> user \<Rightarrow> string" where
  "stat_line a u =
     ''1007'' @ show_int (sint a) @ SP # show_int (int (length (followers u))) @ SP
       # show_int (sint (following u)) @ SP # show_int (int (length (awaitingPosts u)))"

fun send_stats :: "jvm \<Rightarrow> int \<Rightarrow> nat \<Rightarrow> nat list \<Rightarrow> srv \<Rightarrow> outcome" where
  "send_stats J c my [] s = (None, s)"
| "send_stats J c my (r # rs) s =
     (if my \<notin> set (blockingUsers (the_user s r))
      then case age J (the_user s r) of
             Inl e \<Rightarrow> (Some e, s)
           | Inr a \<Rightarrow> then_do (send c (stat_line a (the_user s r)) s) (send_stats J c my rs)
      else then_do (send c ''1107'' s) (send_stats J c my rs))"

definition do_logstat :: "jvm \<Rightarrow> int \<Rightarrow> srv \<Rightarrow> outcome" where
  "do_logstat J c s =
     (case find_or_last (serves c s) (active J s) of
        None \<Rightarrow> (None, s)
      | Some my \<Rightarrow> send_stats J c my (active J s) s)"

text \<open>
  STAT casts the keys of the map of the active users, which are strings, to \<open>User\<close>: with the
  first of them the cast throws. Without an active user the loop is skipped, the variable
  stays null, and the request is refused; the branch for a user that was found is dead.
\<close>

definition do_stat :: "jvm \<Rightarrow> int \<Rightarrow> string \<Rightarrow> srv \<Rightarrow> outcome" where
  "do_stat J c message s =
     (case ActiveUsersMap s of
        [] \<Rightarrow> send c ''1108'' s
      | _ # _ \<Rightarrow> (Some ClassCast, s))"

section \<open>BLOCK\<close>

definition do_block :: "jvm \<Rightarrow> int \<Rightarrow> string \<Rightarrow> srv \<Rightarrow> outcome" where
  "do_block J c message s =
     (case (find (serves c s) (active J s), find (named_in message s) (registered J s)) of
        (Some my, Some other) \<Rightarrow>
          if other \<notin> set (blockingUsers (the_user s my))
          then if message = [] then (Some StringIndexOutOfBounds, s)
               else let s1 = upd my (addBlocking other) s;
                        s2 = (if other \<in> set (followers (the_user s1 my))
                              then upd my (removeFollower other) s1 else s1);
                        s3 = (if my \<in> set (followers (the_user s2 other))
                              then upd other (removeFollower my) s2 else s2)
                    in send c ''1012'' s3
          else send c ''1112'' s
      | _ \<Rightarrow> send c ''1112'' s)"

section \<open>\<open>process\<close>\<close>

definition process :: "jvm \<Rightarrow> int \<Rightarrow> string \<Rightarrow> srv \<Rightarrow> outcome" where
  "process J c message s =
     (if length message < 2 then (Some StringIndexOutOfBounds, s)
      else let optCode = take 2 message; message = drop 2 message
      in if optCode = ''01'' then do_register J c message s
         else if optCode = ''02'' then do_login J c message s
         else if optCode = ''03'' then do_logout J c s
         else if optCode = ''04'' then do_follow J c message s
         else if optCode = ''05'' then do_post J c message s
         else if optCode = ''06'' then do_pm J c message s
         else if optCode = ''07'' then do_logstat J c s
         else if optCode = ''08'' then do_stat J c message s
         else if optCode = ''12'' then do_block J c message s
         else (None, s))"

end
