(* ===== verification/ServerInv.thy ===== *)
theory ServerInv
  imports Protocol
begin

text \<open>
  What every call of \<open>process\<close> preserves.
\<close>

section \<open>Well-formed states\<close>

definition links :: "srv \<Rightarrow> (string \<times> nat list \<times> nat list) list" where
  "links s = map (\<lambda>u. (username u, followers u, blockingUsers u)) (heap s)"

text \<open>
  No reference dangles, the keys of the maps are distinct, and a registered user is found under
  its name.
\<close>

definition refs_ok :: "srv \<Rightarrow> bool" where
  "refs_ok s \<longleftrightarrow>
     distinct (map fst (UsersMap s)) \<and> distinct (map fst (ActiveUsersMap s))
   \<and> (\<forall>(k, r)\<in>set (UsersMap s). r < length (heap s) \<and> username (the_user s r) = k)
   \<and> (\<forall>(k, r)\<in>set (ActiveUsersMap s). r < length (heap s))
   \<and> (\<forall>r<length (heap s). set (followers (the_user s r)) \<union> set (blockingUsers (the_user s r)) \<subseteq> {..<length (heap s)})"

text \<open>A user follows another at most once, and nobody who has blocked him.\<close>

definition blocks_ok :: "srv \<Rightarrow> bool" where
  "blocks_ok s \<longleftrightarrow>
     (\<forall>r<length (heap s). distinct (followers (the_user s r))
        \<and> (\<forall>q\<in>set (blockingUsers (the_user s r)). r \<notin> set (followers (the_user s q))))"

definition wf_srv :: "srv \<Rightarrow> bool" where
  "wf_srv s \<longleftrightarrow> refs_ok s \<and> blocks_ok s"

lemma refs_okD:
  assumes "refs_ok s"
  shows "distinct (map fst (UsersMap s))" and "distinct (map fst (ActiveUsersMap s))"
    and "(k, r) \<in> set (UsersMap s) \<Longrightarrow> r < length (heap s)"
    and "(k, r) \<in> set (UsersMap s) \<Longrightarrow> username (the_user s r) = k"
    and "(k, r) \<in> set (ActiveUsersMap s) \<Longrightarrow> r < length (heap s)"
    and "r < length (heap s) \<Longrightarrow> set (followers (the_user s r)) \<union> set (blockingUsers (the_user s r)) \<subseteq> {..<length (heap s)}"
  using assms unfolding refs_ok_def by blast+

lemma refs_okI:
  assumes "distinct (map fst (UsersMap s))" and "distinct (map fst (ActiveUsersMap s))"
    and "\<And>k r. (k, r) \<in> set (UsersMap s) \<Longrightarrow> r < length (heap s) \<and> username (the_user s r) = k"
    and "\<And>k r. (k, r) \<in> set (ActiveUsersMap s) \<Longrightarrow> r < length (heap s)"
    and "\<And>r. r < length (heap s) \<Longrightarrow> set (followers (the_user s r)) \<union> set (blockingUsers (the_user s r)) \<subseteq> {..<length (heap s)}"
  shows "refs_ok s"
  using assms unfolding refs_ok_def by blast

lemma links_nth: "r < length (heap s) \<Longrightarrow>
    links s ! r = (username (the_user s r), followers (the_user s r), blockingUsers (the_user s r))"
  by (simp add: links_def the_user_def)

lemma links_eqD:
  assumes "links t = links s"
  shows "length (heap t) = length (heap s)"
    and "r < length (heap s) \<Longrightarrow> username (the_user t r) = username (the_user s r)
      \<and> followers (the_user t r) = followers (the_user s r) \<and> blockingUsers (the_user t r) = blockingUsers (the_user s r)"
proof -
  from assms show len: "length (heap t) = length (heap s)"
    unfolding links_def by (rule map_eq_imp_length_eq)
  show "username (the_user t r) = username (the_user s r)
      \<and> followers (the_user t r) = followers (the_user s r) \<and> blockingUsers (the_user t r) = blockingUsers (the_user s r)"
    if "r < length (heap s)"
    using links_nth [of r s] links_nth [of r t] assms len that by simp
qed

text \<open>Well-formedness is a matter of the links and the two maps.\<close>

lemma refs_ok_links:
  assumes "refs_ok s" and l: "links t = links s" and m: "UsersMap t = UsersMap s"
    and "distinct (map fst (ActiveUsersMap t))" and "\<forall>(k, r)\<in>set (ActiveUsersMap t). r < length (heap s)"
  shows "refs_ok t"
  using assms(4,5) m links_eqD [OF l] refs_okD [OF assms(1)] by (intro refs_okI) (auto split: prod.splits)

lemma refs_links:
  "refs_ok s \<Longrightarrow> links t = links s \<Longrightarrow> UsersMap t = UsersMap s \<Longrightarrow> ActiveUsersMap t = ActiveUsersMap s \<Longrightarrow> refs_ok t"
  using refs_ok_links [of s t] by (auto simp: refs_ok_def)

lemma blocks_ok_links:
  assumes "refs_ok s" and "blocks_ok s" and l: "links t = links s"
  shows "blocks_ok t"
proof -
  have "q < length (heap s)" if "r < length (heap s)" "q \<in> set (blockingUsers (the_user s r))" for q r
    using refs_okD(6) [OF assms(1)] that by auto
  with assms(2) links_eqD [OF l] show ?thesis unfolding blocks_ok_def by metis
qed

lemma wf_links:
  "wf_srv s \<Longrightarrow> links t = links s \<Longrightarrow> UsersMap t = UsersMap s \<Longrightarrow> ActiveUsersMap t = ActiveUsersMap s \<Longrightarrow> wf_srv t"
  unfolding wf_srv_def using refs_links [of s t] blocks_ok_links [of s t] by blast

section \<open>Operations that keep the links\<close>

lemma links_upd:
  assumes "\<And>u. username (f u) = username u \<and> followers (f u) = followers u \<and> blockingUsers (f u) = blockingUsers u"
  shows "links (upd r f s) = links s"
  using assms
  by (cases "r < length (heap s)")
     (simp_all add: links_def upd_def map_update list_update_same_conv list_update_beyond not_less)

lemma links_send [simp]: "links (snd (send c msg s)) = links s"
  by (simp add: links_def)

lemma links_increment [simp]: "links (incrementPostIPost s) = links s"
  by (simp add: links_def)

lemma wf_send [simp]: "wf_srv s \<Longrightarrow> wf_srv (snd (send c msg s))"
  by (rule wf_links) simp_all

lemma wf_increment [simp]: "wf_srv s \<Longrightarrow> wf_srv (incrementPostIPost s)"
  by (rule wf_links) simp_all

lemma wf_upd_neutral:
  "wf_srv s \<Longrightarrow> (\<And>u. username (f u) = username u \<and> followers (f u) = followers u \<and> blockingUsers (f u) = blockingUsers u)
   \<Longrightarrow> wf_srv (upd r f s)"
  by (rule wf_links) (simp_all add: links_upd)

lemma wf_addAwaiting [simp]: "wf_srv s \<Longrightarrow> wf_srv (upd r (addAwaiting p) s)"
  by (rule wf_upd_neutral) (simp_all add: user_defs)

lemma wf_deliver_post: "wf_srv s \<Longrightarrow> wf_srv (snd (deliver_post my message rs s))"
proof (induction rs arbitrary: s)
  case (Cons r rs)
  then show ?case
    by (auto intro!: then_do_invI [where I = wf_srv])
qed simp

lemma wf_send_awaiting: "wf_srv s \<Longrightarrow> wf_srv (snd (send_awaiting r n lim posts s))"
  by (induction posts arbitrary: s n lim)
     (auto intro!: then_do_invI [where I = wf_srv] split: prod.splits)

lemma wf_send_stats: "wf_srv s \<Longrightarrow> wf_srv (snd (send_stats J c my rs s))"
  by (induction rs arbitrary: s)
     (auto intro!: then_do_invI [where I = wf_srv] split: sum.splits)

section \<open>Operations that change them\<close>

lemma lessThan_Suc_subset: "{..<n} \<subseteq> {..<Suc n}" for n :: nat
  by auto

lemma the_user_upd: "r < length (heap s) \<Longrightarrow> q < length (heap s) \<Longrightarrow>
    the_user (upd r f s) q = (if q = r then f (the_user s r) else the_user s q)"
  by (simp add: the_user_def upd_nth)

lemma refs_lt:
  assumes "wf_srv s"
  shows "(k, r) \<in> set (UsersMap s) \<Longrightarrow> r < length (heap s)"
    and "(k, r) \<in> set (ActiveUsersMap s) \<Longrightarrow> r < length (heap s)"
    and "r < length (heap s) \<Longrightarrow> q \<in> set (followers (the_user s r)) \<Longrightarrow> q < length (heap s)"
    and "r < length (heap s) \<Longrightarrow> q \<in> set (blockingUsers (the_user s r)) \<Longrightarrow> q < length (heap s)"
proof -
  have ok: "refs_ok s" using assms by (simp add: wf_srv_def)
  show "(k, r) \<in> set (UsersMap s) \<Longrightarrow> r < length (heap s)" by (rule refs_okD(3) [OF ok])
  show "(k, r) \<in> set (ActiveUsersMap s) \<Longrightarrow> r < length (heap s)" by (rule refs_okD(5) [OF ok])
  show "r < length (heap s) \<Longrightarrow> q \<in> set (followers (the_user s r)) \<Longrightarrow> q < length (heap s)"
    "r < length (heap s) \<Longrightarrow> q \<in> set (blockingUsers (the_user s r)) \<Longrightarrow> q < length (heap s)"
    using refs_okD(6) [OF ok, of r] by auto
qed

lemma refs_ok_upd:
  assumes "refs_ok s" and "r < length (heap s)"
    and "username (f (the_user s r)) = username (the_user s r)"
    and "set (followers (f (the_user s r))) \<union> set (blockingUsers (f (the_user s r))) \<subseteq> {..<length (heap s)}"
  shows "refs_ok (upd r f s)"
proof -
  have u: "the_user (upd r f s) q = (if q = r then f (the_user s r) else the_user s q)"
    if "q < length (heap s)" for q
    using the_user_upd [OF assms(2) that] .
  show ?thesis
  proof (rule refs_okI)
    fix k q assume "(k, q) \<in> set (UsersMap (upd r f s))"
    with refs_okD(3,4) [OF assms(1)] assms(3)
    show "q < length (heap (upd r f s)) \<and> username (the_user (upd r f s) q) = k" by (auto simp: u)
  next
    fix q assume "q < length (heap (upd r f s))"
    with refs_okD(6) [OF assms(1)] assms(4) show "set (followers (the_user (upd r f s) q))
        \<union> set (blockingUsers (the_user (upd r f s) q)) \<subseteq> {..<length (heap (upd r f s))}"
      by (cases "q = r") (simp_all add: u)
  qed (use refs_okD [OF assms(1)] in auto)
qed

lemma wf_follow:
  assumes "wf_srv s" and "my < length (heap s)" and "other < length (heap s)"
    and "other \<notin> set (followers (the_user s my))" and "my \<notin> set (blockingUsers (the_user s other))"
  shows "wf_srv (upd my (incrementFollowing \<circ> addFollower other) s)"
proof -
  let ?t = "upd my (incrementFollowing \<circ> addFollower other) s"
  have u: "the_user ?t q = (if q = my then incrementFollowing (addFollower other (the_user s my)) else the_user s q)"
    if "q < length (heap s)" for q
    using the_user_upd [OF assms(2) that] by simp
  have "refs_ok ?t"
    using refs_okD(6) [OF _ assms(2)] assms(1-3)
    by (intro refs_ok_upd) (simp_all add: user_defs wf_srv_def)
  moreover have "blocks_ok ?t"
    unfolding blocks_ok_def
  proof (intro allI impI conjI ballI)
    fix r assume r: "r < length (heap ?t)"
    then show "distinct (followers (the_user ?t r))"
      using assms(1,4) u by (auto simp: wf_srv_def blocks_ok_def user_defs)
    fix q assume "q \<in> set (blockingUsers (the_user ?t r))"
    then have q: "q \<in> set (blockingUsers (the_user s r))" using u r by (auto simp: user_defs split: if_splits)
    then have "q < length (heap s)" using refs_lt(4) [OF assms(1)] r by simp
    moreover have "r \<notin> set (followers (the_user s q))"
      using assms(1) r q by (auto simp: wf_srv_def blocks_ok_def)
    ultimately show "r \<notin> set (followers (the_user ?t q))"
      using u assms(5) q by (auto simp: user_defs)
  qed
  ultimately show ?thesis by (simp add: wf_srv_def)
qed

text \<open>Dropping links keeps the state well-formed.\<close>

lemma wf_fewer:
  assumes "wf_srv s" and "my < length (heap s)"
    and f: "\<And>u. username (f u) = username u \<and> blockingUsers (f u) = blockingUsers u
      \<and> set (followers (f u)) \<subseteq> set (followers u) \<and> (distinct (followers u) \<longrightarrow> distinct (followers (f u)))"
  shows "wf_srv (upd my f s)"
proof -
  have u: "the_user (upd my f s) q = (if q = my then f (the_user s my) else the_user s q)"
    if "q < length (heap s)" for q
    using the_user_upd [OF assms(2) that] by simp
  have "refs_ok (upd my f s)"
  proof (rule refs_ok_upd)
    from assms(1) show ok: "refs_ok s" by (simp add: wf_srv_def)
    from refs_okD(6) [OF ok assms(2)] f [of "the_user s my"]
    show "set (followers (f (the_user s my))) \<union> set (blockingUsers (f (the_user s my))) \<subseteq> {..<length (heap s)}"
      by auto
  qed (use assms(2) f in simp_all)
  moreover have "blocks_ok (upd my f s)"
    unfolding blocks_ok_def
  proof (intro allI impI conjI ballI)
    fix r assume r: "r < length (heap (upd my f s))"
    then show "distinct (followers (the_user (upd my f s) r))"
      using assms(1) u f by (auto simp: wf_srv_def blocks_ok_def)
    fix q assume "q \<in> set (blockingUsers (the_user (upd my f s) r))"
    then have q: "q \<in> set (blockingUsers (the_user s r))" using u r f by (auto split: if_splits)
    then have "q < length (heap s)" using refs_lt(4) [OF assms(1)] r by simp
    moreover have "r \<notin> set (followers (the_user s q))"
      using assms(1) r q by (auto simp: wf_srv_def blocks_ok_def)
    ultimately show "r \<notin> set (followers (the_user (upd my f s) q))" using u f by auto
  qed
  ultimately show ?thesis by (simp add: wf_srv_def)
qed

lemma wf_remove:
  assumes "wf_srv s" and "my < length (heap s)"
  shows "wf_srv (upd my (removeFollower other) s)" "wf_srv (upd my (decreaseFollowing \<circ> removeFollower other) s)"
  using assms by (auto intro!: wf_fewer simp: user_defs dest: set_remove1_subset [THEN subsetD])

lemma wf_block:
  assumes wf: "wf_srv s" and my: "my < length (heap s)" and other: "other < length (heap s)"
  defines "s1 \<equiv> upd my (addBlocking other) s"
  defines "s2 \<equiv> (if other \<in> set (followers (the_user s1 my)) then upd my (removeFollower other) s1 else s1)"
  defines "s3 \<equiv> (if my \<in> set (followers (the_user s2 other)) then upd other (removeFollower my) s2 else s2)"
  shows "wf_srv s3"
proof -
  have len: "length (heap s1) = length (heap s)" "length (heap s2) = length (heap s)" "length (heap s3) = length (heap s)"
    by (simp_all add: s1_def s2_def s3_def)
  have ok: "refs_ok s" using wf by (simp add: wf_srv_def)
  have dis: "distinct (followers (the_user s q))" if "q < length (heap s)" for q
    using wf that by (auto simp: wf_srv_def blocks_ok_def)
  have u1: "the_user s1 q = (if q = my then addBlocking other (the_user s my) else the_user s q)"
    if "q < length (heap s)" for q
    unfolding s1_def by (rule the_user_upd [OF my that])
  have u2: "followers (the_user s2 q) = (if q = my then remove1 other (followers (the_user s q)) else followers (the_user s q))
      \<and> blockingUsers (the_user s2 q) = blockingUsers (the_user s1 q)"
    if q: "q < length (heap s)" for q
    using the_user_upd [of my s1 q "removeFollower other"] my q u1 [OF q] u1 [OF my]
    by (auto simp: s2_def len user_defs remove1_idem)
  have u3: "followers (the_user s3 q) = (if q = other then remove1 my (followers (the_user s2 q)) else followers (the_user s2 q))
      \<and> blockingUsers (the_user s3 q) = blockingUsers (the_user s1 q)"
    if q: "q < length (heap s)" for q
    using the_user_upd [of other s2 q "removeFollower my"] other q u2 [OF q] u2 [OF other]
    by (auto simp: s3_def len user_defs remove1_idem)
  have d2: "distinct (followers (the_user s2 q))" if "q < length (heap s)" for q
    using dis [OF that] u2 [OF that] by (auto simp: distinct_remove1)
  have sub: "set (followers (the_user s3 q)) \<subseteq> set (followers (the_user s q))" if "q < length (heap s)" for q
    using u2 [OF that] u3 [OF that] set_remove1_subset by (auto split: if_splits dest!: set_remove1_subset [THEN subsetD])
  have "refs_ok s1" unfolding s1_def
    using refs_okD(6) [OF ok my] other by (intro refs_ok_upd ok my) (auto simp: user_defs)
  then have "refs_ok s2" unfolding s2_def
    using refs_okD(6) [of s1 my] my len
    by (auto intro!: refs_ok_upd simp: user_defs dest!: set_remove1_subset [THEN subsetD])
  then have r3: "refs_ok s3" unfolding s3_def
    using refs_okD(6) [of s2 other] other len
    by (auto intro!: refs_ok_upd simp: user_defs dest!: set_remove1_subset [THEN subsetD])
  have "blocks_ok s3"
    unfolding blocks_ok_def len
  proof (intro allI impI conjI ballI)
    fix r assume r: "r < length (heap s)"
    show "distinct (followers (the_user s3 r))" using d2 [OF r] u3 [OF r] by (auto simp: distinct_remove1)
    fix q assume "q \<in> set (blockingUsers (the_user s3 r))"
    then consider "q \<in> set (blockingUsers (the_user s r))" | "r = my" "q = other"
      using u3 [OF r] u1 [OF r] by (auto simp: user_defs split: if_splits)
    then show "r \<notin> set (followers (the_user s3 q))"
    proof cases
      case 1
      with refs_lt(4) [OF wf r] sub [of q] wf r show ?thesis by (auto simp: wf_srv_def blocks_ok_def)
    next
      case 2
      with u3 [OF other] d2 [OF other] show ?thesis by simp
    qed
  qed
  with r3 show ?thesis by (simp add: wf_srv_def)
qed

lemma set_update: "set (AList.update k v m) \<subseteq> insert (k, v) (set m)"
  by (induction m) auto

lemma refs_register:
  assumes ok: "refs_ok s"
  shows "refs_ok (s\<lparr>heap := heap s @ [User un pw bd], UsersMap := AList.update un (length (heap s)) (UsersMap s)\<rparr>)"
    (is "refs_ok ?t")
proof (rule refs_okI)
  have u: "the_user ?t q = (if q < length (heap s) then the_user s q else User un pw bd)" if "q < Suc (length (heap s))" for q
    using that by (simp add: the_user_def nth_append)
  show "distinct (map fst (UsersMap ?t))" using AList.distinct_update [OF refs_okD(1) [OF ok]] by simp
  show "distinct (map fst (ActiveUsersMap ?t))" using refs_okD(2) [OF ok] by simp
  show "r < length (heap ?t) \<and> username (the_user ?t r) = k" if "(k, r) \<in> set (UsersMap ?t)" for k r
  proof -
    from that consider "(k, r) \<in> set (UsersMap s)" | "k = un" "r = length (heap s)"
      using set_update [of un "length (heap s)" "UsersMap s"] by auto
    then show ?thesis
    proof cases
      case 1
      with refs_okD(3,4) [OF ok 1] show ?thesis by (simp add: u)
    qed (simp add: the_user_def User_def)
  qed
  show "r < length (heap ?t)" if "(k, r) \<in> set (ActiveUsersMap ?t)" for k r
    using refs_okD(5) [OF ok, of k r] that by simp
  show "set (followers (the_user ?t r)) \<union> set (blockingUsers (the_user ?t r)) \<subseteq> {..<length (heap ?t)}"
    if "r < length (heap ?t)" for r
    using refs_okD(6) [OF ok, of r] u [of r] subset_trans [OF _ lessThan_Suc_subset] that
    by (cases "r < length (heap s)") (simp_all add: User_def)
qed

lemma wf_register:
  assumes wf: "wf_srv s"
  shows "wf_srv (s\<lparr>heap := heap s @ [User un pw bd], UsersMap := AList.update un (length (heap s)) (UsersMap s)\<rparr>)"
    (is "wf_srv ?t")
proof -
  have u: "the_user ?t q = (if q < length (heap s) then the_user s q else User un pw bd)" if "q < Suc (length (heap s))" for q
    using that by (simp add: the_user_def nth_append)
  have "blocks_ok ?t"
    unfolding blocks_ok_def
  proof (intro allI impI conjI ballI)
    fix r assume r: "r < length (heap ?t)"
    with wf u [of r] show "distinct (followers (the_user ?t r))" by (auto simp: wf_srv_def blocks_ok_def User_def)
    fix q assume q: "q \<in> set (blockingUsers (the_user ?t r))"
    with u [of r] r have r': "r < length (heap s)" "q \<in> set (blockingUsers (the_user s r))"
      by (auto simp: User_def split: if_splits)
    with refs_lt(4) [OF wf r'] u [of q] wf show "r \<notin> set (followers (the_user ?t q))"
      by (auto simp: wf_srv_def blocks_ok_def)
  qed
  with refs_register wf show ?thesis by (simp add: wf_srv_def)
qed

lemma refs_enter_active:
  assumes ok: "refs_ok s" and r: "r < length (heap s)"
  shows "refs_ok (s\<lparr>ActiveUsersMap := AList.update un r (ActiveUsersMap s)\<rparr>)" (is "refs_ok ?t")
proof (rule refs_ok_links [OF ok])
  show "distinct (map fst (ActiveUsersMap ?t))"
    using AList.distinct_update [OF refs_okD(2) [OF ok]] by simp
  show "\<forall>(k, q)\<in>set (ActiveUsersMap ?t). q < length (heap s)"
  proof clarify
    fix k q assume "(k, q) \<in> set (ActiveUsersMap ?t)"
    then have "(k, q) = (un, r) \<or> (k, q) \<in> set (ActiveUsersMap s)"
      using set_update [of un r "ActiveUsersMap s"] by auto
    with r show "q < length (heap s)" using refs_okD(5) [OF ok, of k q] by blast
  qed
qed (simp_all add: links_def)

lemma wf_enter_active:
  assumes wf: "wf_srv s" and r: "r < length (heap s)"
  shows "wf_srv (s\<lparr>ActiveUsersMap := AList.update un r (ActiveUsersMap s)\<rparr>)" (is "wf_srv ?t")
proof -
  have "blocks_ok ?t"
    by (rule blocks_ok_links [of s]) (use wf in \<open>simp_all add: wf_srv_def links_def\<close>)
  with refs_enter_active [OF _ r] wf show ?thesis by (simp add: wf_srv_def)
qed

lemma wf_activate:
  assumes "wf_srv s" and "r < length (heap s)"
  shows "wf_srv (upd r (setConnId c \<circ> activate) (s\<lparr>ActiveUsersMap := AList.update un r (ActiveUsersMap s)\<rparr>))"
  by (rule wf_upd_neutral [OF wf_enter_active [OF assms]]) (simp add: user_defs)

section \<open>Every call of \<open>process\<close>\<close>

text \<open>The machine of a server: its maps visit their values in some order.\<close>

locale server_jvm = map_order "map_values J" for J :: jvm
begin

lemma refs_found:
  assumes "refs_ok s"
  shows "find P (registered J s) = Some r \<Longrightarrow> r < length (heap s) \<and> P r"
    and "find P (active J s) = Some r \<Longrightarrow> r < length (heap s) \<and> P r"
  using find_vals_Some [of "UsersMap s" P r] find_vals_Some [of "ActiveUsersMap s" P r] refs_okD(1-3,5) [OF assms]
  by (auto simp: registered_def active_def)

lemma found_registered: "wf_srv s \<Longrightarrow> find P (registered J s) = Some r \<Longrightarrow> r < length (heap s) \<and> P r"
  by (rule refs_found(1)) (simp add: wf_srv_def)

lemma found_active: "wf_srv s \<Longrightarrow> find P (active J s) = Some r \<Longrightarrow> r < length (heap s) \<and> P r"
  by (rule refs_found(2)) (simp add: wf_srv_def)

lemma set_registered: "wf_srv s \<Longrightarrow> set (registered J s) = snd ` set (UsersMap s)"
  using set_vals [of "UsersMap s"] refs_okD(1) [of s] by (simp add: registered_def wf_srv_def)

lemma wf_do_register: "wf_srv s \<Longrightarrow> wf_srv (snd (do_register J c message s))"
  by (auto simp: do_register_def Let_def intro!: wf_register wf_send)

lemma wf_do_login:
  assumes wf: "wf_srv s"
  shows "wf_srv (snd (do_login J c message s))"
proof (cases "find (name_contains (java_split NUL message ! 0) s) (registered J s)")
  case None
  with wf show ?thesis by (simp add: do_login_def Let_def)
next
  case (Some r)
  with wf have r: "r < length (heap s)" using found_registered by blast
  show ?thesis
    unfolding do_login_def Let_def Some
    by (auto intro!: then_do_invI [where I = wf_srv] wf_send wf_send_awaiting wf_activate [OF wf r] wf)
qed

lemma wf_do_logout: "wf_srv s \<Longrightarrow> wf_srv (snd (do_logout J c s))"
  by (auto simp: do_logout_def user_defs split: option.splits intro!: wf_send wf_upd_neutral)

lemma wf_do_follow: "wf_srv s \<Longrightarrow> wf_srv (snd (do_follow J c message s))"
  using found_registered found_active
  by (fastforce simp: do_follow_def Let_def split: option.splits intro!: wf_send wf_follow wf_remove)

lemma wf_do_post: "wf_srv s \<Longrightarrow> wf_srv (snd (do_post J c message s))"
  by (auto simp: do_post_def Let_def split: option.splits intro!: then_do_invI [where I = wf_srv] wf_deliver_post)

lemma wf_do_pm: "wf_srv s \<Longrightarrow> wf_srv (snd (do_pm J c message s))"
  by (auto simp: do_pm_def Let_def split: option.splits intro!: then_do_invI [where I = wf_srv])

lemma wf_do_logstat: "wf_srv s \<Longrightarrow> wf_srv (snd (do_logstat J c s))"
  by (auto simp: do_logstat_def split: option.splits intro!: wf_send_stats)

lemma wf_do_stat: "wf_srv s \<Longrightarrow> wf_srv (snd (do_stat J c message s))"
  by (auto simp: do_stat_def split: list.splits)

lemma wf_do_block:
  assumes "wf_srv s"
  shows "wf_srv (snd (do_block J c message s))"
proof (cases "find (serves c s) (active J s)")
  case None
  with assms show ?thesis by (auto simp: do_block_def)
next
  case (Some my)
  note my = this
  show ?thesis
  proof (cases "find (named_in message s) (registered J s)")
    case None
    with my assms show ?thesis by (auto simp: do_block_def)
  next
    case (Some other)
    with my wf_block [OF assms, of my other] found_registered [OF assms Some] found_active [OF assms my] assms
    show ?thesis by (auto simp: do_block_def Let_def intro!: wf_send)
  qed
qed

lemmas wf_handlers = wf_do_register wf_do_login wf_do_logout wf_do_follow wf_do_post wf_do_pm
  wf_do_logstat wf_do_stat wf_do_block

lemma wf_process: "wf_srv s \<Longrightarrow> wf_srv (snd (process J c message s))"
  by (auto simp: process_def Let_def intro!: wf_handlers)

end

interpretation bins_jvm: server_jvm "\<lparr>map_values = bin_order, current_year = y\<rparr>"
  by unfold_locales (simp add: bins.vals_mset)

lemma wf_new_srv: "wf_srv (new_srv ws)"
  by (simp add: wf_srv_def refs_ok_def blocks_ok_def new_srv_def)

end
