(* ===== verification/ServerLoop.thy ===== *)
theory ServerLoop
  imports ServerInv
begin

text \<open>
  The server with one thread per client: the accept loop of \<open>srv/BaseServer.java\<close> and the read
  loop \<open>ConnectionHandlerImpl.run\<close>, in which the codec and the protocol of a connection meet.
\<close>

section \<open>The read loop\<close>

text \<open>
  The object of one connection. \<open>connected\<close> is lowered by \<open>close\<close>, which nobody calls, and
  \<open>done_flag\<close> is the field \<open>shouldTerminate\<close> of the protocol, which nothing assigns.
  \<open>open_sock\<close> says that the thread is in its loop and its socket open: the loop ends with the
  end of the stream, or with an exception of \<open>process\<close>, and then the socket is closed.
\<close>

record conn =
  connId_of :: int
  encdec :: codec
  done_flag :: bool
  connected :: bool
  open_sock :: bool

definition new_conn :: "int \<Rightarrow> conn" where
  "new_conn c = \<lparr>connId_of = c, encdec = new_codec, done_flag = False, connected = True, open_sock = True\<rparr>"

text \<open>The turns of the loop for the bytes that arrive; it stays in \<open>read\<close> after them.\<close>

fun run_loop :: "jvm \<Rightarrow> bytes \<Rightarrow> conn \<Rightarrow> srv \<Rightarrow> conn \<times> outcome" where
  "run_loop J [] k s = (k, None, s)"
| "run_loop J (b # bs) k s =
     (if \<not> done_flag k \<and> connected k
      then (case decodeNextByte b (encdec k) of
              (None, d) \<Rightarrow> run_loop J bs (k\<lparr>encdec := d\<rparr>) s
            | (Some nextMessage, d) \<Rightarrow>
                (case process J (connId_of k) nextMessage s of
                   (None, s1) \<Rightarrow> run_loop J bs (k\<lparr>encdec := d\<rparr>) s1
                 | (Some e, s1) \<Rightarrow> (k\<lparr>encdec := d, open_sock := False\<rparr>, Some e, s1)))
      else (k\<lparr>open_sock := False\<rparr>, None, s))"

definition close_handler :: "conn \<Rightarrow> conn" where
  "close_handler k = k\<lparr>connected := False, open_sock := False\<rparr>"

lemma closed_reads_nothing: "snd (run_loop J bs (close_handler k) s) = (None, s)"
  by (cases bs) (simp_all add: close_handler_def)

section \<open>The server\<close>

record server =
  shared :: srv
  connectionId :: int32
  conns :: "(int \<times> conn) list"

definition BaseServer :: "server" where
  "BaseServer =
     \<lparr>shared = new_srv [''Banana'', ''Gerev'', ''COVID'', ''sababa'', ''bahamas''],
      connectionId = 0, conns = []\<rparr>"

text \<open>One turn of \<open>serve\<close>: a client has connected.\<close>

definition accept :: "server \<Rightarrow> server" where
  "accept S =
     (let c = sint (connectionId S)
      in S\<lparr>shared := (shared S)\<lparr>connectionsMap := List.insert c (connectionsMap (shared S))\<rparr>,
           connectionId := connectionId S + 1, conns := AList.update c (new_conn c) (conns S)\<rparr>)"

text \<open>What the world does to the server.\<close>

datatype event = Accept | Bytes int bytes | Eof int

fun serve :: "jvm \<Rightarrow> event \<Rightarrow> server \<Rightarrow> server" where
  "serve J Accept S = accept S"
| "serve J (Bytes c bs) S =
     (case map_of (conns S) c of
        None \<Rightarrow> S
      | Some k \<Rightarrow>
          if open_sock k
          then let (k', e, s') = run_loop J bs k (shared S)
               in S\<lparr>shared := s', conns := AList.update c k' (conns S)\<rparr>
          else S)"
| "serve J (Eof c) S =
     (case map_of (conns S) c of
        None \<Rightarrow> S
      | Some k \<Rightarrow> S\<lparr>conns := AList.update c (k\<lparr>open_sock := False\<rparr>) (conns S)\<rparr>)"

inductive reached :: "jvm \<Rightarrow> server \<Rightarrow> bool" for J where
  init: "reached J BaseServer"
| event: "reached J S \<Longrightarrow> reached J (serve J ev S)"

section \<open>The loop is the codec followed by the protocol\<close>

definition process_all :: "jvm \<Rightarrow> int \<Rightarrow> string list \<Rightarrow> srv \<Rightarrow> outcome" where
  "process_all J c ms s = foldl (\<lambda>p m. then_do p (process J c m)) (None, s) ms"

lemma foldl_then_do_stuck [simp]: "foldl (\<lambda>p m. then_do p (g m)) (Some e, s) ms = (Some e, s)"
  by (induction ms) simp_all

lemma process_all_simps [simp]:
  "process_all J c [] s = (None, s)"
  "process_all J c (m # ms) s = then_do (process J c m s) (process_all J c ms)"
  by (simp add: process_all_def) (cases "process J c m s"; cases "fst (process J c m s)"; simp add: process_all_def)

text \<open>Invariants of \<open>process\<close> are invariants of everything the server does.\<close>

lemma run_loop_inv:
  assumes "\<And>m s. I s \<Longrightarrow> I (snd (process J (connId_of k) m s))"
  shows "I s \<Longrightarrow> I (snd (snd (run_loop J bs k s)))"
  using assms
proof (induction bs arbitrary: k s)
  case (Cons b bs)
  show ?case
  proof (cases "decodeNextByte b (encdec k)")
    case (Pair r d)
    show ?thesis
    proof (cases r)
      case None
      with Pair Cons.IH [of s "k\<lparr>encdec := d\<rparr>"] Cons.prems show ?thesis by simp
    next
      case (Some m)
      obtain e s1 where p: "process J (connId_of k) m s = (e, s1)" by fastforce
      with Cons.prems have "I s1" by (metis snd_conv)
      with Pair Some p Cons.IH [of s1 "k\<lparr>encdec := d\<rparr>"] Cons.prems show ?thesis
        by (cases e) simp_all
    qed
  qed
qed simp

text \<open>An exception ends the loop; otherwise the codec has consumed the bytes.\<close>

lemma run_loop_eq:
  assumes "\<not> done_flag k" and "connected k" and "feed decodeNextByte bs (encdec k) = (ms, d)"
  shows "snd (run_loop J bs k s) = process_all J (connId_of k) ms s
    \<and> (fst (process_all J (connId_of k) ms s) = None \<longrightarrow> fst (run_loop J bs k s) = k\<lparr>encdec := d\<rparr>)
    \<and> (fst (process_all J (connId_of k) ms s) \<noteq> None \<longrightarrow> \<not> open_sock (fst (run_loop J bs k s)))"
  using assms
proof (induction bs arbitrary: k s ms)
  case (Cons b bs)
  obtain r d1 where b: "decodeNextByte b (encdec k) = (r, d1)" by fastforce
  obtain ms1 where f: "feed decodeNextByte bs d1 = (ms1, d)"
    and ms: "ms = (case r of None \<Rightarrow> ms1 | Some m \<Rightarrow> m # ms1)"
    using Cons.prems(3) b by (auto split: prod.splits)
  note IH = Cons.IH [of "k\<lparr>encdec := d1\<rparr>" ms1, simplified, OF Cons.prems(1,2) f]
  show ?case
  proof (cases r)
    case None
    with IH [of s] b ms Cons.prems(1,2) show ?thesis by simp
  next
    case (Some m)
    obtain e s1 where p: "process J (connId_of k) m s = (e, s1)" by fastforce
    with Some IH [of s1] b ms Cons.prems(1,2) show ?thesis by (cases e) simp_all
  qed
qed simp

section \<open>Invariants of the server\<close>

text \<open>Every connection runs the protocol with its own id, and nothing has ended its loop but an
  exception or the end of its stream.\<close>

definition conns_ok :: "server \<Rightarrow> bool" where
  "conns_ok S \<longleftrightarrow>
     (\<forall>(c, k)\<in>set (conns S). connId_of k = c \<and> \<not> done_flag k \<and> connected k \<and> codec_inv (encdec k))"

lemma conns_okD:
  "conns_ok S \<Longrightarrow> map_of (conns S) c = Some k \<Longrightarrow>
     connId_of k = c \<and> \<not> done_flag k \<and> connected k \<and> codec_inv (encdec k)"
  by (auto simp: conns_ok_def dest!: map_of_SomeD)

lemma conns_ok_update:
  "conns_ok S \<Longrightarrow> connId_of k = c \<Longrightarrow> \<not> done_flag k \<Longrightarrow> connected k \<Longrightarrow> codec_inv (encdec k) \<Longrightarrow>
   conns S' = AList.update c k (conns S) \<Longrightarrow> conns_ok S'"
  using set_update [of c k "conns S"] by (fastforce simp: conns_ok_def)

lemma run_loop_conn:
  "\<not> done_flag k \<Longrightarrow> connected k \<Longrightarrow> codec_inv (encdec k) \<Longrightarrow> run_loop J bs k s = (k', p) \<Longrightarrow>
     connId_of k' = connId_of k \<and> \<not> done_flag k' \<and> connected k' \<and> codec_inv (encdec k')"
proof (induction bs arbitrary: k s)
  case (Cons b bs)
  obtain r d where b: "decodeNextByte b (encdec k) = (r, d)" by fastforce
  with Cons.prems(3) have d: "codec_inv d"
    by (auto simp: decodeNextByte_def popString_props pushByte_props split: if_splits)
  from Cons.IH [of "k\<lparr>encdec := d\<rparr>"] Cons.prems b d show ?case
    by (auto split: option.splits prod.splits)
qed auto

lemma conns_ok_serve: "conns_ok S \<Longrightarrow> conns_ok (serve J ev S)"
proof (cases ev)
  case Accept
  assume "conns_ok S"
  show ?thesis unfolding Accept serve.simps
    by (rule conns_ok_update [of S "new_conn (sint (connectionId S))" "sint (connectionId S)"])
       (simp_all add: \<open>conns_ok S\<close> accept_def Let_def new_conn_def)
next
  case (Bytes c bs)
  assume ok: "conns_ok S"
  show ?thesis
  proof (cases "map_of (conns S) c")
    case None
    with ok Bytes show ?thesis by simp
  next
    case (Some k)
    obtain k' e s' where r: "run_loop J bs k (shared S) = (k', e, s')" by (metis prod.exhaust)
    from conns_okD [OF ok Some] run_loop_conn [of k J bs "shared S" k' "(e, s')"] r
    have "connId_of k' = c \<and> \<not> done_flag k' \<and> connected k' \<and> codec_inv (encdec k')" by simp
    with ok Bytes Some r show ?thesis by (auto intro: conns_ok_update [of S k' c])
  qed
next
  case (Eof c)
  assume ok: "conns_ok S"
  show ?thesis
  proof (cases "map_of (conns S) c")
    case None
    with ok Eof show ?thesis by simp
  next
    case (Some k)
    with ok Eof conns_okD [OF ok Some] show ?thesis
      by (auto intro: conns_ok_update [of S "k\<lparr>open_sock := False\<rparr>" c])
  qed
qed

lemma conns_ok_reached: "reached J S \<Longrightarrow> conns_ok S"
  by (induction rule: reached.induct) (auto simp: conns_ok_serve, simp add: conns_ok_def BaseServer_def)

text \<open>
  What the protocol preserves for the connection an event comes from, and a new connection too,
  holds of the shared state after the event.
\<close>

lemma serve_inv:
  assumes "conns_ok S" and "I (shared S)"
    and "\<And>c bs m s. ev = Bytes c bs \<Longrightarrow> I s \<Longrightarrow> I (snd (process J c m s))"
    and "\<And>cs s. I s \<Longrightarrow> I (s\<lparr>connectionsMap := cs\<rparr>)"
  shows "I (shared (serve J ev S))"
proof (cases ev)
  case (Bytes c bs)
  show ?thesis
  proof (cases "map_of (conns S) c")
    case None
    with assms(2) Bytes show ?thesis by simp
  next
    case (Some k)
    with conns_okD [OF assms(1)] have "connId_of k = c" by blast
    with run_loop_inv [of I J k "shared S" bs] assms(2,3) Bytes
    have "I (snd (snd (run_loop J bs k (shared S))))" by blast
    with Bytes Some assms(2) show ?thesis by (auto split: prod.split)
  qed
qed (auto simp: accept_def Let_def assms split: option.split)

context server_jvm
begin

lemma wf_conns: "wf_srv s \<Longrightarrow> wf_srv (s\<lparr>connectionsMap := cs\<rparr>)"
  by (rule wf_links) (simp_all add: links_def)

lemma wf_reached: "reached J S \<Longrightarrow> wf_srv (shared S)"
proof (induction rule: reached.induct)
  case init
  then show ?case by (simp add: BaseServer_def wf_new_srv)
next
  case (event S ev)
  show ?case
    by (rule serve_inv [where I = wf_srv, OF conns_ok_reached [OF event.hyps] event.IH])
       (erule wf_process, erule wf_conns)
qed

end

end
