(* ===== verification/ServerProps.thy ===== *)
theory ServerProps
  imports ServerLoop
begin

text \<open>
  What the protocol of the server does: who is logged in, who receives what, and which requests
  end a connection.
\<close>

section \<open>Who is logged in\<close>

text \<open>The part of the users that LOGIN and LOGOUT change.\<close>

definition logins :: "srv \<Rightarrow> (bool \<times> int) list" where
  "logins s = map (\<lambda>u. (isActivated u, connId u)) (heap s)"

lemma logins_nth: "r < length (heap s) \<Longrightarrow> logins s ! r = (isActivated (the_user s r), connId (the_user s r))"
  by (simp add: logins_def the_user_def)

lemma length_logins [simp]: "length (logins s) = length (heap s)"
  by (simp add: logins_def)

lemma logins_frame [simp]:
  "logins (snd (send c msg s)) = logins s" "logins (incrementPostIPost s) = logins s"
  "logins (s\<lparr>ActiveUsersMap := am\<rparr>) = logins s" "logins (s\<lparr>connectionsMap := cs\<rparr>) = logins s"
  by (simp_all add: logins_def)

lemma logins_upd: "(\<And>u. isActivated (f u) = isActivated u \<and> connId (f u) = connId u) \<Longrightarrow> logins (upd r f s) = logins s"
  by (cases "r < length (heap s)")
     (simp_all add: logins_def upd_def map_update list_update_same_conv list_update_beyond not_less)

lemma logins_upd_neutral [simp]:
  "logins (upd r (addAwaiting p) s) = logins s" "logins (upd r (addBlocking q) s) = logins s"
  "logins (upd r (removeFollower q) s) = logins s"
  "logins (upd r (incrementFollowing \<circ> addFollower q) s) = logins s"
  "logins (upd r (decreaseFollowing \<circ> removeFollower q) s) = logins s"
  by (rule logins_upd, simp add: user_defs)+

text \<open>A sequence of steps that keep the logins keeps them.\<close>

lemma logins_then_do:
  "logins (snd p) = L \<Longrightarrow> (\<And>s. logins s = L \<Longrightarrow> logins (snd (f s)) = L) \<Longrightarrow> logins (snd (then_do p f)) = L"
  by (rule then_do_invI [where I = "\<lambda>s. logins s = L"])

lemma logins_deliver_post: "logins s = L \<Longrightarrow> logins (snd (deliver_post my message rs s)) = L"
  by (induction rs arbitrary: s) (auto intro!: logins_then_do)

lemma logins_send_awaiting: "logins s = L \<Longrightarrow> logins (snd (send_awaiting r n lim posts s)) = L"
  by (induction posts arbitrary: s n lim) (auto intro!: logins_then_do split: prod.splits)

lemma logins_send_stats: "logins s = L \<Longrightarrow> logins (snd (send_stats J c my rs s)) = L"
  by (induction rs arbitrary: s) (auto intro!: logins_then_do split: sum.splits)

lemma logins_follow: "logins (snd (do_follow J c message s)) = logins s"
  by (auto simp: do_follow_def Let_def split: option.splits)

lemma logins_post: "logins (snd (do_post J c message s)) = logins s"
  by (auto simp: do_post_def Let_def split: option.splits intro!: logins_then_do logins_deliver_post)

lemma logins_pm: "logins (snd (do_pm J c message s)) = logins s"
  by (auto simp: do_pm_def Let_def split: option.splits intro!: logins_then_do)

lemma logins_stats: "logins (snd (do_logstat J c s)) = logins s" "logins (snd (do_stat J c message s)) = logins s"
  by (auto simp: do_logstat_def do_stat_def split: option.splits list.splits intro!: logins_send_stats)

lemma logins_block: "logins (snd (do_block J c message s)) = logins s"
  by (auto simp: do_block_def Let_def split: option.splits)

lemma logins_register:
  "logins (snd (do_register J c message s)) = logins s \<or> logins (snd (do_register J c message s)) = logins s @ [(False, -1)]"
  by (auto simp: do_register_def Let_def) (simp add: logins_def User_def)

lemma logins_logout:
  assumes "logins (snd (do_logout J c s)) \<noteq> logins s"
  obtains r where "find (serves c s) (active J s) = Some r" and "logins (snd (do_logout J c s)) = (logins s)[r := (False, c)]"
proof (cases "find (serves c s) (active J s)")
  case None
  with assms show ?thesis by (simp add: do_logout_def)
next
  case (Some r)
  then have "connId (heap s ! r) = c" using find_Some_iff by (metis serves_def the_user_def)
  then have "logins (upd r deActivate s) = (logins s)[r := (False, c)]"
    by (simp add: logins_def upd_def map_update user_defs)
  with that Some show ?thesis by (simp add: do_logout_def)
qed

text \<open>The arguments of a LOGIN that succeeds.\<close>

definition admits :: "string \<Rightarrow> srv \<Rightarrow> nat \<Rightarrow> bool" where
  "admits message s r \<longleftrightarrow>
     (let args = java_split NUL message
      in 3 \<le> length args \<and> name_contains (args ! 0) s r \<and> password (the_user s r) = args ! 1
       \<and> args ! 2 = ''1'' \<and> \<not> isActivated (the_user s r))"

lemma logins_login:
  assumes "logins (snd (do_login J c message s)) \<noteq> logins s"
  obtains r where "admits message s r" and "logins (snd (do_login J c message s)) = (logins s)[r := (True, c)]"
proof -
  let ?args = "java_split NUL message"
  from assms obtain r where r: "find (name_contains (?args ! 0) s) (registered J s) = Some r"
    "3 \<le> length ?args" "password (the_user s r) = ?args ! 1" "?args ! 2 = ''1''" "\<not> isActivated (the_user s r)"
    by (auto simp: do_login_def Let_def split: option.splits if_splits)
  then have "admits message s r" using find_Some_iff by (metis admits_def)
  moreover have "logins (upd r (setConnId c \<circ> activate) (s\<lparr>ActiveUsersMap := am\<rparr>)) = (logins s)[r := (True, c)]" for am
    by (simp add: logins_def upd_def map_update user_defs)
  then have "logins (snd (do_login J c message s)) = (logins s)[r := (True, c)]"
    using r by (auto simp: do_login_def Let_def intro!: logins_then_do logins_send_awaiting)
  ultimately show ?thesis using that by blast
qed

lemma logins_process:
  assumes "logins (snd (process J c m s)) \<noteq> logins s"
  obtains (register) "logins (snd (process J c m s)) = logins s @ [(False, -1)]"
  | (login) r where "take 2 m = ''02''" and "admits (drop 2 m) s r"
      and "logins (snd (process J c m s)) = (logins s)[r := (True, c)]"
  | (logout) r where "take 2 m = ''03''" and "find (serves c s) (active J s) = Some r"
      and "logins (snd (process J c m s)) = (logins s)[r := (False, c)]"
proof -
  consider "take 2 m = ''01''" | "take 2 m = ''02''" | "take 2 m = ''03''" | "take 2 m \<notin> {''01'', ''02'', ''03''}" by blast
  then show thesis
  proof cases
    case 1
    with assms logins_register register show ?thesis by (auto simp: process_def split: if_splits)
  next
    case 2
    with assms have "logins (snd (do_login J c (drop 2 m) s)) \<noteq> logins s"
      and p: "process J c m s = do_login J c (drop 2 m) s" by (auto simp: process_def split: if_splits)
    then show ?thesis using logins_login login [OF 2] by metis
  next
    case 3
    with assms have "logins (snd (do_logout J c s)) \<noteq> logins s"
      and p: "process J c m s = do_logout J c s" by (auto simp: process_def split: if_splits)
    then show ?thesis using logins_logout logout [OF 3] by metis
  next
    case 4
    with assms show ?thesis
      by (auto simp: process_def Let_def logins_follow logins_post logins_pm logins_stats logins_block split: if_splits)
  qed
qed

section \<open>The map of the active users never shrinks\<close>

lemma active_frame [simp]:
  "ActiveUsersMap (snd (deliver_post my message rs s)) = ActiveUsersMap s"
  "ActiveUsersMap (snd (send_awaiting r n lim posts s)) = ActiveUsersMap s"
  "ActiveUsersMap (snd (send_stats J c my rs s)) = ActiveUsersMap s"
proof -
  show "ActiveUsersMap (snd (deliver_post my message rs s)) = ActiveUsersMap s"
    by (induction rs arbitrary: s) (auto simp: snd_then_do)
  show "ActiveUsersMap (snd (send_awaiting r n lim posts s)) = ActiveUsersMap s"
    by (induction posts arbitrary: s n lim) (auto simp: snd_then_do split: prod.splits)
  show "ActiveUsersMap (snd (send_stats J c my rs s)) = ActiveUsersMap s"
    by (induction rs arbitrary: s) (auto simp: snd_then_do split: sum.splits)
qed

lemma keys_update: "fst ` set m \<subseteq> fst ` set (AList.update k v m)"
  by (induction m) auto

lemma active_handlers:
  "ActiveUsersMap (snd (do_register J c message s)) = ActiveUsersMap s"
  "ActiveUsersMap (snd (do_logout J c s)) = ActiveUsersMap s"
  "ActiveUsersMap (snd (do_follow J c message s)) = ActiveUsersMap s"
  "ActiveUsersMap (snd (do_post J c message s)) = ActiveUsersMap s"
  "ActiveUsersMap (snd (do_pm J c message s)) = ActiveUsersMap s"
  "ActiveUsersMap (snd (do_logstat J c s)) = ActiveUsersMap s"
  "ActiveUsersMap (snd (do_stat J c message s)) = ActiveUsersMap s"
  "ActiveUsersMap (snd (do_block J c message s)) = ActiveUsersMap s"
         apply (simp add: do_register_def Let_def)
        apply (simp add: do_logout_def split: option.split)
       apply (simp add: do_follow_def Let_def split: option.split)
      apply (simp add: do_post_def Let_def snd_then_do split: option.split)
     apply (simp add: do_pm_def Let_def snd_then_do split: option.split)
    apply (simp add: do_logstat_def split: option.split)
   apply (simp add: do_stat_def split: list.split)
  apply (simp add: do_block_def Let_def split: option.split)
  done

lemma active_login:
  "fst ` set (ActiveUsersMap s) \<subseteq> fst ` set (ActiveUsersMap (snd (do_login J c message s)))"
  using keys_update [of "ActiveUsersMap s"] by (simp add: do_login_def Let_def snd_then_do split: option.split)

lemma active_process:
  "fst ` set (ActiveUsersMap s) \<subseteq> fst ` set (ActiveUsersMap (snd (process J c m s)))"
  by (simp add: process_def Let_def active_handlers active_login)

section \<open>Runs\<close>

text \<open>A run is a list of events.\<close>

definition run :: "jvm \<Rightarrow> event list \<Rightarrow> server \<Rightarrow> server" where
  "run J evs S = fold (serve J) evs S"

lemma run_simps [simp]: "run J [] S = S" "run J (ev # evs) S = run J evs (serve J ev S)"
  by (simp_all add: run_def)

lemma reached_run: "reached J S \<Longrightarrow> reached J (run J evs S)"
  by (induction evs arbitrary: S) (auto intro: reached.event)

lemma run_inv:
  assumes "reached J S" and "I (shared S)"
    and "\<And>c bs m s. Bytes c bs \<in> set evs \<Longrightarrow> I s \<Longrightarrow> I (snd (process J c m s))"
    and "\<And>cs s. I s \<Longrightarrow> I (s\<lparr>connectionsMap := cs\<rparr>)"
  shows "I (shared (run J evs S))"
  using assms(1-3)
proof (induction evs arbitrary: S)
  case (Cons ev evs)
  have "I (shared (serve J ev S))"
    by (rule serve_inv [where I = I, OF conns_ok_reached [OF Cons.prems(1)] Cons.prems(2)])
       (use Cons.prems(3) assms(4) in auto)
  from Cons.IH [OF reached.event [OF Cons.prems(1)] this] Cons.prems(3) show ?case by force
qed simp

lemma active_run:
  assumes "reached J S"
  shows "fst ` set (ActiveUsersMap (shared S)) \<subseteq> fst ` set (ActiveUsersMap (shared (run J evs S)))"
proof (rule run_inv [where I = "\<lambda>s. fst ` set (ActiveUsersMap (shared S)) \<subseteq> fst ` set (ActiveUsersMap s)", OF assms])
  show "fst ` set (ActiveUsersMap (shared S)) \<subseteq> fst ` set (ActiveUsersMap (snd (process J c m s)))"
    if "fst ` set (ActiveUsersMap (shared S)) \<subseteq> fst ` set (ActiveUsersMap s)" for c m s
    using that active_process by (rule subset_trans)
qed simp_all

text \<open>Messages that arrive on a connection whose codec is between two messages.\<close>

definition idle :: "server \<Rightarrow> int \<Rightarrow> bool" where
  "idle S c \<longleftrightarrow> (\<exists>k. map_of (conns S) c = Some k \<and> open_sock k \<and> unfinished (encdec k) = [])"

definition ended :: "server \<Rightarrow> int \<Rightarrow> bool" where
  "ended S c \<longleftrightarrow> (\<exists>k. map_of (conns S) c = Some k \<and> \<not> open_sock k)"

definition wire :: "string list \<Rightarrow> bytes" where
  "wire ms = concat (map (\<lambda>m. m @ [SEMI]) ms)"

lemma serve_bytes:
  assumes "reached J S" and k: "map_of (conns S) c = Some k" "open_sock k"
    and f: "feed decodeNextByte bs (encdec k) = (ms, d)" and p: "process_all J c ms (shared S) = (e, s')"
  shows "shared (serve J (Bytes c bs) S) = s'"
    and "e = None \<Longrightarrow> map_of (conns (serve J (Bytes c bs) S)) c = Some (k\<lparr>encdec := d\<rparr>)"
    and "e \<noteq> None \<Longrightarrow> \<exists>k'. map_of (conns (serve J (Bytes c bs) S)) c = Some k' \<and> \<not> open_sock k'"
proof -
  from conns_okD [OF conns_ok_reached [OF assms(1)] k(1)]
  have ok: "connId_of k = c" "\<not> done_flag k" "connected k" by auto
  obtain k' e1 s1 where r: "run_loop J bs k (shared S) = (k', e1, s1)" by (metis prod.exhaust)
  note eq = run_loop_eq [OF ok(2,3) f, of J "shared S", unfolded r ok(1) p, simplified]
  show "shared (serve J (Bytes c bs) S) = s'" using eq k r by simp
  show "e = None \<Longrightarrow> map_of (conns (serve J (Bytes c bs) S)) c = Some (k\<lparr>encdec := d\<rparr>)"
    using eq k r by (simp add: update_conv')
  show "e \<noteq> None \<Longrightarrow> \<exists>k'. map_of (conns (serve J (Bytes c bs) S)) c = Some k' \<and> \<not> open_sock k'"
    using eq k r by (simp add: update_conv')
qed

lemma serve_wire:
  assumes "reached J S" and "idle S c" and "\<forall>m\<in>set ms. SEMI \<notin> set m"
    and p: "process_all J c ms (shared S) = (e, s')"
  shows "shared (serve J (Bytes c (wire ms)) S) = s'"
    and "e = None \<Longrightarrow> idle (serve J (Bytes c (wire ms)) S) c"
    and "e \<noteq> None \<Longrightarrow> ended (serve J (Bytes c (wire ms)) S) c"
proof -
  from assms(2) obtain k where k: "map_of (conns S) c = Some k" "open_sock k" "unfinished (encdec k) = []"
    by (auto simp: idle_def)
  from conns_okD [OF conns_ok_reached [OF assms(1)] k(1)] have "codec_inv (encdec k)" by blast
  from semi.feed_messages [OF this k(3) assms(3)] obtain d
    where d: "feed decodeNextByte (wire ms) (encdec k) = (ms, d)" "unfinished d = []" by (auto simp: wire_def)
  note b = serve_bytes [OF assms(1) k(1,2) d(1) p]
  show "shared (serve J (Bytes c (wire ms)) S) = s'" by (rule b(1))
  show "e = None \<Longrightarrow> idle (serve J (Bytes c (wire ms)) S) c"
    using b(2) k d by (auto simp: idle_def)
  show "e \<noteq> None \<Longrightarrow> ended (serve J (Bytes c (wire ms)) S) c"
    using b(3) by (auto simp: ended_def)
qed

lemma idle_accept: "reached J S \<Longrightarrow> idle (serve J Accept S) (sint (connectionId S))"
  by (auto simp: idle_def accept_def Let_def new_conn_def update_conv')

lemma idle_other: "c \<noteq> c' \<Longrightarrow> idle (serve J (Bytes c' bs) S) c = idle S c"
  by (auto simp: idle_def update_conv' split: option.split prod.split)

text \<open>Several clients that send whole messages: the protocol alone.\<close>

definition script :: "jvm \<Rightarrow> (int \<times> string list) list \<Rightarrow> srv \<Rightarrow> outcome" where
  "script J sc s = foldl (\<lambda>p (c, ms). then_do p (process_all J c ms)) (None, s) sc"

lemma script_simps [simp]:
  "script J [] s = (None, s)"
  "script J ((c, ms) # sc) s = then_do (process_all J c ms s) (script J sc)"
proof -
  have stuck: "foldl (\<lambda>p (c, ms). then_do p (process_all J c ms)) (Some e, s) sc = (Some e, s)" for e s
    by (induction sc) auto
  show "script J [] s = (None, s)" by (simp add: script_def)
  show "script J ((c, ms) # sc) s = then_do (process_all J c ms s) (script J sc)"
    by (simp add: script_def) (cases "process_all J c ms s"; cases "fst (process_all J c ms s)"; simp add: script_def stuck)
qed

lemma run_script:
  assumes "reached J S" and "\<forall>(c, ms)\<in>set sc. idle S c \<and> (\<forall>m\<in>set ms. SEMI \<notin> set m)"
    and "script J sc (shared S) = (None, s')"
  shows "shared (run J (map (\<lambda>(c, ms). Bytes c (wire ms)) sc) S) = s'
    \<and> (\<forall>c. idle S c \<longrightarrow> idle (run J (map (\<lambda>(c, ms). Bytes c (wire ms)) sc) S) c)"
  using assms
proof (induction sc arbitrary: S)
  case (Cons x sc)
  obtain c ms where x: "x = (c, ms)" by fastforce
  with Cons.prems(3) obtain s1 where p: "process_all J c ms (shared S) = (None, s1)"
    and q: "script J sc s1 = (None, s')" by (cases "process_all J c ms (shared S)"; cases "fst (process_all J c ms (shared S))") auto
  let ?S = "serve J (Bytes c (wire ms)) S"
  from Cons.prems(2) x have i: "idle S c" "\<forall>m\<in>set ms. SEMI \<notin> set m" by auto
  note w = serve_wire [OF Cons.prems(1) i p]
  have keep: "idle ?S c'" if "idle S c'" for c'
    using that w(2) idle_other [of c' c] by (cases "c' = c") simp_all
  then have "\<forall>(c, ms)\<in>set sc. idle ?S c \<and> (\<forall>m\<in>set ms. SEMI \<notin> set m)" using Cons.prems(2) by auto
  from Cons.IH [OF reached.event [OF Cons.prems(1)] this] q w(1) keep show ?case by (simp add: x)
qed simp

section \<open>Properties of runs\<close>

text \<open>A machine and a server with two clients for the examples.\<close>

definition jvm_demo :: jvm where
  "jvm_demo = \<lparr>map_values = bin_order, current_year = 2022\<rparr>"

lemma jvm_demo_order: "map_order (map_values jvm_demo)"
  by (simp add: jvm_demo_def bins.map_order_axioms)

definition two_clients :: server where
  "two_clients = run jvm_demo [Accept, Accept] BaseServer"

lemma two_clients:
  "shared two_clients = (new_srv [''Banana'', ''Gerev'', ''COVID'', ''sababa'', ''bahamas''])\<lparr>connectionsMap := [1, 0]\<rparr>"
  "idle two_clients 0" "idle two_clients 1"
  by (simp_all add: two_clients_def BaseServer_def accept_def Let_def new_srv_def idle_def new_conn_def)

text \<open>What a script does to it, and the server after it.\<close>

definition demo_srv :: "(int \<times> string list) list \<Rightarrow> srv" where
  "demo_srv sc = snd (script jvm_demo sc (shared two_clients))"

definition demo_server :: "(int \<times> string list) list \<Rightarrow> server" where
  "demo_server sc = run jvm_demo (map (\<lambda>(c, ms). Bytes c (wire ms)) sc) two_clients"

lemma demo_reached: "reached jvm_demo (demo_server sc)"
  unfolding demo_server_def two_clients_def by (intro reached_run reached.init)

definition script_ok :: "(int \<times> string list) list \<Rightarrow> bool" where
  "script_ok sc \<longleftrightarrow> fst (script jvm_demo sc (shared two_clients)) = None
     \<and> list_all (\<lambda>(c, ms). (c = 0 \<or> c = 1) \<and> list_all (\<lambda>m. SEMI \<notin> set m) ms) sc"

lemma demo_server:
  assumes "script_ok sc"
  shows "shared (demo_server sc) = demo_srv sc" "idle (demo_server sc) 0" "idle (demo_server sc) 1"
proof -
  have "script jvm_demo sc (shared two_clients) = (None, demo_srv sc)"
    using assms by (simp add: script_ok_def demo_srv_def prod_eq_iff)
  moreover have "\<forall>(c, ms)\<in>set sc. idle two_clients c \<and> (\<forall>m\<in>set ms. SEMI \<notin> set m)"
    using assms two_clients by (auto simp: script_ok_def list_all_iff)
  moreover have "reached jvm_demo two_clients"
    unfolding two_clients_def by (intro reached_run reached.init)
  ultimately have "shared (demo_server sc) = demo_srv sc \<and> (\<forall>c. idle two_clients c \<longrightarrow> idle (demo_server sc) c)"
    unfolding demo_server_def by (intro run_script)
  with two_clients show "shared (demo_server sc) = demo_srv sc" "idle (demo_server sc) 0" "idle (demo_server sc) 1"
    by auto
qed

text \<open>Ann and Bob register and log in; Bob follows Ann, and then she blocks him.\<close>

definition logged_in :: "(int \<times> string list) list" where
  "logged_in = [(0, [''01ann'' @ NUL # ''pa'' @ NUL # ''01-01-2000'', ''02ann'' @ NUL # ''pa'' @ NUL # ''1'']),
     (1, [''01bob'' @ NUL # ''pb'' @ NUL # ''02-02-1999'', ''02bob'' @ NUL # ''pb'' @ NUL # ''1''])]"

definition following_ann :: "(int \<times> string list) list" where
  "following_ann = logged_in @ [(1, [''040ann'' @ [NUL]])]"

definition blocked_bob :: "(int \<times> string list) list" where
  "blocked_bob = following_ann @ [(0, [''12bob'' @ [NUL]])]"

lemma scripts_ok: "script_ok logged_in" "script_ok following_ann" "script_ok blocked_bob"
  unfolding script_ok_def two_clients(1) by code_simp+

text \<open>The shared states after these scripts.\<close>

definition ann :: user where
  "ann = (User ''ann'' ''pa'' ''01-01-2000'')\<lparr>isActivated := True, connId := 0\<rparr>"

definition bob :: user where
  "bob = (User ''bob'' ''pb'' ''02-02-1999'')\<lparr>isActivated := True, connId := 1\<rparr>"

definition ann_bob :: srv where
  "ann_bob = (new_srv [''Banana'', ''Gerev'', ''COVID'', ''sababa'', ''bahamas''])
     \<lparr>heap := [ann, bob], ActiveUsersMap := [(''ann'', 0), (''bob'', 1)], UsersMap := [(''ann'', 0), (''bob'', 1)],
      connectionsMap := [1, 0], sent_to := [(0, ''1001;''), (0, ''1002;''), (1, ''1001;''), (1, ''1002;'')]\<rparr>"

definition ann_followed :: srv where
  "ann_followed = ann_bob
     \<lparr>heap := [ann, bob\<lparr>followers := [0], following := 1\<rparr>],
      sent_to := sent_to ann_bob @ [(1, ''100400ann'' @ [NUL, NUL, SEMI])]\<rparr>"

definition bob_blocked :: srv where
  "bob_blocked = ann_followed
     \<lparr>heap := [ann\<lparr>blockingUsers := [1]\<rparr>, bob\<lparr>following := 1\<rparr>],
      sent_to := sent_to ann_followed @ [(0, ''1012;'')]\<rparr>"

lemma demo_states:
  "demo_srv logged_in = ann_bob" "demo_srv following_ann = ann_followed" "demo_srv blocked_bob = bob_blocked"
  unfolding demo_srv_def two_clients(1) by code_simp+

text \<open>
  C12. In every reachable state of the server, after any bytes on any connections, no reference
  between users dangles, the keys of both maps are distinct, every registered user is found
  under his name, and every connection runs the protocol with its own id and a sound buffer.
\<close>

theorem server_well_formed:
  assumes "map_order (map_values J)" and "reached J S"
  shows "refs_ok (shared S) \<and> conns_ok S"
  using server_jvm.wf_reached [OF server_jvm.intro [OF assms(1)] assms(2)] conns_ok_reached [OF assms(2)]
  by (simp add: wf_srv_def)

theorem server_well_formed_witness: "refs_ok (shared (demo_server blocked_bob)) \<and> conns_ok (demo_server blocked_bob)"
  by (rule server_well_formed [OF jvm_demo_order demo_reached])

text \<open>
  C13. As long as requests do not overlap, in every reachable state no user follows anyone who has
  blocked him, and nobody follows another user twice.
\<close>

theorem blocked_never_follow:
  assumes "map_order (map_values J)" and "reached J S" and "r < length (heap (shared S))"
  shows "distinct (followers (the_user (shared S) r))
    \<and> (\<forall>q\<in>set (blockingUsers (the_user (shared S) r)). r \<notin> set (followers (the_user (shared S) q)))"
  using server_jvm.wf_reached [OF server_jvm.intro [OF assms(1)] assms(2)] assms(3)
  by (auto simp: wf_srv_def blocks_ok_def)

theorem blocked_never_follow_witness:
  "let s = shared (demo_server blocked_bob)
   in blockingUsers (the_user s 0) = [1] \<and> 0 \<notin> set (followers (the_user s 1))"
proof -
  have "0 < length (heap (demo_srv blocked_bob))" "blockingUsers (the_user (demo_srv blocked_bob) 0) = [1]"
    unfolding demo_states by code_simp+
  with blocked_never_follow [OF jvm_demo_order demo_reached, of 0 blocked_bob] demo_server(1) [OF scripts_ok(3)]
  show ?thesis by simp
qed

text \<open>
  C7. A user is only ever logged in by a LOGIN message that gives a part of his name, his
  password and the captcha, while he is not logged in; he is then tied to the connection it came
  from.
\<close>

theorem login_authenticates:
  assumes "r < length (heap (snd (process J c m s)))" and "isActivated (the_user (snd (process J c m s)) r)"
    and "\<not> (r < length (heap s) \<and> isActivated (the_user s r))"
  shows "take 2 m = ''02'' \<and> r < length (heap s) \<and> admits (drop 2 m) s r
    \<and> connId (the_user (snd (process J c m s)) r) = c"
proof -
  let ?t = "snd (process J c m s)"
  have r: "r < length (logins ?t)" "fst (logins ?t ! r)" using assms(1,2) by (simp_all add: logins_nth)
  have n: "\<not> (r < length (logins s) \<and> fst (logins s ! r))" using assms(3) by (auto simp: logins_nth)
  with r have "logins ?t \<noteq> logins s" by metis
  then show ?thesis
  proof (cases rule: logins_process)
    case register
    with r n show ?thesis by (auto simp: nth_append split: if_splits)
  next
    case (login q)
    with r n have "q = r" by (cases "q = r") simp_all
    with login r logins_nth [of r ?t] assms(1) show ?thesis by (auto simp: nth_list_update)
  next
    case (logout q)
    with r n show ?thesis by (cases "q = r") simp_all
  qed
qed

text \<open>
  C33. A user whose connection is silent, dead or not, stays logged in on it whatever the others
  do and however many clients come and go, and every LOGIN that selects him is refused: only a
  LOGOUT on that connection lets him in again.
\<close>

theorem locked_out:
  assumes "reached J S" and "r < length (heap (shared S))" and "isActivated (the_user (shared S) r)"
    and "connId (the_user (shared S) r) = c" and "\<forall>bs. Bytes c bs \<notin> set evs"
  shows "let t = shared (run J evs S)
    in isActivated (the_user t r) \<and> connId (the_user t r) = c
     \<and> (\<forall>c' m. 3 \<le> length (java_split NUL m)
          \<and> find (name_contains (java_split NUL m ! 0) t) (registered J t) = Some r
          \<longrightarrow> process J c' (''02'' @ m) t = send c' ''1102'' t)"
proof -
  let ?I = "\<lambda>s. r < length (logins s) \<and> logins s ! r = (True, c)"
  have "?I (shared (run J evs S))"
  proof (rule run_inv [where I = ?I, OF assms(1)])
    show "?I (shared S)" using assms(2-4) by (simp add: logins_nth)
    show "?I (snd (process J c' m s))" if ev: "Bytes c' bs \<in> set evs" and I: "?I s" for c' bs m s
    proof (cases "logins (snd (process J c' m s)) = logins s")
      case False
      then show ?thesis
      proof (cases rule: logins_process)
        case register
        with I show ?thesis by (simp add: nth_append)
      next
        case (login q)
        with I have "q \<noteq> r" by (auto simp: admits_def Let_def logins_nth)
        with login I show ?thesis by simp
      next
        case (logout q)
        then have "connId (the_user s q) = c'" using find_Some_iff by (metis serves_def)
        with I ev assms(5) have "q \<noteq> r" by (auto simp: logins_nth)
        with logout I show ?thesis by simp
      qed
    qed (use I in simp)
  qed simp
  then have t: "isActivated (the_user (shared (run J evs S)) r)" "connId (the_user (shared (run J evs S)) r) = c"
    by (auto simp: logins_nth)
  then show ?thesis by (simp add: process_def do_login_def)
qed

theorem locked_out_witness:
  "let t = shared (run jvm_demo [Eof 0, Accept, Bytes 2 (wire [''02ann'' @ NUL # ''pa'' @ NUL # ''1''])] (demo_server logged_in))
   in isActivated (the_user t 0) \<and> connId (the_user t 0) = 0"
proof -
  have s: "shared (demo_server logged_in) = demo_srv logged_in" by (rule demo_server(1) [OF scripts_ok(1)])
  have "0 < length (heap (demo_srv logged_in))" "isActivated (the_user (demo_srv logged_in) 0)"
    "connId (the_user (demo_srv logged_in) 0) = 0"
    unfolding demo_states by code_simp+
  with locked_out [OF demo_reached, of 0 logged_in 0 "[Eof 0, Accept, Bytes 2 (wire [''02ann'' @ NUL # ''pa'' @ NUL # ''1''])]"]
  show ?thesis by (simp add: s Let_def)
qed

theorem login_authenticates_witness:
  "let m = ''02bob'' @ NUL # ''pb'' @ NUL # ''1''; s = demo_srv [(1, [''01bob'' @ NUL # ''pb'' @ NUL # ''02-02-1999''])]
   in isActivated (the_user (snd (process jvm_demo 1 m s)) 0) \<and> admits (drop 2 m) s 0"
proof -
  let ?m = "''02bob'' @ NUL # ''pb'' @ NUL # ''1''"
  let ?s = "demo_srv [(1, [''01bob'' @ NUL # ''pb'' @ NUL # ''02-02-1999''])]"
  have "0 < length (heap (snd (process jvm_demo 1 ?m ?s)))" "isActivated (the_user (snd (process jvm_demo 1 ?m ?s)) 0)"
    "\<not> (0 < length (heap ?s) \<and> isActivated (the_user ?s 0))"
    unfolding demo_srv_def two_clients(1) by code_simp+
  with login_authenticates [OF this] show ?thesis by (simp add: Let_def)
qed

text \<open>
  C31. As soon as anybody has ever logged in, STAT ends the connection it is sent on: the
  message is answered by nothing, whoever is logged in or out by then, and nothing changes.
\<close>

theorem stat_unusable:
  assumes "reached J S" and "ActiveUsersMap (shared S) \<noteq> []" and "idle (run J evs S) c" and "SEMI \<notin> set x"
  shows "let S' = run J evs S; S'' = serve J (Bytes c (wire [''08'' @ x])) S'
    in shared S'' = shared S' \<and> ended S'' c"
proof -
  have "ActiveUsersMap (shared (run J evs S)) \<noteq> []" using active_run [OF assms(1), of evs] assms(2) by auto
  then have "process_all J c [''08'' @ x] (shared (run J evs S)) = (Some ClassCast, shared (run J evs S))"
    by (auto simp: process_def do_stat_def neq_Nil_conv)
  from serve_wire [OF reached_run [OF assms(1)] assms(3) _ this] assms(4) show ?thesis by simp
qed

theorem stat_unusable_witness:
  "let S' = run jvm_demo [Bytes 0 (wire [''03''])] (demo_server logged_in);
       S'' = serve jvm_demo (Bytes 0 (wire [''08bob'' @ [NUL]])) S'
   in shared S'' = shared S' \<and> ended S'' 0"
proof -
  have "ActiveUsersMap (shared (demo_server logged_in)) \<noteq> []"
    unfolding demo_server(1) [OF scripts_ok(1)] demo_states by code_simp
  moreover have "idle (run jvm_demo [Bytes 0 (wire [''03''])] (demo_server logged_in)) 0"
  proof -
    have "fst (process_all jvm_demo 0 [''03''] (shared (demo_server logged_in))) = None"
      unfolding demo_server(1) [OF scripts_ok(1)] demo_states by code_simp
    with serve_wire(2) [OF demo_reached demo_server(2) [OF scripts_ok(1)], of "[''03'']"] show ?thesis
      by (auto simp: prod_eq_iff)
  qed
  ultimately show ?thesis
    using stat_unusable [OF demo_reached, of logged_in "[Bytes 0 (wire [''03''])]" 0 "''bob'' @ [NUL]"] by simp
qed

text \<open>
  C14. The read loop of a connection is the codec followed by the protocol: however its bytes are
  split over reads, the shared state is that of the decoded messages processed in order, and the
  loop ends exactly when one of them throws.
\<close>

theorem bytes_are_messages:
  assumes "reached J S" and "map_of (conns S) c = Some k" and "open_sock k"
    and "feed decodeNextByte bs (encdec k) = (ms, d)" and "process_all J c ms (shared S) = (e, s')"
  shows "shared (serve J (Bytes c bs) S) = s'
    \<and> (if e = None then map_of (conns (serve J (Bytes c bs) S)) c = Some (k\<lparr>encdec := d\<rparr>)
       else ended (serve J (Bytes c bs) S) c)"
  using serve_bytes [OF assms] by (simp add: ended_def)

theorem bytes_are_messages_witness:
  "shared (serve jvm_demo (Bytes 0 ''03;0'') (demo_server logged_in)) = snd (process jvm_demo 0 ''03'' (demo_srv logged_in))"
proof -
  let ?S = "demo_server logged_in"
  obtain k where k: "map_of (conns ?S) 0 = Some k" "open_sock k" "unfinished (encdec k) = []"
    using demo_server(2) [OF scripts_ok(1)] by (auto simp: idle_def)
  with conns_okD [OF conns_ok_reached [OF demo_reached]] have "codec_inv (encdec k)" by blast
  from semi.feed_message [OF this, of "''03''"] k(3) obtain d1
    where d1: "feed decodeNextByte ''03;'' (encdec k) = ([''03''], d1)" "codec_inv d1" by auto
  from semi.feed_body [OF d1(2), of "''0''"] obtain d2 where "feed decodeNextByte ''0'' d1 = ([], d2)" by auto
  with d1 feed_append [of decodeNextByte "''03;''" "''0''" "encdec k"]
  have f: "feed decodeNextByte ''03;0'' (encdec k) = ([''03''], d2)" by simp
  obtain e t where p: "process jvm_demo 0 ''03'' (shared ?S) = (e, t)" by fastforce
  then have "process_all jvm_demo 0 [''03''] (shared ?S) = (e, t)" by (cases e) simp_all
  from bytes_are_messages [OF demo_reached k(1,2) f this] p show ?thesis
    by (simp add: demo_server(1) [OF scripts_ok(1)])
qed

end
