(* ===== verification/Delivery.thy ===== *)
theory Delivery
  imports ServerProps
begin

text \<open>
  What the handlers of the protocol send to whom, and the posts that wait for users who are not
  logged in.
\<close>

section \<open>Reading an updated state\<close>

lemma the_user_upd_cases:
  "the_user (upd r f s) q = (if q = r \<and> r < length (heap s) then f (the_user s r) else the_user s q)"
  by (auto simp: the_user_def upd_def list_update_beyond not_less)

lemma the_user_frame [simp]:
  "the_user (snd (send c msg s)) = the_user s" "the_user (incrementPostIPost s) = the_user s"
  "the_user (s\<lparr>sent_to := x\<rparr>) = the_user s" "the_user (s\<lparr>ActiveUsersMap := am\<rparr>) = the_user s"
  by (simp_all add: the_user_def fun_eq_iff)

text \<open>A text that is no statistics reply is sent as it is, if the connection has a handler.\<close>

definition to_wire :: "srv \<Rightarrow> int \<Rightarrow> string \<Rightarrow> (int \<times> bytes) list" where
  "to_wire s c msg = (if c \<in> set (connectionsMap s) then [(c, msg @ [SEMI])] else [])"

lemma send_plain:
  "take 4 msg \<notin> {''1007'', ''1008''} \<Longrightarrow> 4 \<le> length msg \<Longrightarrow>
   send c msg s = (None, s\<lparr>sent_to := sent_to s @ to_wire s c msg\<rparr>)"
  by (simp add: send_text to_wire_def)

definition notice :: "string \<Rightarrow> string \<Rightarrow> string" where
  "notice name text = ''091'' @ name @ NUL # text @ [NUL]"

lemma send_notice: "send c (notice name text) s = (None, s\<lparr>sent_to := sent_to s @ to_wire s c (notice name text)\<rparr>)"
  by (rule send_plain) (simp_all add: notice_def)

section \<open>Posts\<close>

text \<open>The users a post is for: those who follow the author, and then those it mentions.\<close>

definition recipients :: "jvm \<Rightarrow> nat \<Rightarrow> string \<Rightarrow> srv \<Rightarrow> nat list" where
  "recipients J my message s =
     filter (\<lambda>r. follows s r my) (registered J s)
     @ filter (\<lambda>r. \<not> follows s r my) (mentioned J message s)"

lemma drop_followers_filter: "drop_followers s my rs = filter (\<lambda>r. \<not> follows s r my) rs"
proof -
  have "foldl (\<lambda>q r. if follows s r my then remove1 r q else q) (filter (\<lambda>r. \<not> follows s r my) xs @ ys) ys
      = filter (\<lambda>r. \<not> follows s r my) (xs @ ys)" for xs ys
  proof (induction ys arbitrary: xs)
    case (Cons y ys)
    have "remove1 y (filter (\<lambda>r. \<not> follows s r my) xs @ y # ys) = filter (\<lambda>r. \<not> follows s r my) xs @ ys"
      if "follows s y my" using that by (simp add: remove1_append)
    then show ?case using Cons.IH [of "xs @ [y]"] Cons.IH [of xs] by (cases "follows s y my") simp_all
  qed simp
  from this [of "[]" rs] show ?thesis by (simp add: drop_followers_def)
qed

lemma deliver_post_append:
  "deliver_post my t (xs @ ys) s = then_do (deliver_post my t xs s) (deliver_post my t ys)"
  by (induction xs arbitrary: s) (auto simp: then_do_def split: prod.split option.split)

text \<open>What one post does to the log and to a user, for each recipient.\<close>

definition post_sent :: "srv \<Rightarrow> nat \<Rightarrow> string \<Rightarrow> nat list \<Rightarrow> (int \<times> bytes) list" where
  "post_sent s my t rs = concat (map (\<lambda>r.
     if isActivated (the_user s r) then to_wire s (connId (the_user s r)) (notice (username (the_user s my)) t) else []) rs)"

definition post_kept :: "srv \<Rightarrow> nat \<Rightarrow> string \<Rightarrow> nat list \<Rightarrow> nat \<Rightarrow> user" where
  "post_kept s my t rs q =
     (let u = the_user s q in if isActivated u then u
      else u\<lparr>awaitingPosts := awaitingPosts u @ replicate (count_list rs q) (username (the_user s my) @ SP # t)\<rparr>)"

lemma deliver_post_spec:
  assumes "set rs \<subseteq> {..<length (heap s)}" and "deliver_post my t rs s = (e, s')"
  shows "e = None \<and> sent_to s' = sent_to s @ post_sent s my t rs
    \<and> heap s' = map (post_kept s my t rs) [0..<length (heap s)]
    \<and> howMuchPostIPost s' = howMuchPostIPost s + of_nat (length rs)
    \<and> connectionsMap s' = connectionsMap s"
  using assms
proof (induction rs arbitrary: s)
  case Nil
  then have "s' = s" "e = None" by simp_all
  moreover have "map (post_kept s my t []) [0..<length (heap s)] = heap s"
    by (rule nth_equalityI) (simp_all add: post_kept_def the_user_def Let_def)
  ultimately show ?case by (simp add: post_sent_def)
next
  case (Cons r rs)
  let ?p = "username (the_user s my) @ SP # t"
  show ?case
  proof (cases "isActivated (the_user s r)")
    case True
    let ?s = "incrementPostIPost (s\<lparr>sent_to := sent_to s @ to_wire s (connId (the_user s r)) (notice (username (the_user s my)) t)\<rparr>)"
    have d: "deliver_post my t rs ?s = (e, s')"
      using Cons.prems(2) True send_notice [of "connId (the_user s r)" "username (the_user s my)" t s]
      by (simp add: notice_def)
    have "post_sent ?s my t rs = post_sent s my t rs" by (simp add: post_sent_def to_wire_def cong: if_cong)
    moreover have "post_kept ?s my t rs = post_kept s my t (r # rs)"
      using True by (auto simp: post_kept_def fun_eq_iff Let_def)
    ultimately show ?thesis using Cons.IH [OF _ d] Cons.prems(1) True
      by (simp add: post_sent_def incrementPostIPost_def)
  next
    case False
    let ?s = "incrementPostIPost (upd r (addAwaiting ?p) s)"
    have d: "deliver_post my t rs ?s = (e, s')" using Cons.prems(2) False by simp
    have u: "the_user (upd r (addAwaiting ?p) s) q = (if q = r then addAwaiting ?p (the_user s r) else the_user s q)" for q
      using Cons.prems(1) by (auto simp: the_user_upd_cases)
    have "isActivated (the_user (upd r (addAwaiting ?p) s) q) = isActivated (the_user s q)"
      "connId (the_user (upd r (addAwaiting ?p) s) q) = connId (the_user s q)"
      "username (the_user (upd r (addAwaiting ?p) s) q) = username (the_user s q)" for q
      by (simp_all add: u user_defs)
    then have "post_sent ?s my t rs = post_sent s my t rs"
      by (simp add: post_sent_def to_wire_def cong: if_cong)
    moreover have "post_kept ?s my t rs = post_kept s my t (r # rs)"
      using False by (auto simp: post_kept_def fun_eq_iff Let_def u user_defs)
    ultimately show ?thesis using Cons.IH [OF _ d] Cons.prems(1) False
      by (simp add: post_sent_def incrementPostIPost_def upd_def)
  qed
qed

lemma find_in_set: "find P xs = Some x \<Longrightarrow> x \<in> set xs \<and> P x"
  by (metis find_Some_iff nth_mem)

context server_jvm
begin

lemma registered_lt: "wf_srv s \<Longrightarrow> r \<in> set (registered J s) \<Longrightarrow> r < length (heap s)"
  using set_registered refs_lt(1) by fastforce

lemma recipients_lt: "wf_srv s \<Longrightarrow> set (recipients J my t s) \<subseteq> {..<length (heap s)}"
  using registered_lt by (auto simp: recipients_def mentioned_def)

end

lemma do_post_eq:
  assumes "find (serves c s) (active J s) = Some my"
  shows "do_post J c (t @ [NUL]) s =
    then_do (deliver_post my t (recipients J my t s) s) (send c ''1005'')"
  using assms
  by (simp add: do_post_def Let_def recipients_def drop_followers_filter deliver_post_append)
     (simp add: then_do_def split: prod.split option.split)

lemma post_effect:
  assumes "map_order (map_values J)" and "wf_srv s" and "find (serves c s) (active J s) = Some my"
  shows "\<exists>s'. process J c (''05'' @ t @ [NUL]) s = (None, s')
    \<and> sent_to s' = sent_to s @ post_sent s my t (recipients J my t s) @ to_wire s c ''1005''
    \<and> heap s' = map (post_kept s my t (recipients J my t s)) [0..<length (heap s)]
    \<and> howMuchPostIPost s' = howMuchPostIPost s + of_nat (length (recipients J my t s))"
proof -
  let ?rs = "recipients J my t s"
  obtain e s1 where d: "deliver_post my t ?rs s = (e, s1)" by fastforce
  from deliver_post_spec [OF server_jvm.recipients_lt [OF server_jvm.intro [OF assms(1)] assms(2)] d]
  have "e = None" "sent_to s1 = sent_to s @ post_sent s my t ?rs"
    "heap s1 = map (post_kept s my t ?rs) [0..<length (heap s)]"
    "howMuchPostIPost s1 = howMuchPostIPost s + of_nat (length ?rs)" "connectionsMap s1 = connectionsMap s"
    by simp_all
  moreover have "process J c (''05'' @ t @ [NUL]) s = then_do (e, s1) (send c ''1005'')"
    using do_post_eq [OF assms(3), of t] d by (simp add: process_def)
  moreover have "send c ''1005'' s1 = (None, s1\<lparr>sent_to := sent_to s1 @ to_wire s1 c ''1005''\<rparr>)"
    by (rule send_plain) simp_all
  ultimately show ?thesis by (simp add: to_wire_def)
qed

text \<open>
  C8. A POST of a logged-in user reaches everybody who follows the author and everybody the text
  mentions, once per mention: those who are online are sent the notification, in this order, for
  the others the text is kept, and nothing else of any user changes; the author gets the
  acknowledgement last.
\<close>

theorem post_delivery:
  assumes "map_order (map_values J)" and "wf_srv s" and "find (serves c s) (active J s) = Some my"
  shows "\<exists>s'. process J c (''05'' @ t @ [NUL]) s = (None, s')
    \<and> sent_to s' = sent_to s @ post_sent s my t (recipients J my t s) @ to_wire s c ''1005''
    \<and> heap s' = map (post_kept s my t (recipients J my t s)) [0..<length (heap s)]
    \<and> howMuchPostIPost s' = howMuchPostIPost s + of_nat (length (recipients J my t s))"
  by (rule post_effect [OF assms])

theorem post_delivery_witness:
  "sent_to (snd (process jvm_demo 0 (''05'' @ ''hi @bob there'' @ [NUL]) (demo_srv logged_in)))
   = sent_to (demo_srv logged_in) @ [(1, notice ''ann'' ''hi @bob there'' @ [SEMI]), (0, ''1005;'')]"
proof -
  have wf: "wf_srv (demo_srv logged_in)"
    using server_jvm.wf_reached [OF server_jvm.intro [OF jvm_demo_order] demo_reached [of logged_in]]
    by (simp add: demo_server(1) [OF scripts_ok(1)])
  have "find (serves 0 (demo_srv logged_in)) (active jvm_demo (demo_srv logged_in)) = Some 0"
    unfolding demo_states by code_simp
  from post_delivery [OF jvm_demo_order wf this, of "''hi @bob there''"]
  have "sent_to (snd (process jvm_demo 0 (''05'' @ ''hi @bob there'' @ [NUL]) (demo_srv logged_in)))
    = sent_to (demo_srv logged_in) @ post_sent (demo_srv logged_in) 0 ''hi @bob there''
        (recipients jvm_demo 0 ''hi @bob there'' (demo_srv logged_in)) @ to_wire (demo_srv logged_in) 0 ''1005''"
    by auto
  also have "post_sent (demo_srv logged_in) 0 ''hi @bob there''
        (recipients jvm_demo 0 ''hi @bob there'' (demo_srv logged_in)) @ to_wire (demo_srv logged_in) 0 ''1005''
    = [(1, notice ''ann'' ''hi @bob there'' @ [SEMI]), (0, ''1005;'')]"
    unfolding demo_states by code_simp
  finally show ?thesis .
qed

section \<open>The posts that waited\<close>

text \<open>
  The notifications after a LOGIN. The variable with the name of the sender is not emptied
  between two posts, so each notification names all the senders so far, run together.
\<close>

fun waiting_notices :: "string \<Rightarrow> (string \<times> string) list \<Rightarrow> string list" where
  "waiting_notices names [] = []"
| "waiting_notices names ((n, t) # ps) = notice (names @ n) t # waiting_notices (names @ n) ps"

definition kept_post :: "string \<times> string \<Rightarrow> string" where
  "kept_post p = fst p @ SP # snd p"

lemma scan_sender_kept:
  "SP \<notin> set n \<Longrightarrow> scan_sender (n @ SP # t) i acc lim = (acc @ n, i + length n + 1)"
  by (induction n arbitrary: i acc) auto

lemma send_awaiting_spec:
  assumes "\<forall>p\<in>set ps. SP \<notin> set (fst p)" and "connId (the_user s r) = c"
  shows "send_awaiting r names lim (map kept_post ps) s =
    (None, s\<lparr>sent_to := sent_to s @ concat (map (to_wire s c) (waiting_notices names ps))\<rparr>)"
  using assms
proof (induction ps arbitrary: names lim s)
  case (Cons p ps)
  obtain n t where p: "p = (n, t)" by fastforce
  let ?s = "s\<lparr>sent_to := sent_to s @ to_wire s c (notice (names @ n) t)\<rparr>"
  have "send_awaiting r names lim (map kept_post (p # ps)) s
    = then_do (send c (notice (names @ n) t) s) (send_awaiting r (names @ n) (length n + 1) (map kept_post ps))"
    using Cons.prems p by (simp add: kept_post_def scan_sender_kept notice_def)
  also have "\<dots> = send_awaiting r (names @ n) (length n + 1) (map kept_post ps) ?s"
    by (simp add: send_notice)
  also have "\<dots> = (None, ?s\<lparr>sent_to := sent_to ?s @ concat (map (to_wire ?s c) (waiting_notices (names @ n) ps))\<rparr>)"
    using Cons.IH [of ?s] Cons.prems by simp
  also have "map (to_wire ?s c) ms = map (to_wire s c) ms" for ms by (simp add: to_wire_def)
  finally show ?case by (simp add: p)
qed simp

text \<open>
  C29. A LOGIN with the name, the password and the captcha of a user who is not logged in is
  acknowledged, ties him to the connection, and then delivers all the posts that waited, each
  under the names of all senders so far run together; the posts stay in the queue and will be
  delivered again after the next LOGIN.
\<close>

theorem login_delivers:
  assumes "find (name_contains un s) (registered J s) = Some r" and "r < length (heap s)"
    and "NUL \<notin> set un" and "NUL \<notin> set (password (the_user s r))" and "\<not> isActivated (the_user s r)"
    and "awaitingPosts (the_user s r) = map kept_post ps" and "\<forall>p\<in>set ps. SP \<notin> set (fst p)"
  shows "\<exists>s'. process J c (''02'' @ un @ NUL # password (the_user s r) @ NUL # ''1'') s = (None, s')
    \<and> the_user s' r = (the_user s r)\<lparr>isActivated := True, connId := c\<rparr>
    \<and> sent_to s' = sent_to s @ concat (map (to_wire s c) (''1002'' # waiting_notices [] ps))"
proof -
  let ?pw = "password (the_user s r)"
  let ?s1 = "upd r (setConnId c \<circ> activate) (s\<lparr>ActiveUsersMap := AList.update un r (ActiveUsersMap s)\<rparr>)"
  let ?s2 = "?s1\<lparr>sent_to := sent_to ?s1 @ to_wire ?s1 c ''1002''\<rparr>"
  have args: "java_split NUL (un @ NUL # ?pw @ NUL # ''1'') = [un, ?pw, ''1'']"
    using java_split_join [of "[un, ?pw, ''1'']" NUL] assms(3,4) by simp
  have u: "the_user ?s1 r = (the_user s r)\<lparr>isActivated := True, connId := c\<rparr>"
    using assms(2,5) by (simp add: the_user_upd_cases user_defs)
  have "process J c (''02'' @ un @ NUL # ?pw @ NUL # ''1'') s = do_login J c (un @ NUL # ?pw @ NUL # ''1'') s"
    by (simp add: process_def)
  also have "\<dots> = then_do (send c ''1002'' ?s1) (\<lambda>s2. send_awaiting r [] 0 (awaitingPosts (the_user s2 r)) s2)"
    using assms(1,5) by (simp add: do_login_def args)
  also have "send c ''1002'' ?s1 = (None, ?s2)" by (rule send_plain) simp_all
  also have "then_do (None, ?s2) (\<lambda>s2. send_awaiting r [] 0 (awaitingPosts (the_user s2 r)) s2)
    = send_awaiting r [] 0 (map kept_post ps) ?s2"
    using u assms(6) by simp
  also have "\<dots> = (None, ?s2\<lparr>sent_to := sent_to ?s2 @ concat (map (to_wire ?s2 c) (waiting_notices [] ps))\<rparr>)"
    using assms(7) u by (intro send_awaiting_spec) simp_all
  also have "map (to_wire ?s2 c) ms = map (to_wire s c) ms" for ms by (simp add: to_wire_def)
  finally show ?thesis using u by (simp add: to_wire_def comp_def)
qed

text \<open>Ann mentions Bob in two posts before he logs in.\<close>

definition waiting_bob :: "(int \<times> string list) list" where
  "waiting_bob = [(0, [''01ann'' @ NUL # ''pa'' @ NUL # ''01-01-2000'', ''01bob'' @ NUL # ''pb'' @ NUL # ''02-02-1999'',
     ''02ann'' @ NUL # ''pa'' @ NUL # ''1'', ''05hi @bob 1'' @ [NUL], ''05yo @bob 2'' @ [NUL]])]"

definition bob_offline :: srv where
  "bob_offline = ann_bob
     \<lparr>heap := [ann, (User ''bob'' ''pb'' ''02-02-1999'')\<lparr>awaitingPosts := [''ann hi @bob 1'', ''ann yo @bob 2'']\<rparr>],
      ActiveUsersMap := [(''ann'', 0)], howMuchPostIPost := 2,
      sent_to := [(0, ''1001;''), (0, ''1001;''), (0, ''1002;''), (0, ''1005;''), (0, ''1005;'')]\<rparr>"

lemma bob_waits: "demo_srv waiting_bob = bob_offline"
  unfolding demo_srv_def two_clients(1) by code_simp

theorem login_delivers_witness:
  "sent_to (snd (process jvm_demo 1 (''02bob'' @ NUL # ''pb'' @ NUL # ''1'') (demo_srv waiting_bob)))
   = sent_to (demo_srv waiting_bob)
     @ [(1, ''1002;''), (1, ''091ann'' @ NUL # ''hi @bob 1'' @ [NUL, SEMI]), (1, ''091annann'' @ NUL # ''yo @bob 2'' @ [NUL, SEMI])]"
proof -
  let ?s = "demo_srv waiting_bob" and ?ps = "[(''ann'', ''hi @bob 1''), (''ann'', ''yo @bob 2'')]"
  have "find (name_contains ''bob'' ?s) (registered jvm_demo ?s) = Some 1" "1 < length (heap ?s)"
    "NUL \<notin> set ''bob''" "NUL \<notin> set (password (the_user ?s 1))" "\<not> isActivated (the_user ?s 1)"
    "awaitingPosts (the_user ?s 1) = map kept_post ?ps" "\<forall>p\<in>set ?ps. SP \<notin> set (fst p)"
    unfolding demo_states bob_waits by code_simp+
  note login = login_delivers [OF this, of 1]
  have "password (the_user ?s 1) = ''pb''" "1 \<in> set (connectionsMap ?s)"
    unfolding demo_states bob_waits by code_simp+
  with login show ?thesis by (auto simp: to_wire_def notice_def)
qed

section \<open>FOLLOW and LOGOUT\<close>

text \<open>
  C35. FOLLOW and then UNFOLLOW of a user whom one does not follow yet, and who has not blocked
  one, restores all users; both are acknowledged with the name that was sent.
\<close>

theorem follow_unfollow:
  assumes "find (serves c s) (active J s) = Some my" and "find (named_in (u @ [NUL]) s) (registered J s) = Some other"
    and "my < length (heap s)" and "isActivated (the_user s my)"
    and "other \<notin> set (followers (the_user s my))" and "my \<notin> set (blockingUsers (the_user s other))"
  shows "\<exists>s1 s2. process J c (''040'' @ u @ [NUL]) s = (None, s1) \<and> process J c (''041'' @ u @ [NUL]) s1 = (None, s2)
    \<and> the_user s1 my = (the_user s my)\<lparr>followers := followers (the_user s my) @ [other], following := following (the_user s my) + 1\<rparr>
    \<and> heap s2 = heap s
    \<and> sent_to s2 = sent_to s @ to_wire s c (''100400'' @ u @ [NUL, NUL]) @ to_wire s c (''100401'' @ u @ [NUL, NUL])"
proof -
  let ?f = "incrementFollowing \<circ> addFollower other" and ?g = "decreaseFollowing \<circ> removeFollower other"
  let ?s1 = "(upd my ?f s)\<lparr>sent_to := sent_to s @ to_wire s c (''100400'' @ u @ [NUL, NUL])\<rparr>"
  let ?s2 = "(upd my ?g ?s1)\<lparr>sent_to := sent_to ?s1 @ to_wire s c (''100401'' @ u @ [NUL, NUL])\<rparr>"
  have 1: "process J c (''040'' @ u @ [NUL]) s = (None, ?s1)"
    using assms by (simp add: process_def do_follow_def Let_def send_plain to_wire_def)
  have u1: "the_user ?s1 q = (if q = my then ?f (the_user s my) else the_user s q)" for q
    using assms(3) by (simp add: the_user_upd_cases)
  have "serves c ?s1 = serves c s" "named_in (u @ [NUL]) ?s1 = named_in (u @ [NUL]) s"
    using u1 by (auto simp: serves_def named_in_def fun_eq_iff user_defs)
  moreover have "active J ?s1 = active J s" "registered J ?s1 = registered J s"
    by (simp_all add: active_def registered_def)
  ultimately have "find (serves c ?s1) (active J ?s1) = Some my"
    "find (named_in (u @ [NUL]) ?s1) (registered J ?s1) = Some other" using assms(1,2) by simp_all
  then have 2: "process J c (''041'' @ u @ [NUL]) ?s1 = (None, ?s2)"
    using u1 [of my] assms(4) by (simp add: process_def do_follow_def Let_def send_plain to_wire_def user_defs)
  have "heap ?s2 = (heap s)[my := ?g (?f (heap s ! my))]" using assms(3) by (simp add: upd_def)
  also have "?g (?f (heap s ! my)) = heap s ! my"
    using assms(5) by (simp add: user_defs the_user_def remove1_append)
  finally have h: "heap ?s2 = heap s" by (simp only: list_update_id)
  have u: "the_user ?s1 my = (the_user s my)\<lparr>followers := followers (the_user s my) @ [other], following := following (the_user s my) + 1\<rparr>"
    unfolding u1 by (simp add: user_defs)
  have l: "sent_to ?s2 = sent_to s @ to_wire s c (''100400'' @ u @ [NUL, NUL]) @ to_wire s c (''100401'' @ u @ [NUL, NUL])"
    by simp
  show ?thesis using 1 2 u h l by blast
qed

theorem follow_unfollow_witness:
  "\<exists>s2. process jvm_demo 1 (''041ann'' @ [NUL]) (snd (process jvm_demo 1 (''040ann'' @ [NUL]) (demo_srv logged_in))) = (None, s2)
    \<and> heap s2 = heap (demo_srv logged_in)"
proof -
  let ?s = "demo_srv logged_in"
  have "find (serves 1 ?s) (active jvm_demo ?s) = Some 1" "find (named_in (''ann'' @ [NUL]) ?s) (registered jvm_demo ?s) = Some 0"
    "1 < length (heap ?s)" "isActivated (the_user ?s 1)"
    "0 \<notin> set (followers (the_user ?s 1))" "1 \<notin> set (blockingUsers (the_user ?s 0))"
    unfolding demo_states bob_waits by code_simp+
  from follow_unfollow [OF this] show ?thesis by auto
qed

text \<open>
  C36. A LOGOUT that is acknowledged does not end the session: the user is marked as logged out,
  but his connection still stands for him, so that a second LOGOUT is acknowledged as well and a
  POST from it is accepted and published under his name.
\<close>

theorem logout_keeps_session:
  assumes "map_order (map_values J)" and "wf_srv s" and "find (serves c s) (active J s) = Some my"
  shows "\<exists>s1 s2 s3. process J c ''03'' s = (None, s1) \<and> \<not> isActivated (the_user s1 my)
    \<and> process J c ''03'' s1 = (None, s2) \<and> sent_to s2 = sent_to s @ to_wire s c ''1003'' @ to_wire s c ''1003''
    \<and> process J c (''05'' @ t @ [NUL]) s1 = (None, s3)
    \<and> sent_to s3 = sent_to s1 @ post_sent s1 my t (recipients J my t s1) @ to_wire s c ''1005''"
proof -
  let ?o = "\<lambda>s. (upd my deActivate s)\<lparr>sent_to := sent_to s @ to_wire s c ''1003''\<rparr>"
  have my: "my < length (heap s)"
    using server_jvm.found_active [OF server_jvm.intro [OF assms(1)] assms(2,3)] by blast
  have out: "process J c ''03'' s' = (None, ?o s')" if "find (serves c s') (active J s') = Some my" for s'
    using that by (simp add: process_def do_logout_def send_plain to_wire_def)
  have u: "connId (the_user (?o s) q) = connId (the_user s q)" for q
    by (simp add: the_user_upd_cases user_defs)
  then have "serves c (?o s) = serves c s" by (simp add: serves_def fun_eq_iff)
  then have f: "find (serves c (?o s)) (active J (?o s)) = Some my"
    using assms(3) by (simp add: active_def)
  have wf: "wf_srv (?o s)"
    using server_jvm.wf_process [OF server_jvm.intro [OF assms(1)] assms(2), of c "''03''"] out [OF assms(3)] by simp
  obtain s3 where "process J c (''05'' @ t @ [NUL]) (?o s) = (None, s3)"
    "sent_to s3 = sent_to (?o s) @ post_sent (?o s) my t (recipients J my t (?o s)) @ to_wire s c ''1005''"
    using post_effect [OF assms(1) wf f, of t] by (auto simp: to_wire_def)
  moreover have "\<not> isActivated (the_user (?o s) my)" using my by (simp add: the_user_upd_cases user_defs)
  moreover have "sent_to (?o (?o s)) = sent_to s @ to_wire s c ''1003'' @ to_wire s c ''1003''" by (simp add: to_wire_def)
  ultimately show ?thesis using out [OF assms(3)] out [OF f] by blast
qed

theorem logout_keeps_session_witness:
  "\<exists>s1 s2. process jvm_demo 0 ''03'' (demo_srv logged_in) = (None, s1) \<and> \<not> isActivated (the_user s1 0)
    \<and> process jvm_demo 0 ''03'' s1 = (None, s2)
    \<and> sent_to s2 = sent_to (demo_srv logged_in) @ [(0, ''1003;''), (0, ''1003;'')]"
proof -
  have wf: "wf_srv (demo_srv logged_in)"
    using server_jvm.wf_reached [OF server_jvm.intro [OF jvm_demo_order] demo_reached [of logged_in]]
    by (simp add: demo_server(1) [OF scripts_ok(1)])
  have "find (serves 0 (demo_srv logged_in)) (active jvm_demo (demo_srv logged_in)) = Some 0"
    "0 \<in> set (connectionsMap (demo_srv logged_in))"
    unfolding demo_states bob_waits by code_simp+
  with logout_keeps_session [OF jvm_demo_order wf this(1), of "''hi''"] show ?thesis
    by (auto simp: to_wire_def)
qed

section \<open>PM and BLOCK\<close>

text \<open>
  A private message from a connection on which nobody has logged in is sent in the name of the
  active user that the map visits last, when that user follows the addressee and is not blocked
  by him.
\<close>

lemma pm_unauthenticated:
  assumes "find (serves c s) (active J s) = None" and "active J s \<noteq> []" and "my = last (active J s)"
    and "find (named_in (u @ SP # t) s) (registered J s) = Some other" and "username (the_user s other) = u"
    and "other \<in> set (followers (the_user s my))" and "my \<notin> set (blockingUsers (the_user s other))"
    and "length u < length (filter_words (filteredWords s) (u @ SP # t))"
  shows "\<exists>s'. process J c (''06'' @ u @ SP # t @ [NUL]) s = (None, s') \<and> heap s' = heap s
    \<and> sent_to s' = sent_to s @ to_wire s (connId (the_user s other))
         (''090'' @ username (the_user s my) @ NUL # drop (length u + 1) (filter_words (filteredWords s) (u @ SP # t)) @ [NUL])
       @ to_wire s c ''1006''"
proof -
  let ?text = "''090'' @ username (the_user s my) @ NUL # drop (length u + 1) (filter_words (filteredWords s) (u @ SP # t)) @ [NUL]"
  let ?s1 = "(incrementPostIPost s)\<lparr>sent_to := sent_to s @ to_wire s (connId (the_user s other)) ?text\<rparr>"
  let ?s2 = "?s1\<lparr>sent_to := sent_to ?s1 @ to_wire s c ''1006''\<rparr>"
  have my: "find_or_last (serves c s) (active J s) = Some my"
    "find_or_last (named_in (u @ SP # t) s) (registered J s) = Some other"
    using assms(1-4) by (simp_all add: find_or_last_def)
  have bl: "butlast (u @ SP # t @ [NUL]) = u @ SP # t" by (simp add: butlast_append)
  have len: "\<not> length (filter_words (filteredWords s) (u @ SP # t)) < length u + 1" using assms(8) by simp
  have 1: "send (connId (the_user s other)) ?text (incrementPostIPost s) = (None, ?s1)"
    by (subst send_plain) (simp_all add: to_wire_def)
  have 2: "send c ''1006'' ?s1 = (None, ?s2)"
    by (subst send_plain) (simp_all add: to_wire_def)
  have "process J c (''06'' @ u @ SP # t @ [NUL]) s = do_pm J c (u @ SP # t @ [NUL]) s" by (simp add: process_def)
  also have "\<dots> = then_do (send (connId (the_user s other)) ?text (incrementPostIPost s)) (send c ''1006'')"
    unfolding do_pm_def Let_def bl my using len assms(5-7) by simp
  also have "\<dots> = (None, ?s2)" unfolding 1 then_do_simps 2 ..
  finally show ?thesis by simp
qed

text \<open>Nobody is logged in on a third connection; Bob, the last of the active users, follows Ann.\<close>

text \<open>
  BLOCK of another user adds him to the blocked users and ends the following in both
  directions, but neither counter \<open>following\<close> is lowered, as an UNFOLLOW would have done.
\<close>

lemma block_outcome:
  assumes "find (serves c s) (active J s) = Some my" and "find (named_in (u @ [NUL]) s) (registered J s) = Some other"
    and "my < length (heap s)" and "other < length (heap s)" and "my \<noteq> other"
    and "other \<notin> set (blockingUsers (the_user s my))"
  shows "\<exists>s'. process J c (''12'' @ u @ [NUL]) s = (None, s')
    \<and> the_user s' my = (the_user s my)\<lparr>blockingUsers := blockingUsers (the_user s my) @ [other],
        followers := remove1 other (followers (the_user s my))\<rparr>
    \<and> the_user s' other = (the_user s other)\<lparr>followers := remove1 my (followers (the_user s other))\<rparr>
    \<and> (\<forall>q. q \<noteq> my \<and> q \<noteq> other \<longrightarrow> the_user s' q = the_user s q)
    \<and> sent_to s' = sent_to s @ to_wire s c ''1012''"
proof -
  let ?s1 = "upd my (addBlocking other) s"
  let ?s2 = "if other \<in> set (followers (the_user ?s1 my)) then upd my (removeFollower other) ?s1 else ?s1"
  let ?s3 = "if my \<in> set (followers (the_user ?s2 other)) then upd other (removeFollower my) ?s2 else ?s2"
  have u1: "the_user ?s1 q = (if q = my then addBlocking other (the_user s my) else the_user s q)" for q
    using assms(3) by (simp add: the_user_upd_cases)
  have u2: "the_user ?s2 q = (if q = my then removeFollower other (addBlocking other (the_user s my)) else the_user s q)" for q
    using assms(3) u1 by (auto simp: the_user_upd_cases user_defs remove1_idem)
  have u3: "the_user ?s3 q = (if q = other then removeFollower my (the_user s other) else the_user ?s2 q)" for q
    using assms(4,5) u2 [of other] by (auto simp: the_user_upd_cases user_defs remove1_idem)
  have m: "connectionsMap ?s3 = connectionsMap s" "sent_to ?s3 = sent_to s" by simp_all
  have "process J c (''12'' @ u @ [NUL]) s = send c ''1012'' ?s3"
    using assms(1,2,6) by (simp add: process_def do_block_def Let_def)
  also have "\<dots> = (None, ?s3\<lparr>sent_to := sent_to ?s3 @ to_wire ?s3 c ''1012''\<rparr>)" by (rule send_plain) simp_all
  finally show ?thesis
    using u2 u3 assms(5) m by (auto simp: to_wire_def user_defs)
qed

end
