(* ===== verification/WordFilter.thy ===== *)
theory WordFilter
  imports Protocol
begin

text \<open>
  The filter of private messages: the regular expression of \<open>BidiMessagingProtocolImpl.java\<close> against
  a reference that cuts the text into words and replaces the filtered ones.
\<close>

section \<open>Words\<close>

text \<open>A text is cut into its maximal runs of word characters and its other characters.\<close>

function tokens :: "string \<Rightarrow> string list" where
  "tokens [] = []"
| "tokens (ch # cs) =
     (if word_char ch then takeWhile word_char (ch # cs) # tokens (dropWhile word_char (ch # cs))
      else [ch] # tokens cs)"
  by pat_completeness auto
termination
  by (relation "measure length") (auto simp: le_imp_less_Suc length_dropWhile_le)

lemma concat_tokens: "concat (tokens s) = s"
  by (induction s rule: tokens.induct) simp_all

text \<open>What such a list looks like: no run of word characters is followed by another.\<close>

fun proper :: "string list \<Rightarrow> bool" where
  "proper [] = True"
| "proper (t # ts) =
     ((list_all word_char t \<and> t \<noteq> [] \<and> boundary (concat ts) \<or> (\<exists>ch. t = [ch] \<and> \<not> word_char ch)) \<and> proper ts)"

lemma boundary_simps [simp]: "boundary []" "boundary (ch # cs) \<longleftrightarrow> \<not> word_char ch"
  by (simp_all add: boundary_def)

lemma boundary_dropWhile: "boundary (dropWhile word_char s)"
  by (induction s) auto

lemma proper_tokens: "proper (tokens s)"
  by (induction s rule: tokens.induct)
     (auto simp: concat_tokens boundary_dropWhile list_all_iff dest: set_takeWhileD)

section \<open>One word\<close>

lemma replace_word_other: "\<not> word_char ch \<Longrightarrow> word_char (hd w) \<Longrightarrow>
    replace_word w prev (ch # cs) = ch # replace_word w False cs"
  by (cases w) auto

text \<open>Inside a run of word characters nothing matches.\<close>

lemma replace_word_run: "list_all word_char t \<Longrightarrow> boundary s \<Longrightarrow> list_all word_char w \<Longrightarrow> w \<noteq> [] \<Longrightarrow>
    replace_word w True (t @ s) = t @ replace_word w False s"
proof (induction t)
  case Nil
  then show ?case
  proof (cases s)
    case (Cons ch cs)
    with Nil replace_word_other [of ch w] show ?thesis by (auto simp: neq_Nil_conv)
  qed simp
qed simp

text \<open>A run matches when it is the word.\<close>

lemma prefix_run:
  assumes "list_all word_char t" and "boundary s" and "list_all word_char w"
  shows "prefix w (t @ s) \<and> boundary (drop (length w) (t @ s)) \<longleftrightarrow> w = t"
proof
  assume p: "prefix w (t @ s) \<and> boundary (drop (length w) (t @ s))"
  then obtain zs where "t @ s = w @ zs" by (auto elim: prefixE)
  then consider u where "t = w @ u" | v where "w = t @ v" "prefix v s"
    by (auto simp: append_eq_append_conv2)
  then show "w = t"
  proof cases
    case 1
    with p assms(1) show ?thesis by (cases u) auto
  next
    case 2
    with assms(2,3) show ?thesis by (cases v) (auto simp: prefix_def)
  qed
qed (use assms(2) in simp)

lemma replace_word_token:
  assumes "list_all word_char t" and "t \<noteq> []" and "boundary s" and "list_all word_char w" and "w \<noteq> []"
  shows "replace_word w False (t @ s) = (if t = w then ''<filtered>'' else t) @ replace_word w False s"
proof -
  obtain ch cs where t: "t = ch # cs" using assms(2) by (cases t) auto
  show ?thesis
  proof (cases "t = w")
    case True
    have "replace_word w True s = replace_word w False s"
      using replace_word_run [of "[]" s w] assms by simp
    moreover from True t have w: "w = ch # cs" by simp
    ultimately show ?thesis using assms(3) by (simp add: w t)
  next
    case False
    with prefix_run [OF assms(1,3,4)] t
    have "replace_word w False (t @ s) = ch # replace_word w True (cs @ s)"
      using assms(1) by auto
    with False replace_word_run [of cs s w] assms t show ?thesis by simp
  qed
qed

definition mark :: "string list \<Rightarrow> string \<Rightarrow> string list" where
  "mark ws t = (if t \<in> set ws then [''<'', ''filtered'', ''>''] else [t])"

lemma replace_word_tokens:
  assumes "proper ts" and "list_all word_char w" and "w \<noteq> []"
  shows "replace_word w False (concat ts) = concat (concat (map (mark [w]) ts))"
  using assms(1)
proof (induction ts)
  case (Cons t ts)
  then consider "list_all word_char t" "t \<noteq> []" "boundary (concat ts)" | ch where "t = [ch]" "\<not> word_char ch" by auto
  then show ?case
  proof cases
    case 1
    with Cons replace_word_token [OF 1 assms(2,3)] show ?thesis by (simp add: mark_def)
  next
    case 2
    with assms have "t \<noteq> w" by auto
    with 2 assms Cons replace_word_other [of ch w False "concat ts"] show ?thesis
      by (auto simp: mark_def neq_Nil_conv)
  qed
qed simp

section \<open>All words\<close>

lemma boundary_mark: "boundary (concat ts) \<Longrightarrow> boundary (concat (concat (map (mark ws) ts)))"
proof (induction ts)
  case (Cons t ts)
  moreover have "\<not> word_char (CHR ''<'')" by code_simp
  ultimately show ?case by (cases t; cases "t \<in> set ws") (auto simp: mark_def)
qed simp

lemma proper_mark: "proper ts \<Longrightarrow> proper (concat (map (mark ws) ts))"
proof (induction ts)
  case (Cons t ts)
  have "proper (concat (map (mark ws) ts))" "boundary (concat ts) \<Longrightarrow> boundary (concat (concat (map (mark ws) ts)))"
    using Cons boundary_mark by simp_all
  moreover have "list_all word_char ''filtered''" "\<not> word_char (CHR ''<'')" "\<not> word_char (CHR ''>'')" by code_simp+
  ultimately show ?case using Cons.prems by (auto simp: mark_def [of ws t])
qed simp

lemma filter_words_tokens:
  assumes "proper ts" and "\<forall>w\<in>set ws. list_all word_char w \<and> w \<noteq> []" and "''filtered'' \<notin> set ws"
  shows "filter_words ws (concat ts) = concat (concat (map (mark ws) ts))"
  using assms
proof (induction ws arbitrary: ts)
  case Nil
  then show ?case by (simp add: filter_words_def mark_def)
next
  case (Cons w ws)
  have "filter_words (w # ws) (concat ts) = filter_words ws (concat (concat (map (mark [w]) ts)))"
    using Cons.prems replace_word_tokens [of ts w] by (simp add: filter_words_def)
  also have "\<dots> = concat (concat (map (mark ws) (concat (map (mark [w]) ts))))"
    using Cons.prems proper_mark [of ts "[w]"] by (intro Cons.IH) auto
  also have "concat (map (mark ws) (concat (map (mark [w]) ts))) = concat (map (mark (w # ws)) ts)"
  proof -
    have "''<'' \<notin> set ws" "''>'' \<notin> set ws" using Cons.prems(2) by (auto simp: word_char_def of_char_def)
    then have "concat (map (mark ws) (mark [w] t)) = mark (w # ws) t" for t
      using Cons.prems(3) by (simp add: mark_def)
    then show ?thesis by (induction ts) simp_all
  qed
  finally show ?case .
qed



end
