(* ===== verification/ActorPool.thy ===== *)
theory ActorPool
  imports Prelude "HOL-Library.AList"
begin

text \<open>
  The thread pool of the reactor, \<open>srv/ActorThreadPool.java\<close>: tasks are submitted for actors, and
  the tasks of one actor must run one at a time and in their order, on any number of threads.
\<close>

section \<open>The pool\<close>

text \<open>
  \<open>acts\<close> has the tasks that wait for each actor, \<open>playingNow\<close> the actors with a task in the hands
  of the executor. The executor (a fixed pool of \<open>workers\<close> threads) is its queue \<open>jobs\<close> and the
  tasks \<open>busy\<close> that its threads are running. \<open>submitted\<close> and \<open>started\<close> are logs that the code does not have.
  \<open>submit\<close> and \<open>complete\<close> hold the monitor of the actor; each is one step.
\<close>

record ('a, 'r) pool =
  acts :: "('a \<times> 'r list) list"
  playingNow :: "'a list"
  workers :: nat
  jobs :: "('a \<times> 'r) list"
  busy :: "('a \<times> 'r) list"
  stopped :: bool
  submitted :: "('a \<times> 'r) list"
  started :: "('a \<times> 'r) list"

definition ActorThreadPool :: "nat \<Rightarrow> ('a, 'r) pool" where
  "ActorThreadPool n =
     \<lparr>acts = [], playingNow = [], workers = n, jobs = [], busy = [], stopped = False, submitted = [], started = []\<rparr>"

text \<open>An actor without a queue is given an empty one.\<close>

definition pendingRunnablesOf :: "'a \<Rightarrow> ('a, 'r) pool \<Rightarrow> 'r list \<times> ('a, 'r) pool" where
  "pendingRunnablesOf act p =
     (case map_of (acts p) act of
        Some q \<Rightarrow> (q, p)
      | None \<Rightarrow> ([], p\<lparr>acts := AList.update act [] (acts p)\<rparr>))"

text \<open>A pool that has been shut down rejects the task with an exception.\<close>

definition execute :: "'r \<Rightarrow> 'a \<Rightarrow> ('a, 'r) pool \<Rightarrow> ('a, 'r) pool" where
  "execute r act p = (if stopped p then p else p\<lparr>jobs := jobs p @ [(act, r)]\<rparr>)"

definition submit :: "'a \<Rightarrow> 'r \<Rightarrow> ('a, 'r) pool \<Rightarrow> ('a, 'r) pool" where
  "submit act r p =
     (if act \<notin> set (playingNow p)
      then execute r act (p\<lparr>playingNow := act # playingNow p\<rparr>)
      else let (q, p1) = pendingRunnablesOf act p
           in p1\<lparr>acts := AList.update act (q @ [r]) (acts p1)\<rparr>)"

definition complete :: "'a \<Rightarrow> ('a, 'r) pool \<Rightarrow> ('a, 'r) pool" where
  "complete act p =
     (let (q, p1) = pendingRunnablesOf act p
      in case q of
           [] \<Rightarrow> p1\<lparr>playingNow := removeAll act (playingNow p1)\<rparr>
         | r # q' \<Rightarrow> execute r act (p1\<lparr>acts := AList.update act q' (acts p1)\<rparr>))"

definition shutdown :: "('a, 'r) pool \<Rightarrow> ('a, 'r) pool" where
  "shutdown p = p\<lparr>stopped := True, jobs := []\<rparr>"

text \<open>
  The steps of the executor: an idle thread takes the first job; a task ends, with or without an
  exception, and \<open>complete\<close> is called.
\<close>

inductive work :: "('a, 'r) pool \<Rightarrow> ('a, 'r) pool \<Rightarrow> bool" where
  start: "jobs p = (a, r) # js \<Longrightarrow> length (busy p) < workers p \<Longrightarrow>
    work p (p\<lparr>jobs := js, busy := busy p @ [(a, r)], started := started p @ [(a, r)]\<rparr>)"
| finish: "(a, r) \<in> set (busy p) \<Longrightarrow> work p (complete a (p\<lparr>busy := remove1 (a, r) (busy p)\<rparr>))"

inductive pool_step :: "('a, 'r) pool \<Rightarrow> ('a, 'r) pool \<Rightarrow> bool" where
  working: "work p q \<Longrightarrow> pool_step p q"
| submitting: "pool_step p ((submit a r p)\<lparr>submitted := submitted p @ [(a, r)]\<rparr>)"
| stopping: "pool_step p (shutdown p)"

section \<open>Its invariant\<close>

definition of_act :: "'a \<Rightarrow> ('a \<times> 'r) list \<Rightarrow> 'r list" where
  "of_act a xs = map snd (filter (\<lambda>x. fst x = a) xs)"

lemma of_act_simps [simp]:
  "of_act a [] = []" "of_act a (xs @ ys) = of_act a xs @ of_act a ys"
  "of_act a ((b, r) # xs) = (if a = b then r # of_act a xs else of_act a xs)"
  by (auto simp: of_act_def)

lemma of_act_absent: "a \<notin> fst ` set xs \<Longrightarrow> of_act a xs = []"
  by (force simp: of_act_def filter_empty_conv)

definition pending :: "'a \<Rightarrow> ('a, 'r) pool \<Rightarrow> 'r list" where
  "pending a p = (case map_of (acts p) a of Some q \<Rightarrow> q | None \<Rightarrow> [])"

text \<open>
  An actor is playing when exactly one of its tasks is in the hands of the executor, only a playing
  actor has tasks that wait, and what has been started, what is with the executor and what waits
  is together, in this order, what has been submitted.
\<close>

definition pool_ok :: "('a, 'r) pool \<Rightarrow> bool" where
  "pool_ok p \<longleftrightarrow>
     distinct (map fst (jobs p @ busy p)) \<and> set (playingNow p) = fst ` set (jobs p @ busy p)
   \<and> (\<forall>a. a \<notin> set (playingNow p) \<longrightarrow> pending a p = [])
   \<and> (\<forall>a. of_act a (started p) @ of_act a (jobs p) @ pending a p = of_act a (submitted p))"

lemma pendingRunnablesOf_simps:
  "fst (pendingRunnablesOf a p) = pending a p"
  "pending b (snd (pendingRunnablesOf a p)) = pending b p"
  "jobs (snd (pendingRunnablesOf a p)) = jobs p" "busy (snd (pendingRunnablesOf a p)) = busy p"
  "playingNow (snd (pendingRunnablesOf a p)) = playingNow p" "stopped (snd (pendingRunnablesOf a p)) = stopped p"
  "started (snd (pendingRunnablesOf a p)) = started p" "submitted (snd (pendingRunnablesOf a p)) = submitted p"
  "workers (snd (pendingRunnablesOf a p)) = workers p"
  by (auto simp: pendingRunnablesOf_def pending_def update_conv' split: option.splits)

lemma pending_update: "pending b (p\<lparr>acts := AList.update a q (acts p)\<rparr>) = (if b = a then q else pending b p)"
  by (simp add: pending_def update_conv')

lemma pending_frame [simp]:
  "pending a (p\<lparr>jobs := x1\<rparr>) = pending a p" "pending a (p\<lparr>busy := x2\<rparr>) = pending a p"
  "pending a (p\<lparr>playingNow := x3\<rparr>) = pending a p" "pending a (p\<lparr>started := x4\<rparr>) = pending a p"
  "pending a (p\<lparr>submitted := x5\<rparr>) = pending a p"
  by (simp_all add: pending_def)

lemma complete_eq:
  "complete a p =
     (case pending a p of
        [] \<Rightarrow> (snd (pendingRunnablesOf a p))\<lparr>playingNow := removeAll a (playingNow p)\<rparr>
      | r # q \<Rightarrow> execute r a ((snd (pendingRunnablesOf a p))\<lparr>acts := AList.update a q (acts (snd (pendingRunnablesOf a p)))\<rparr>))"
  by (simp add: complete_def split_def Let_def pendingRunnablesOf_simps split: list.split)

lemma submit_eq:
  "submit a r p =
     (if a \<notin> set (playingNow p) then execute r a (p\<lparr>playingNow := a # playingNow p\<rparr>)
      else (snd (pendingRunnablesOf a p))\<lparr>acts := AList.update a (pending a p @ [r]) (acts (snd (pendingRunnablesOf a p)))\<rparr>)"
  by (simp add: submit_def split_def Let_def pendingRunnablesOf_simps)

text \<open>What one call changes.\<close>

lemma complete_last:
  assumes "pending a p = []"
  shows "jobs (complete a p) = jobs p" "busy (complete a p) = busy p" "started (complete a p) = started p"
    "submitted (complete a p) = submitted p" "stopped (complete a p) = stopped p" "workers (complete a p) = workers p"
    "set (playingNow (complete a p)) = set (playingNow p) - {a}" "pending b (complete a p) = pending b p"
  using assms by (simp_all add: complete_eq pendingRunnablesOf_simps)

lemma complete_next:
  assumes "pending a p = r # q" and "\<not> stopped p"
  shows "jobs (complete a p) = jobs p @ [(a, r)]" "busy (complete a p) = busy p" "started (complete a p) = started p"
    "submitted (complete a p) = submitted p" "stopped (complete a p) = stopped p" "workers (complete a p) = workers p"
    "playingNow (complete a p) = playingNow p" "pending b (complete a p) = (if b = a then q else pending b p)"
  using assms by (simp_all add: complete_eq pendingRunnablesOf_simps execute_def pending_update)

lemma submit_first:
  assumes "a \<notin> set (playingNow p)" and "\<not> stopped p"
  shows "jobs (submit a r p) = jobs p @ [(a, r)]" "busy (submit a r p) = busy p" "started (submit a r p) = started p"
    "playingNow (submit a r p) = a # playingNow p" "pending b (submit a r p) = pending b p"
    "stopped (submit a r p) = stopped p"
  using assms by (simp_all add: submit_eq execute_def)

lemma submit_later:
  assumes "a \<in> set (playingNow p)"
  shows "jobs (submit a r p) = jobs p" "busy (submit a r p) = busy p" "started (submit a r p) = started p"
    "playingNow (submit a r p) = playingNow p" "stopped (submit a r p) = stopped p"
    "pending b (submit a r p) = (if b = a then pending a p @ [r] else pending b p)"
  using assms by (simp_all add: submit_eq pendingRunnablesOf_simps pending_update)

lemma pool_okI:
  assumes "distinct (map fst (jobs p @ busy p))" and "set (playingNow p) = fst ` set (jobs p @ busy p)"
    and "\<And>a. a \<notin> set (playingNow p) \<Longrightarrow> pending a p = []"
    and "\<And>a. of_act a (started p) @ of_act a (jobs p) @ pending a p = of_act a (submitted p)"
  shows "pool_ok p"
  using assms by (auto simp: pool_ok_def)

lemma pool_okD:
  assumes "pool_ok p"
  shows "distinct (map fst (jobs p @ busy p))" and "set (playingNow p) = fst ` set (jobs p @ busy p)"
    and "a \<notin> set (playingNow p) \<Longrightarrow> pending a p = []"
    and "of_act a (started p) @ of_act a (jobs p) @ pending a p = of_act a (submitted p)"
  using assms by (auto simp: pool_ok_def)

lemma pool_ok_submit:
  assumes "pool_ok p" and "\<not> stopped p"
  shows "pool_ok ((submit a r p)\<lparr>submitted := submitted p @ [(a, r)]\<rparr>)" (is "pool_ok ?q")
proof (cases "a \<in> set (playingNow p)")
  case True
  note s = submit_later [OF True, where r = r] and ok = pool_okD [OF assms(1)]
  show ?thesis
  proof (rule pool_okI)
    fix b show "of_act b (started ?q) @ of_act b (jobs ?q) @ pending b ?q = of_act b (submitted ?q)"
      using ok(4) [of b] by (cases "b = a") (auto simp: s)
  qed (use ok True in \<open>auto simp: s\<close>)
next
  case False
  note s = submit_first [OF False assms(2), where r = r] and ok = pool_okD [OF assms(1)]
  have n: "pending a p = []" by (rule ok(3) [OF False])
  show ?thesis
  proof (rule pool_okI)
    fix b show "of_act b (started ?q) @ of_act b (jobs ?q) @ pending b ?q = of_act b (submitted ?q)"
      using ok(4) [of b] n by (cases "b = a") (auto simp: s)
  qed (use ok False in \<open>auto simp: s\<close>)
qed

lemma pool_ok_start:
  assumes "pool_ok p" and "jobs p = (a, r) # js"
  shows "pool_ok (p\<lparr>jobs := js, busy := busy p @ [(a, r)], started := started p @ [(a, r)]\<rparr>)" (is "pool_ok ?q")
proof -
  note ok = pool_okD [OF assms(1)]
  have a: "a \<notin> fst ` set js" using ok(1) assms(2) by auto
  have pe: "pending b ?q = pending b p" for b by (simp add: pending_def)
  show ?thesis
  proof (rule pool_okI)
    fix b show "of_act b (started ?q) @ of_act b (jobs ?q) @ pending b ?q = of_act b (submitted ?q)"
      using ok(4) [of b] assms(2) of_act_absent [OF a] unfolding pe by (cases "b = a") auto
  qed (use ok(1,3) ok(2) assms(2) in \<open>auto simp: pe\<close>)
qed

lemma pool_ok_finish:
  assumes "pool_ok p" and "\<not> stopped p" and b: "(a, r) \<in> set (busy p)"
  shows "pool_ok (complete a (p\<lparr>busy := remove1 (a, r) (busy p)\<rparr>))"
proof -
  note ok = pool_okD [OF assms(1)]
  from b obtain xs ys where bs: "busy p = xs @ (a, r) # ys" by (meson split_list)
  let ?p = "p\<lparr>busy := xs @ ys\<rparr>"
  from bs ok(1) have "(a, r) \<notin> set xs" by force
  with bs have rem: "remove1 (a, r) (busy p) = xs @ ys" by (simp add: remove1_append)
  have na: "a \<notin> fst ` set (jobs p @ xs @ ys)" using ok(1) bs by auto
  have pl: "set (playingNow p) = insert a (fst ` set (jobs p @ xs @ ys))" using ok(2) bs by auto
  have d: "distinct (map fst (jobs p @ xs @ ys))" using ok(1) bs by auto
  have j: "of_act a (jobs p) = []" using na by (intro of_act_absent) auto
  have "pool_ok (complete a ?p)"
  proof (cases "pending a ?p")
    case Nil
    note c = complete_last [OF Nil]
    show ?thesis
    proof (rule pool_okI)
      fix b show "of_act b (started (complete a ?p)) @ of_act b (jobs (complete a ?p)) @ pending b (complete a ?p)
        = of_act b (submitted (complete a ?p))"
        using ok(4) [of b] by (simp add: c)
    next
      fix b assume "b \<notin> set (playingNow (complete a ?p))"
      then show "pending b (complete a ?p) = []" using ok(3) [of b] Nil by (cases "b = a") (auto simp: c)
    qed (use d na pl in \<open>auto simp: c\<close>)
  next
    case (Cons r' q)
    have "\<not> stopped ?p" using assms(2) by simp
    note c = complete_next [OF Cons this]
    show ?thesis
    proof (rule pool_okI)
      fix b show "of_act b (started (complete a ?p)) @ of_act b (jobs (complete a ?p)) @ pending b (complete a ?p)
        = of_act b (submitted (complete a ?p))"
        using ok(4) [of b] Cons j by (cases "b = a") (auto simp: c)
    next
      fix b assume "b \<notin> set (playingNow (complete a ?p))"
      then show "pending b (complete a ?p) = []" using ok(3) [of b] pl by (cases "b = a") (auto simp: c)
    qed (use d na pl in \<open>auto simp: c\<close>)
  qed
  then show ?thesis by (simp only: rem)
qed

section \<open>Every run of the pool\<close>

text \<open>The reachable states of a pool that has not been shut down.\<close>

inductive pool_run :: "nat \<Rightarrow> ('a, 'r) pool \<Rightarrow> bool" for n where
  new: "pool_run n (ActorThreadPool n)"
| step: "pool_run n p \<Longrightarrow> pool_step p q \<Longrightarrow> \<not> stopped q \<Longrightarrow> pool_run n q"

inductive_cases workE: "work p q"
inductive_cases pool_stepE: "pool_step p q"

lemma pool_ok_new: "pool_ok (ActorThreadPool n)"
  by (simp add: pool_ok_def ActorThreadPool_def pending_def)

lemma stopped_frame [simp]:
  "stopped (complete a p) = stopped p" "stopped (submit a r p) = stopped p" "workers (complete a p) = workers p"
  "workers (submit a r p) = workers p" "submitted (complete a p) = submitted p"
  by (auto simp: complete_eq submit_eq pendingRunnablesOf_simps execute_def split: list.split)

lemma work_frame: "work p q \<Longrightarrow> stopped q = stopped p \<and> workers q = workers p \<and> submitted q = submitted p"
  by (auto elim: workE)

lemma pool_ok_work: "work p q \<Longrightarrow> pool_ok p \<Longrightarrow> \<not> stopped p \<Longrightarrow> pool_ok q"
  by (auto elim!: workE intro: pool_ok_start pool_ok_finish)

lemma pool_run_ok: "pool_run n p \<Longrightarrow> pool_ok p \<and> \<not> stopped p \<and> workers p = n"
proof (induction rule: pool_run.induct)
  case new
  then show ?case using pool_ok_new [of n] by (simp add: ActorThreadPool_def)
next
  case (step p q)
  then have ok: "pool_ok p" "\<not> stopped p" by simp_all
  from step.hyps(2) show ?case
  proof (cases rule: pool_step.cases)
    case working
    with ok step show ?thesis using pool_ok_work work_frame by metis
  next
    case (submitting a r)
    with ok step show ?thesis using pool_ok_submit [OF ok] by simp
  next
    case stopping
    with step.hyps(3) show ?thesis by (simp add: shutdown_def)
  qed
qed

section \<open>Progress\<close>

text \<open>What the executor still has to do: a task that waits or is queued has to be started and ended.\<close>

definition waiting :: "('a \<times> 'r list) list \<Rightarrow> nat" where
  "waiting m = sum_list (map (\<lambda>x. length (snd x)) m)"

definition load :: "('a, 'r) pool \<Rightarrow> nat" where
  "load p = 2 * (length (jobs p) + waiting (acts p)) + length (busy p)"

lemma waiting_update:
  "map_of m a = Some q \<Longrightarrow> waiting (AList.update a q' m) + length q = waiting m + length q'"
  "map_of m a = None \<Longrightarrow> waiting (AList.update a [] m) = waiting m"
  by (induction m) (auto simp: waiting_def split: if_splits)

lemma load_complete:
  assumes "\<not> stopped p"
  shows "load (complete a p) = load p"
proof (cases "map_of (acts p) a")
  case None
  then show ?thesis
    by (simp add: load_def complete_def pendingRunnablesOf_def waiting_update(2))
next
  case (Some q)
  show ?thesis
  proof (cases q)
    case Nil
    with Some show ?thesis by (simp add: load_def complete_def pendingRunnablesOf_def)
  next
    case (Cons r q')
    with Some assms waiting_update(1) [OF Some, of q'] show ?thesis
      by (simp add: load_def complete_def pendingRunnablesOf_def execute_def)
  qed
qed

lemma load_work: "work p q \<Longrightarrow> \<not> stopped p \<Longrightarrow> load q < load p"
proof (erule workE)
  fix a r assume "\<not> stopped p" "(a, r) \<in> set (busy p)" "q = complete a (p\<lparr>busy := remove1 (a, r) (busy p)\<rparr>)"
  moreover from this(2) have "length (remove1 (a, r) (busy p)) < length (busy p)"
    by (metis One_nat_def diff_less length_pos_if_in_set length_remove1 less_numeral_extra(1))
  ultimately show ?thesis using load_complete [of "p\<lparr>busy := remove1 (a, r) (busy p)\<rparr>" a] by (simp add: load_def)
qed (simp add: load_def)

lemma works_inv: "(work ^^ k) p q \<Longrightarrow> pool_ok p \<Longrightarrow> \<not> stopped p \<Longrightarrow>
    pool_ok q \<and> \<not> stopped q \<and> workers q = workers p \<and> submitted q = submitted p \<and> load q + k \<le> load p"
proof (induction k arbitrary: q)
  case (Suc k)
  then obtain q' where q': "(work ^^ k) p q'" "work q' q" by auto
  with Suc.IH [OF q'(1)] Suc.prems pool_ok_work [OF q'(2)] work_frame [OF q'(2)] load_work [OF q'(2)]
  show ?case by simp
qed simp

text \<open>When no thread can do anything, nothing is left to do.\<close>

lemma stuck_means_done:
  assumes "pool_ok q" and "0 < workers q" and "\<And>q'. \<not> work q q'"
  shows "of_act a (started q) = of_act a (submitted q)"
proof -
  have "busy q = []" using assms(3) work.finish by (metis list.set_intros(1) neq_Nil_conv surj_pair)
  moreover have "jobs q = []"
  proof (rule ccontr)
    assume "jobs q \<noteq> []"
    then obtain b r js where "jobs q = (b, r) # js" by (metis neq_Nil_conv surj_pair)
    with work.start [OF this] assms(2,3) \<open>busy q = []\<close> show False by simp
  qed
  ultimately show ?thesis using pool_okD(2) [OF assms(1)] pool_okD(3,4) [OF assms(1), of a] by simp
qed

section \<open>Properties\<close>

text \<open>
  C20. On any number of threads and for every schedule, an actor has at most one task running, and its
  tasks are started in the order of submission, none lost and none twice: what has been started, what
  the executor has queued and what waits is what has been submitted for it.
\<close>

theorem actors_in_order:
  assumes "pool_run n p"
  shows "length (of_act a (busy p)) \<le> 1
    \<and> of_act a (started p) @ of_act a (jobs p) @ pending a p = of_act a (submitted p)"
proof -
  have ok: "pool_ok p" using pool_run_ok [OF assms] by blast
  have "length (of_act a xs) \<le> 1" if "distinct (map fst xs)" for xs :: "('a \<times> 'b) list"
    using that by (induction xs) (auto simp: of_act_absent)
  then have "length (of_act a (busy p)) \<le> 1" using pool_okD(1) [OF ok] by simp
  with pool_okD(4) [OF ok] show ?thesis by blast
qed

text \<open>Two tasks for one actor and one for another, on two threads: the second task waits for the first.\<close>

definition pool_demo :: "(nat, string) pool" where
  "pool_demo = foldl (\<lambda>p (a, r). (submit a r p)\<lparr>submitted := submitted p @ [(a, r)]\<rparr>) (ActorThreadPool 2)
     [(1, ''x''), (1, ''y''), (2, ''z'')]"

lemma pool_demo: "pool_run 2 pool_demo" "acts pool_demo = [(1, [''y''])]" "jobs pool_demo = [(1, ''x''), (2, ''z'')]"
proof -
  have s: "pool_run 2 p \<Longrightarrow> pool_run 2 ((submit a r p)\<lparr>submitted := submitted p @ [(a, r)]\<rparr>)" for p :: "(nat, string) pool" and a r
    using pool_run_ok [of 2 p] by (auto intro: pool_run.step [OF _ pool_step.submitting])
  show "pool_run 2 pool_demo" unfolding pool_demo_def by (simp only: foldl.simps split_conv) (intro s pool_run.new)
  show "acts pool_demo = [(1, [''y''])]" "jobs pool_demo = [(1, ''x''), (2, ''z'')]" by code_simp+
qed

theorem actors_in_order_witness:
  "of_act 1 (started pool_demo) @ of_act 1 (jobs pool_demo) @ pending 1 pool_demo = [''x'', ''y'']"
proof -
  have "of_act 1 (submitted pool_demo) = [''x'', ''y'']" by code_simp
  with actors_in_order [OF pool_demo(1), of 1] show ?thesis by simp
qed

text \<open>
  C21. As long as the pool is not shut down it does not stall: after the last submission every
  schedule of its threads ends, after at most \<^term>\<open>load p\<close> steps, and by then every task that has
  been submitted has been started.
\<close>

theorem pool_drains:
  assumes "pool_run n p" and "0 < n"
  shows "(\<forall>k q. (work ^^ k) p q \<longrightarrow> k \<le> load p)
    \<and> (\<forall>k q a. (work ^^ k) p q \<and> (\<forall>q'. \<not> work q q') \<longrightarrow> of_act a (started q) = of_act a (submitted p))"
proof -
  from pool_run_ok [OF assms(1)] have ok: "pool_ok p" "\<not> stopped p" "workers p = n" by auto
  note inv = works_inv [OF _ ok(1,2)]
  have "k \<le> load p" if "(work ^^ k) p q" for k q using inv [OF that] by simp
  moreover have "of_act a (started q) = of_act a (submitted p)"
    if "(work ^^ k) p q" "\<forall>q'. \<not> work q q'" for k q a
    using inv [OF that(1)] stuck_means_done [of q a] that(2) ok(3) assms(2) by simp
  ultimately show ?thesis by blast
qed

theorem pool_drains_witness:
  "\<exists>k q. (work ^^ k) pool_demo q \<and> k \<le> 6 \<and> of_act 1 (started q) = [''x'', ''y''] \<and> of_act 2 (started q) = [''z'']"
proof -
  note drains = pool_drains [OF pool_demo(1), simplified]
  have l: "load pool_demo = 6" by code_simp
  have "\<exists>k. (\<exists>q. (work ^^ k) pool_demo q) \<and> (\<forall>j. (\<exists>q. (work ^^ j) pool_demo q) \<longrightarrow> j \<le> k)"
  proof (rule ex_has_greatest_nat [where k = 0 and b = 7])
    show "\<exists>q. (work ^^ 0) pool_demo q" by simp
    show "\<forall>j. (\<exists>q. (work ^^ j) pool_demo q) \<longrightarrow> j < 7" using drains l by (metis le_imp_less_Suc eval_nat_numeral(3) numeral_eq_Suc)
  qed
  then obtain k q where q: "(work ^^ k) pool_demo q" and g: "\<And>j q. (work ^^ j) pool_demo q \<Longrightarrow> j \<le> k" by blast
  have "\<not> work q q'" for q' using g [of "Suc k" q'] q by auto
  with drains q have "of_act a (started q) = of_act a (submitted pool_demo)" for a by blast
  moreover have "of_act 1 (submitted pool_demo) = [''x'', ''y'']" "of_act 2 (submitted pool_demo) = [''z'']" by code_simp+
  moreover have "k \<le> 6" using drains q l by metis
  ultimately show ?thesis using q by metis
qed

end
