(* ===== verification/ReactorTask.thy ===== *)
theory ReactorTask
  imports ServerProps ActorPool
begin

text \<open>
  The read task of the reactor, the runnable that \<open>NonBlockingConnectionHandler.continueRead\<close>
  submits to the thread pool with a buffer of bytes it has read.
\<close>

section \<open>The task\<close>

text \<open>
  An exception of \<open>process\<close> leaves the loop, and the rest of the buffer is lost; unlike the loop of
  \<open>ConnectionHandlerImpl\<close> the task does not end the connection.
\<close>

fun read_task :: "jvm \<Rightarrow> bytes \<Rightarrow> conn \<Rightarrow> srv \<Rightarrow> conn \<times> outcome" where
  "read_task J [] k s = (k, None, s)"
| "read_task J (b # bs) k s =
     (case decodeNextByte b (encdec k) of
        (None, d) \<Rightarrow> read_task J bs (k\<lparr>encdec := d\<rparr>) s
      | (Some nextMessage, d) \<Rightarrow>
          (case process J (connId_of k) nextMessage s of
             (None, s1) \<Rightarrow> read_task J bs (k\<lparr>encdec := d\<rparr>) s1
           | (Some e, s1) \<Rightarrow> (k\<lparr>encdec := d\<rparr>, Some e, s1)))"

text \<open>The tasks of one handler, one after the other.\<close>

fun read_tasks :: "jvm \<Rightarrow> bytes list \<Rightarrow> conn \<Rightarrow> srv \<Rightarrow> conn \<times> srv" where
  "read_tasks J [] k s = (k, s)"
| "read_tasks J (bs # rest) k s = (case read_task J bs k s of (k1, _, s1) \<Rightarrow> read_tasks J rest k1 s1)"

lemma read_task_eq:
  assumes "feed decodeNextByte bs (encdec k) = (ms, d)"
  shows "snd (read_task J bs k s) = process_all J (connId_of k) ms s
    \<and> (fst (process_all J (connId_of k) ms s) = None \<longrightarrow> fst (read_task J bs k s) = k\<lparr>encdec := d\<rparr>)"
  using assms
proof (induction bs arbitrary: k s ms)
  case (Cons b bs)
  obtain r d1 where b: "decodeNextByte b (encdec k) = (r, d1)" by fastforce
  obtain ms1 where f: "feed decodeNextByte bs d1 = (ms1, d)"
    and ms: "ms = (case r of None \<Rightarrow> ms1 | Some m \<Rightarrow> m # ms1)"
    using Cons.prems b by (auto split: prod.splits)
  note IH = Cons.IH [of "k\<lparr>encdec := d1\<rparr>" ms1, simplified, OF f]
  show ?case
  proof (cases r)
    case None
    with IH [of s] b ms show ?thesis by simp
  next
    case (Some m)
    obtain e s1 where p: "process J (connId_of k) m s = (e, s1)" by fastforce
    with Some IH [of s1] b ms show ?thesis by (cases e) simp_all
  qed
qed simp

lemma process_all_append:
  "process_all J c (xs @ ys) s = then_do (process_all J c xs s) (process_all J c ys)"
  by (induction xs arbitrary: s) (auto simp: then_do_def split: prod.split option.split)

section \<open>Properties\<close>

text \<open>
  With the reactor, too, the split of the stream does not matter: as long as no message throws,
  the tasks of a handler, run in their order with any buffers, leave the state that the messages of
  the whole stream leave, which is the state the thread of the other server would leave.
\<close>

lemma tasks_are_stream:
  assumes "feed decodeNextByte (concat bss) (encdec k) = (ms, d)"
    and "process_all J (connId_of k) ms s = (None, s')" and "\<not> done_flag k" and "connected k"
  shows "read_tasks J bss k s = (k\<lparr>encdec := d\<rparr>, s') \<and> run_loop J (concat bss) k s = (k\<lparr>encdec := d\<rparr>, None, s')"
proof
  show "run_loop J (concat bss) k s = (k\<lparr>encdec := d\<rparr>, None, s')"
    using run_loop_eq [OF assms(3,4,1), of J s] assms(2) by (simp add: prod_eq_iff)
  show "read_tasks J bss k s = (k\<lparr>encdec := d\<rparr>, s')"
    using assms(1,2)
  proof (induction bss arbitrary: k s ms)
    case (Cons bs bss)
    obtain ms1 d1 where f1: "feed decodeNextByte bs (encdec k) = (ms1, d1)" by fastforce
    obtain ms2 where f2: "feed decodeNextByte (concat bss) d1 = (ms2, d)" and ms: "ms = ms1 @ ms2"
      using Cons.prems(1) f1 by (auto simp: feed_append split: prod.splits)
    obtain s1 where p1: "process_all J (connId_of k) ms1 s = (None, s1)" and p2: "process_all J (connId_of k) ms2 s1 = (None, s')"
      using Cons.prems(2) unfolding ms process_all_append
      by (cases "process_all J (connId_of k) ms1 s"; cases "fst (process_all J (connId_of k) ms1 s)") auto
    have "read_task J bs k s = (k\<lparr>encdec := d1\<rparr>, None, s1)"
      using read_task_eq [OF f1, of J s] p1 by (simp add: prod_eq_iff)
    with Cons.IH [of "k\<lparr>encdec := d1\<rparr>" ms2 s1] f2 p2 show ?case by simp
  qed simp
qed

end
