(* ===== verification/Reactor.thy ===== *)
theory Reactor
  imports ReactorTask
begin

text \<open>
  The reactor of the server: \<open>srv/Reactor.java\<close> and \<open>srv/NonBlockingConnectionHandler.java\<close>. One
  selector thread accepts, reads and writes for all clients; the threads of the pool decode, run
  the protocol and put replies into the write queues of the handlers.
\<close>

section \<open>Channels\<close>

text \<open>
  What the code uses of \<open>java.nio\<close>. A key of a channel is cancelled when the channel is closed, and
  taken from the channel by the next selection. \<open>arrived\<close> are the bytes that can be read, \<open>room\<close>
  is the free space of the socket's output buffer, \<open>written\<close> the log of what it has taken. After a
  \<open>reset\<close> by the peer, as on a closed channel, reading and writing throw an \<open>IOException\<close>.
\<close>

datatype interest = OP_READ | OP_WRITE

datatype skey = Unregistered | Cancelled | Valid "interest set"

record channel =
  isOpen :: bool
  key :: skey
  arrived :: bytes
  peer_closed :: bool
  reset :: bool
  room :: nat
  written :: bytes

datatype read_result = ReadError | EndOfStream | Got bytes

definition chan_read :: "nat \<Rightarrow> channel \<Rightarrow> read_result \<times> channel" where
  "chan_read n ch =
     (if \<not> isOpen ch \<or> reset ch then (ReadError, ch)
      else if arrived ch = [] \<and> peer_closed ch then (EndOfStream, ch)
      else (Got (take n (arrived ch)), ch\<lparr>arrived := drop n (arrived ch)\<rparr>))"

text \<open>What a write leaves of its buffer.\<close>

definition chan_write :: "bytes \<Rightarrow> channel \<Rightarrow> (bytes \<times> channel) option" where
  "chan_write bs ch =
     (if \<not> isOpen ch \<or> reset ch then None
      else Some (drop (room ch) bs, ch\<lparr>room := room ch - length bs, written := written ch @ take (room ch) bs\<rparr>))"

definition chan_close :: "channel \<Rightarrow> channel" where
  "chan_close ch = ch\<lparr>isOpen := False, key := (case key ch of Valid _ \<Rightarrow> Cancelled | k \<Rightarrow> k)\<rparr>"

definition readable :: "channel \<Rightarrow> bool" where
  "readable ch \<longleftrightarrow> (case key ch of Valid ops \<Rightarrow> OP_READ \<in> ops | _ \<Rightarrow> False)
     \<and> (arrived ch \<noteq> [] \<or> peer_closed ch \<or> reset ch)"

definition writable :: "channel \<Rightarrow> bool" where
  "writable ch \<longleftrightarrow> (case key ch of Valid ops \<Rightarrow> OP_WRITE \<in> ops | _ \<Rightarrow> False) \<and> (0 < room ch \<or> reset ch)"

definition is_valid :: "channel \<Rightarrow> bool" where
  "is_valid ch \<longleftrightarrow> (case key ch of Valid _ \<Rightarrow> True | _ \<Rightarrow> False)"

section \<open>The state\<close>

text \<open>
  A handler with its protocol and codec. \<open>received\<close> and \<open>taken\<close> are logs of the bytes that
  arrived on its channel and of those its tasks have been given.
\<close>

record nb_handler =
  chan :: channel
  protocol :: conn
  writeQueue :: "bytes list"
  received :: bytes
  taken :: bytes

definition NonBlockingConnectionHandler :: "int \<Rightarrow> nb_handler" where
  "NonBlockingConnectionHandler c =
     \<lparr>chan = \<lparr>isOpen = True, key = Valid {OP_READ}, arrived = [], peer_closed = False, reset = False,
              room = 0, written = []\<rparr>,
      protocol = new_conn c, writeQueue = [], received = [], taken = []\<rparr>"

text \<open>
  Where the selector thread is: in \<open>select\<close>, in \<open>runSelectionThreadTasks\<close>, at the head of the
  loop over the selected keys, at the head of the loop of \<open>continueWrite\<close>, behind this loop, or
  about to change the interest to \<open>OP_READ\<close>; or \<open>serve\<close> has ended with an exception that it does
  not catch. A selected key carries the operations that were ready when it was selected.
\<close>

datatype item = Acceptable | Ready nat bool bool

datatype rexn = CancelledKeyException | NullPointerException

datatype place =
    Selecting
  | Tasks "item list"
  | Keys "item list"
  | Writing nat "item list"
  | Behind nat "item list"
  | ToRead nat "item list"
  | Died rexn

text \<open>
  The second half of a \<open>send\<close>: the thread has added to the write queue and has to add a selector
  task, then to wake the selector.
\<close>

datatype notice = ToTask nat | ToWake

text \<open>
  Handlers, with their channels and keys, are named by their place in \<open>handlers\<close>, buffers by
  their place in \<open>buffers\<close>, which has their contents; a task of the pool is the buffer it was
  submitted with. A selector task has the handler whose interest it changes, and whether the key
  it holds is there or null. \<open>woken\<close>: the next \<open>select\<close> returns at once. \<open>backlog\<close>: clients that
  wait to be accepted.
\<close>

record reactor =
  connections :: "(int \<times> nat) list"
  next_id :: int32
  handlers :: "nb_handler list"
  selectorTasks :: "(nat \<times> bool) list"
  woken :: bool
  place :: place
  backlog :: nat
  BUFFER_POOL :: "nat list"
  buffers :: "bytes list"
  pool :: "(nat, nat) pool"
  notices :: "notice list"
  users :: srv

text \<open>The constructor of the reactor, unlike that of the other server, fills no list of words.\<close>

definition Reactor :: "nat \<Rightarrow> reactor" where
  "Reactor numThreads =
     \<lparr>connections = [], next_id = 0, handlers = [], selectorTasks = [], woken = False, place = Selecting,
      backlog = 0, BUFFER_POOL = [], buffers = [], pool = ActorThreadPool numThreads, notices = [],
      users = new_srv []\<rparr>"

definition on :: "nat \<Rightarrow> (nb_handler \<Rightarrow> nb_handler) \<Rightarrow> reactor \<Rightarrow> reactor" where
  "on i f r = r\<lparr>handlers := (handlers r)[i := f (handlers r ! i)]\<rparr>"

definition chan_of :: "reactor \<Rightarrow> nat \<Rightarrow> channel" where
  "chan_of r i = chan (handlers r ! i)"

definition set_chan :: "nat \<Rightarrow> channel \<Rightarrow> reactor \<Rightarrow> reactor" where
  "set_chan i ch = on i (chan_update (\<lambda>_. ch))"

section \<open>The handler\<close>

definition leaseBuffer :: "reactor \<Rightarrow> nat \<times> reactor" where
  "leaseBuffer r =
     (case BUFFER_POOL r of
        [] \<Rightarrow> (length (buffers r), r\<lparr>buffers := buffers r @ [[]]\<rparr>)
      | b # bs \<Rightarrow> (b, r\<lparr>BUFFER_POOL := bs\<rparr>))"

definition releaseBuffer :: "nat \<Rightarrow> reactor \<Rightarrow> reactor" where
  "releaseBuffer b r = r\<lparr>BUFFER_POOL := BUFFER_POOL r @ [b]\<rparr>"

text \<open>A buffer has 8192 places. The result is the task, or nothing at the end of the stream.\<close>

definition continueRead :: "nat \<Rightarrow> reactor \<Rightarrow> nat option \<times> reactor" where
  "continueRead i r =
     (let (b, r1) = leaseBuffer r
      in case chan_read (2 ^ 13) (chan_of r1 i) of
           (Got bs, ch) \<Rightarrow> (Some b, set_chan i ch (r1\<lparr>buffers := (buffers r1)[b := bs]\<rparr>))
         | (_, ch) \<Rightarrow> (None, set_chan i (chan_close ch) (releaseBuffer b r1)))"

text \<open>
  One turn of the loop of \<open>continueWrite\<close>. With an exception the channel is closed, and the loop
  goes on.
\<close>

definition write_turn :: "nat \<Rightarrow> item list \<Rightarrow> reactor \<Rightarrow> reactor" where
  "write_turn i ks r =
     (case writeQueue (handlers r ! i) of
        [] \<Rightarrow> r\<lparr>place := Behind i ks\<rparr>
      | front # q \<Rightarrow>
          (case chan_write front (chan_of r i) of
             None \<Rightarrow> set_chan i (chan_close (chan_of r i)) r
           | Some (rest, ch) \<Rightarrow>
               if rest \<noteq> []
               then on i (\<lambda>h. h\<lparr>chan := ch, writeQueue := rest # q\<rparr>) (r\<lparr>place := Keys ks\<rparr>)
               else on i (\<lambda>h. h\<lparr>chan := ch, writeQueue := q\<rparr>) r))"

definition write_end :: "nat \<Rightarrow> item list \<Rightarrow> reactor \<Rightarrow> reactor" where
  "write_end i ks r =
     (if writeQueue (handlers r ! i) = []
      then if done_flag (protocol (handlers r ! i))
           then set_chan i (chan_close (chan_of r i)) (r\<lparr>place := Keys ks\<rparr>)
           else r\<lparr>place := ToRead i ks\<rparr>
      else r\<lparr>place := Keys ks\<rparr>)"

text \<open>\<open>send\<close> up to the call of \<open>updateInterestedOps\<close>; the message has been encoded.\<close>

definition add_buffer :: "nat \<Rightarrow> bytes \<Rightarrow> reactor \<Rightarrow> reactor" where
  "add_buffer i bs r = on i (\<lambda>h. h\<lparr>writeQueue := writeQueue h @ [bs]\<rparr>) (r\<lparr>notices := notices r @ [ToTask i]\<rparr>)"

section \<open>The reactor\<close>

text \<open>\<open>key.interestOps(ops)\<close>, for a key that was there when it was looked up, or null.\<close>

definition interestOps :: "bool \<Rightarrow> nat \<Rightarrow> interest set \<Rightarrow> place \<Rightarrow> reactor \<Rightarrow> reactor" where
  "interestOps there i ops after r =
     (if \<not> there then r\<lparr>place := Died NullPointerException\<rparr>
      else if is_valid (chan_of r i)
      then set_chan i ((chan_of r i)\<lparr>key := Valid ops\<rparr>) (r\<lparr>place := after\<rparr>)
      else r\<lparr>place := Died CancelledKeyException\<rparr>)"

definition key_there :: "channel \<Rightarrow> bool" where
  "key_there ch \<longleftrightarrow> key ch \<noteq> Unregistered"

text \<open>\<open>updateInterestedOps\<close> on the selector thread, and the two steps of it on another.\<close>

definition updateInterestedOps :: "nat \<Rightarrow> interest set \<Rightarrow> place \<Rightarrow> reactor \<Rightarrow> reactor" where
  "updateInterestedOps i ops after r = interestOps (key_there (chan_of r i)) i ops after r"

definition notify :: "nat \<Rightarrow> reactor \<Rightarrow> reactor option" where
  "notify k r =
     (if k < length (notices r)
      then case notices r ! k of
             ToTask i \<Rightarrow> Some (r\<lparr>selectorTasks := selectorTasks r @ [(i, key_there (chan_of r i))],
                               notices := (notices r)[k := ToWake]\<rparr>)
           | ToWake \<Rightarrow> Some (r\<lparr>woken := True, notices := take k (notices r) @ drop (Suc k) (notices r)\<rparr>)
      else None)"

definition handleAccept :: "item list \<Rightarrow> reactor \<Rightarrow> reactor" where
  "handleAccept ks r =
     (if backlog r = 0 then r\<lparr>place := Died NullPointerException\<rparr>
      else let c = sint (next_id r)
           in r\<lparr>backlog := backlog r - 1, connections := AList.update c (length (handlers r)) (connections r),
                users := (users r)\<lparr>connectionsMap := List.insert c (connectionsMap (users r))\<rparr>,
                next_id := next_id r + 1, handlers := handlers r @ [NonBlockingConnectionHandler c],
                place := Keys ks\<rparr>)"

definition submit_task :: "nat \<Rightarrow> nat \<Rightarrow> reactor \<Rightarrow> reactor" where
  "submit_task i b r = r\<lparr>pool := (submit i b (pool r))\<lparr>submitted := submitted (pool r) @ [(i, b)]\<rparr>\<rparr>"

definition handleReadWrite :: "nat \<Rightarrow> bool \<Rightarrow> bool \<Rightarrow> item list \<Rightarrow> reactor \<Rightarrow> reactor" where
  "handleReadWrite i isReadable isWritable ks r =
     (let r1 = (if isReadable
                then case continueRead i r of
                       (Some b, r1) \<Rightarrow> submit_task i b r1
                     | (None, r1) \<Rightarrow> r1
                else r)
      in r1\<lparr>place := if is_valid (chan_of r1 i) \<and> isWritable then Writing i ks else Keys ks\<rparr>)"

text \<open>One step of the selector thread outside \<open>select\<close>.\<close>

fun turn_at :: "place \<Rightarrow> reactor \<Rightarrow> reactor option" where
  "turn_at (Tasks ks) r =
     (case selectorTasks r of
        [] \<Rightarrow> Some (r\<lparr>place := Keys ks\<rparr>)
      | (i, there) # ts \<Rightarrow> Some (interestOps there i {OP_READ, OP_WRITE} (Tasks ks) (r\<lparr>selectorTasks := ts\<rparr>)))"
| "turn_at (Keys []) r = Some (r\<lparr>place := Selecting\<rparr>)"
| "turn_at (Keys (Acceptable # ks)) r = Some (handleAccept ks r)"
| "turn_at (Keys (Ready i rd wr # ks)) r =
     Some (if \<not> is_valid (chan_of r i) then r\<lparr>place := Keys ks\<rparr> else handleReadWrite i rd wr ks r)"
| "turn_at (Writing i ks) r = Some (write_turn i ks r)"
| "turn_at (Behind i ks) r = Some (write_end i ks r)"
| "turn_at (ToRead i ks) r = Some (updateInterestedOps i {OP_READ} (Keys ks) r)"
| "turn_at Selecting r = None"
| "turn_at (Died e) r = None"

text \<open>
  \<open>select\<close> waits for a key that is ready, or for a wakeup; it may find any of the keys that are
  ready. It takes cancelled keys from their channels.
\<close>

definition ready :: "reactor \<Rightarrow> item \<Rightarrow> bool" where
  "ready r k =
     (case k of
        Acceptable \<Rightarrow> 0 < backlog r
      | Ready i rd wr \<Rightarrow> i < length (handlers r) \<and> (rd \<or> wr)
          \<and> (rd \<longrightarrow> readable (chan_of r i)) \<and> (wr \<longrightarrow> writable (chan_of r i)))"

definition key_of :: "item \<Rightarrow> nat option" where
  "key_of k = (case k of Acceptable \<Rightarrow> None | Ready i _ _ \<Rightarrow> Some i)"

definition deregister :: "nb_handler \<Rightarrow> nb_handler" where
  "deregister h = (if key (chan h) = Cancelled then h\<lparr>chan := (chan h)\<lparr>key := Unregistered\<rparr>\<rparr> else h)"

definition select :: "item list \<Rightarrow> reactor \<Rightarrow> reactor option" where
  "select ks r =
     (if place r = Selecting \<and> (woken r \<or> ks \<noteq> []) \<and> list_all (ready r) ks \<and> distinct (map key_of ks)
      then Some (r\<lparr>woken := False, handlers := map deregister (handlers r), place := Tasks ks\<rparr>)
      else None)"

section \<open>The threads of the pool\<close>

definition start_job :: "reactor \<Rightarrow> reactor option" where
  "start_job r =
     (case jobs (pool r) of
        [] \<Rightarrow> None
      | (i, b) # js \<Rightarrow>
          if length (busy (pool r)) < workers (pool r)
          then Some (r\<lparr>pool := (pool r)\<lparr>jobs := js, busy := busy (pool r) @ [(i, b)],
                                        started := started (pool r) @ [(i, b)]\<rparr>\<rparr>)
          else None)"

text \<open>\<open>ConnectionsImpl.send\<close> passes a message to the handler that the table has for the id.\<close>

definition deliver :: "int \<times> bytes \<Rightarrow> reactor \<Rightarrow> reactor" where
  "deliver m r = (case map_of (connections r) (fst m) of None \<Rightarrow> r | Some i \<Rightarrow> add_buffer i (snd m) r)"

text \<open>
  A task that runs to its end, with the messages it sends; the buffer is released also after an
  exception, which the executor's thread swallows.
\<close>

definition run_task :: "jvm \<Rightarrow> nat \<Rightarrow> reactor \<Rightarrow> reactor option" where
  "run_task J i r =
     (case map_of (busy (pool r)) i of
        None \<Rightarrow> None
      | Some b \<Rightarrow>
          let bs = buffers r ! b;
              (k, _, s) = read_task J bs (protocol (handlers r ! i)) (users r);
              r1 = on i (\<lambda>h. h\<lparr>protocol := k, taken := taken h @ bs\<rparr>) (r\<lparr>users := s\<rparr>);
              r2 = fold deliver (drop (length (sent_to (users r))) (sent_to s)) r1;
              r3 = releaseBuffer b r2
          in Some (r3\<lparr>pool := complete i ((pool r3)\<lparr>busy := remove1 (i, b) (busy (pool r3))\<rparr>)\<rparr>))"

section \<open>Runs\<close>

text \<open>
  What can happen: bytes of a client arrive, a client closes its side or resets the connection,
  the network drains the output buffer, a client calls; a step of the selector thread; a step of
  the pool, or of a thread within a \<open>send\<close>.
\<close>

datatype act =
    Arrive nat bytes | HangUp nat | Reset nat | Drain nat nat | Dial
  | Select "item list" | Turn | StartJob | RunTask nat | Notify nat

definition when_open :: "(channel \<Rightarrow> channel) \<Rightarrow> nat \<Rightarrow> reactor \<Rightarrow> reactor option" where
  "when_open f i r =
     (if i < length (handlers r) \<and> isOpen (chan_of r i) then Some (set_chan i (f (chan_of r i)) r) else None)"

fun react :: "jvm \<Rightarrow> act \<Rightarrow> reactor \<Rightarrow> reactor option" where
  "react J (Arrive i bs) r =
     (if i < length (handlers r) \<and> isOpen (chan_of r i) \<and> \<not> peer_closed (chan_of r i) \<and> \<not> reset (chan_of r i)
      then Some (on i (\<lambda>h. h\<lparr>chan := (chan h)\<lparr>arrived := arrived (chan h) @ bs\<rparr>, received := received h @ bs\<rparr>) r)
      else None)"
| "react J (HangUp i) r = when_open (peer_closed_update (\<lambda>_. True)) i r"
| "react J (Reset i) r = when_open (reset_update (\<lambda>_. True)) i r"
| "react J (Drain i n) r = when_open (room_update (\<lambda>m. m + n)) i r"
| "react J Dial r = Some (r\<lparr>backlog := backlog r + 1\<rparr>)"
| "react J (Select ks) r = select ks r"
| "react J Turn r = turn_at (place r) r"
| "react J StartJob r = start_job r"
| "react J (RunTask i) r = run_task J i r"
| "react J (Notify k) r = notify k r"

inductive rsteps :: "jvm \<Rightarrow> reactor \<Rightarrow> reactor \<Rightarrow> bool" for J where
  stop: "rsteps J r r"
| step: "rsteps J r r' \<Longrightarrow> react J a r' = Some r'' \<Longrightarrow> rsteps J r r''"

definition internal :: "act \<Rightarrow> bool" where
  "internal a = (case a of Select _ \<Rightarrow> True | Turn \<Rightarrow> True | StartJob \<Rightarrow> True | RunTask _ \<Rightarrow> True | Notify _ \<Rightarrow> True | _ \<Rightarrow> False)"

text \<open>The server is at rest: no thread of it can do anything.\<close>

definition at_rest :: "jvm \<Rightarrow> reactor \<Rightarrow> bool" where
  "at_rest J r \<longleftrightarrow> (\<forall>a. internal a \<longrightarrow> react J a r = None)"

fun replay :: "jvm \<Rightarrow> act list \<Rightarrow> reactor \<Rightarrow> reactor option" where
  "replay J [] r = Some r"
| "replay J (a # as') r = (case react J a r of None \<Rightarrow> None | Some r' \<Rightarrow> replay J as' r')"

end
