(* ===== verification/Outbox.thy ===== *)
theory Outbox
  imports ServerLoop
begin

text \<open>
  What the protocol sends: the log of the bytes for each connection, which only grows.
\<close>

section \<open>The log only grows\<close>

text \<open>The protocol only appends to the log of sent bytes, for connections of the table.\<close>

definition extends :: "srv \<Rightarrow> srv \<Rightarrow> bool" where
  "extends s0 s \<longleftrightarrow> connectionsMap s = connectionsMap s0
     \<and> (\<exists>new. sent_to s = sent_to s0 @ new \<and> fst ` set new \<subseteq> set (connectionsMap s0))"

lemma extends_same [simp]: "extends s s"
  by (simp add: extends_def)

lemma extends_frame [simp]:
  "extends s0 s \<Longrightarrow> extends s0 (upd r f s)" "extends s0 s \<Longrightarrow> extends s0 (incrementPostIPost s)"
  "extends s0 s \<Longrightarrow> extends s0 (s\<lparr>heap := x1\<rparr>)" "extends s0 s \<Longrightarrow> extends s0 (s\<lparr>UsersMap := x2\<rparr>)"
  "extends s0 s \<Longrightarrow> extends s0 (s\<lparr>ActiveUsersMap := x3\<rparr>)"
  by (simp_all add: extends_def)

lemma extends_send [simp]: "extends s0 s \<Longrightarrow> extends s0 (snd (send c msg s))"
  by (auto simp: extends_def send_def split: sum.split)

lemma extends_then_do [simp]:
  "extends s0 (snd p) \<Longrightarrow> (\<And>s. extends s0 s \<Longrightarrow> extends s0 (snd (f s))) \<Longrightarrow> extends s0 (snd (then_do p f))"
  by (rule then_do_invI [where I = "extends s0"])

lemma extends_loops [simp]:
  "extends s0 s \<Longrightarrow> extends s0 (snd (deliver_post my message rs s))"
  "extends s0 s \<Longrightarrow> extends s0 (snd (send_awaiting r n lim posts s))"
  "extends s0 s \<Longrightarrow> extends s0 (snd (send_stats J c my rs s))"
  by (induction rs arbitrary: s, auto, induction posts arbitrary: s n lim, auto split: prod.splits,
      induction rs arbitrary: s, auto split: sum.splits)

lemma extends_handlers:
  "extends s0 s \<Longrightarrow> extends s0 (snd (do_register J c message s))"
  "extends s0 s \<Longrightarrow> extends s0 (snd (do_login J c message s))"
  "extends s0 s \<Longrightarrow> extends s0 (snd (do_logout J c s))"
  "extends s0 s \<Longrightarrow> extends s0 (snd (do_follow J c message s))"
  "extends s0 s \<Longrightarrow> extends s0 (snd (do_post J c message s))"
  "extends s0 s \<Longrightarrow> extends s0 (snd (do_pm J c message s))"
  "extends s0 s \<Longrightarrow> extends s0 (snd (do_logstat J c s))"
  "extends s0 s \<Longrightarrow> extends s0 (snd (do_stat J c message s))"
  "extends s0 s \<Longrightarrow> extends s0 (snd (do_block J c message s))"
  by (auto simp: do_register_def do_login_def do_logout_def do_follow_def do_post_def do_pm_def
      do_logstat_def do_stat_def do_block_def Let_def split: option.split list.split)

lemma extends_process: "extends s0 s \<Longrightarrow> extends s0 (snd (process J c message s))"
  by (simp add: process_def Let_def extends_handlers)

text \<open>The bytes the protocol has sent to a connection.\<close>

definition sent_for :: "srv \<Rightarrow> int \<Rightarrow> bytes" where
  "sent_for s c = concat (map snd (filter (\<lambda>m. fst m = c) (sent_to s)))"

lemma sent_for_extends:
  assumes "extends s0 s"
  obtains bs where "sent_for s c = sent_for s0 c @ bs"
  using assms that by (auto simp: extends_def sent_for_def)

text \<open>Whatever happens to the server with one thread per client, the log of a connection grows.\<close>

lemma sent_for_serve:
  assumes "conns_ok S"
  shows "\<exists>bs. sent_for (shared (serve J ev S)) c = sent_for (shared S) c @ bs"
proof (rule serve_inv [where I = "\<lambda>s. \<exists>bs. sent_for s c = sent_for (shared S) c @ bs", OF assms])
  show "\<exists>bs. sent_for (snd (process J c' m s)) c = sent_for (shared S) c @ bs"
    if "\<exists>bs. sent_for s c = sent_for (shared S) c @ bs" for c' m s
  proof -
    from extends_process [OF extends_same [of s]] obtain bs where "sent_for (snd (process J c' m s)) c = sent_for s c @ bs"
      by (rule sent_for_extends)
    with that show ?thesis by auto
  qed
  show "\<exists>bs. sent_for (s\<lparr>connectionsMap := cs\<rparr>) c = sent_for (shared S) c @ bs"
    if "\<exists>bs. sent_for s c = sent_for (shared S) c @ bs" for cs s
    using that by (simp add: sent_for_def)
qed simp

end
