(* ===== verification/ReactorInv.thy ===== *)
theory ReactorInv
  imports Reactor Outbox
begin

text \<open>
  Invariants of the reactor: its channels, keys, buffers and actors, and that whatever has been put
  into a write queue is either announced to the selector thread or on its way there.
\<close>

section \<open>What a task sends\<close>

lemma extends_task: "extends s0 s \<Longrightarrow> extends s0 (snd (snd (read_task J bs k s)))"
proof (induction bs arbitrary: k s)
  case (Cons b bs)
  show ?case
  proof (cases "decodeNextByte b (encdec k)")
    case (Pair m d)
    with Cons extends_process [OF Cons.prems] show ?thesis
      by (cases m) (auto split: prod.split option.split, (metis snd_conv)+)
  qed
qed simp

section \<open>Channels and handlers\<close>

named_theorems moves \<open>the operations that a step of the reactor is made of\<close>

lemmas [moves] = on_def set_chan_def chan_of_def leaseBuffer_def releaseBuffer_def interestOps_def
  updateInterestedOps_def submit_task_def add_buffer_def when_open_def Let_def

text \<open>An open channel has a valid key, whose interest includes reading.\<close>

definition chan_ok :: "channel \<Rightarrow> bool" where
  "chan_ok ch \<longleftrightarrow> (case key ch of Valid ops \<Rightarrow> isOpen ch \<and> OP_READ \<in> ops | _ \<Rightarrow> \<not> isOpen ch)"

lemma chan_ok_simps [simp]:
  "chan_ok (chan_close ch)" "chan_ok ch \<Longrightarrow> is_valid ch = isOpen ch"
  "chan_ok ch \<Longrightarrow> chan_ok (ch\<lparr>arrived := x1\<rparr>)" "chan_ok ch \<Longrightarrow> chan_ok (ch\<lparr>peer_closed := x2\<rparr>)"
  "chan_ok ch \<Longrightarrow> chan_ok (ch\<lparr>reset := x3\<rparr>)" "chan_ok ch \<Longrightarrow> chan_ok (ch\<lparr>room := x4\<rparr>)"
  "chan_ok ch \<Longrightarrow> chan_ok (ch\<lparr>written := x5\<rparr>)"
  "isOpen ch \<Longrightarrow> OP_READ \<in> ops \<Longrightarrow> chan_ok (ch\<lparr>key := Valid ops\<rparr>)"
  by (auto simp: chan_ok_def chan_close_def is_valid_def split: skey.splits)

lemma chan_ok_deregister [simp]: "chan_ok (chan h) \<Longrightarrow> chan_ok (chan (deregister h))"
  by (auto simp: chan_ok_def deregister_def split: skey.splits)

lemma chan_ok_read: "chan_read n ch = (res, ch') \<Longrightarrow> chan_ok ch \<Longrightarrow> chan_ok ch'"
  by (auto simp: chan_read_def split: if_splits)

lemma chan_ok_write: "chan_write bs ch = Some (rest, ch') \<Longrightarrow> chan_ok ch \<Longrightarrow> chan_ok ch'"
  by (auto simp: chan_write_def split: if_splits)

definition chans_ok :: "reactor \<Rightarrow> bool" where
  "chans_ok r \<longleftrightarrow> (\<forall>h\<in>set (handlers r). chan_ok (chan h))"

section \<open>The steps of the selector thread\<close>

text \<open>A step that only changes the place.\<close>

definition goes :: "reactor \<Rightarrow> place \<Rightarrow> bool" where
  "goes r p \<longleftrightarrow>
     (case place r of
        Tasks ks \<Rightarrow> selectorTasks r = [] \<and> p = Keys ks
      | Keys [] \<Rightarrow> p = Selecting
      | Keys (k # ks) \<Rightarrow> (case k of
            Ready i rd wr \<Rightarrow> p = Keys ks \<or> \<not> rd \<and> wr \<and> is_valid (chan_of r i) \<and> p = Writing i ks
          | Acceptable \<Rightarrow> False)
      | Writing i ks \<Rightarrow> writeQueue (handlers r ! i) = [] \<and> p = Behind i ks
      | Behind i ks \<Rightarrow> (if writeQueue (handlers r ! i) = [] then p = ToRead i ks else p = Keys ks)
      | _ \<Rightarrow> False)"

lemma turnE:
  assumes "turn_at (place r) r = Some r'"
  obtains
    (goes) p where "r' = r\<lparr>place := p\<rparr>" "goes r p"
  | (interest) ks i ts where "place r = Tasks ks" "selectorTasks r = (i, True) # ts" "is_valid (chan_of r i)"
      "r' = set_chan i ((chan_of r i)\<lparr>key := Valid {OP_READ, OP_WRITE}\<rparr>) (r\<lparr>selectorTasks := ts, place := Tasks ks\<rparr>)"
  | (task_dies) ks i there ts e where "place r = Tasks ks" "selectorTasks r = (i, there) # ts"
      "there \<longrightarrow> \<not> is_valid (chan_of r i)" "r' = r\<lparr>selectorTasks := ts, place := Died e\<rparr>"
  | (accept_dies) ks where "place r = Keys (Acceptable # ks)" "backlog r = 0" "r' = r\<lparr>place := Died NullPointerException\<rparr>"
  | (accept) ks where "place r = Keys (Acceptable # ks)" "0 < backlog r" "r' = handleAccept ks r"
  | (reads) i wr ks b r1 bs ch p where "place r = Keys (Ready i True wr # ks)" "is_valid (chan_of r i)"
      "leaseBuffer r = (b, r1)" "chan_read (2 ^ 13) (chan_of r i) = (Got bs, ch)"
      "r' = (submit_task i b (set_chan i ch (r1\<lparr>buffers := (buffers r1)[b := bs]\<rparr>)))\<lparr>place := p\<rparr>" "p = Keys ks \<or> wr \<and> p = Writing i ks"
  | (no_read) i wr ks b r1 p where "place r = Keys (Ready i True wr # ks)" "is_valid (chan_of r i)"
      "leaseBuffer r = (b, r1)"
      "r' = (set_chan i (chan_close (chan_of r i)) (releaseBuffer b r1))\<lparr>place := p\<rparr>" "p = Keys ks \<or> wr \<and> p = Writing i ks"
  | (write_fails) i ks buf q where "place r = Writing i ks" "writeQueue (handlers r ! i) = buf # q"
      "chan_write buf (chan_of r i) = None" "r' = set_chan i (chan_close (chan_of r i)) r"
  | (write_part) i ks buf q rest ch where "place r = Writing i ks" "writeQueue (handlers r ! i) = buf # q"
      "chan_write buf (chan_of r i) = Some (rest, ch)" "rest \<noteq> []"
      "r' = on i (\<lambda>h. h\<lparr>chan := ch, writeQueue := rest # q\<rparr>) (r\<lparr>place := Keys ks\<rparr>)"
  | (write_all) i ks buf q ch where "place r = Writing i ks" "writeQueue (handlers r ! i) = buf # q"
      "chan_write buf (chan_of r i) = Some ([], ch)" "r' = on i (\<lambda>h. h\<lparr>chan := ch, writeQueue := q\<rparr>) r"
  | (terminates) i ks where "place r = Behind i ks" "writeQueue (handlers r ! i) = []"
      "r' = set_chan i (chan_close (chan_of r i)) (r\<lparr>place := Keys ks\<rparr>)"
  | (to_read) i ks where "place r = ToRead i ks" "is_valid (chan_of r i)"
      "r' = set_chan i ((chan_of r i)\<lparr>key := Valid {OP_READ}\<rparr>) (r\<lparr>place := Keys ks\<rparr>)"
  | (to_read_dies) i ks e where "place r = ToRead i ks" "\<not> is_valid (chan_of r i)" "r' = r\<lparr>place := Died e\<rparr>"
proof (cases "place r")
  case Selecting
  with assms show thesis by simp
next
  case (Tasks ks)
  show thesis
  proof (cases "selectorTasks r")
    case Nil
    with assms Tasks goes show thesis by (simp add: goes_def)
  next
    case (Cons t ts)
    obtain i th where t: "t = (i, th)" by fastforce
    show thesis
    proof (cases "th \<and> is_valid (chan_of r i)")
      case True
      with assms Tasks Cons t have "r' = set_chan i ((chan_of r i)\<lparr>key := Valid {OP_READ, OP_WRITE}\<rparr>) (r\<lparr>selectorTasks := ts, place := Tasks ks\<rparr>)"
        by (simp add: interestOps_def chan_of_def)
      with interest Tasks Cons t True show thesis by simp
    next
      case False
      with assms Tasks Cons t show thesis by (intro task_dies [of ks i th ts "if th then CancelledKeyException else NullPointerException"]) (auto simp: interestOps_def chan_of_def split: if_splits)
    qed
  qed
next
  case (Keys ks)
  show thesis
  proof (cases ks)
    case Nil
    with assms Keys goes show thesis by (simp add: goes_def)
  next
    case (Cons k ks')
    show thesis
    proof (cases k)
      case Acceptable
      with assms Keys Cons accept accept_dies show thesis by (cases "backlog r = 0") (auto simp: handleAccept_def)
    next
      case (Ready i rd wr)
      obtain b r1 where l: "leaseBuffer r = (b, r1)" by fastforce
      then have r1: "handlers r1 = handlers r" by (auto simp: leaseBuffer_def split: list.splits)
      obtain res ch where c: "chan_read (2 ^ 13) (chan_of r i) = (res, ch)" by fastforce
      show thesis
      proof (cases "is_valid (chan_of r i)")
        case False
        with assms Keys Cons Ready goes show thesis by (simp add: goes_def)
      next
        case v: True
        show thesis
        proof (cases rd)
          case False
          with assms Keys Cons Ready v goes [of "if wr then Writing i ks' else Keys ks'"] show thesis
            by (auto simp: goes_def handleReadWrite_def split: if_splits)
        next
          case True
          show thesis
          proof (cases "\<exists>bs. res = Got bs")
            case True
            then obtain bs where res: "res = Got bs" by blast
            show thesis
              by (rule reads [of i wr ks' b r1 bs ch "place r'"])
                 (use assms Keys Cons Ready v \<open>rd\<close> l r1 c res in \<open>auto simp: handleReadWrite_def continueRead_def chan_of_def Let_def split: if_splits\<close>)
          next
            case False
            with c have "ch = chan_of r i" by (auto simp: chan_read_def split: if_splits)
            then show thesis
              by (intro no_read [of i wr ks' b r1 "place r'"])
                 (use assms Keys Cons Ready v \<open>rd\<close> l r1 c False in \<open>auto simp: handleReadWrite_def continueRead_def chan_of_def Let_def split: read_result.splits if_splits\<close>)
          qed
        qed
      qed
    qed
  qed
next
  case (Writing i ks)
  show thesis
  proof (cases "writeQueue (handlers r ! i)")
    case Nil
    with assms Writing goes show thesis by (simp add: goes_def write_turn_def)
  next
    case (Cons front q)
    with assms Writing write_fails write_part write_all show thesis
      by (cases "chan_write front (chan_of r i)") (auto simp: write_turn_def split: if_splits)
  qed
next
  case (Behind i ks)
  show thesis
  proof (cases "writeQueue (handlers r ! i) = [] \<and> done_flag (protocol (handlers r ! i))")
    case True
    with assms Behind terminates show thesis by (simp add: write_end_def)
  next
    case False
    with assms Behind goes show thesis by (auto simp: write_end_def goes_def split: if_splits)
  qed
next
  case (ToRead i ks)
  show thesis
  proof (cases "is_valid (chan_of r i)")
    case True
    then have "key_there (chan_of r i)" by (auto simp: is_valid_def key_there_def)
    with assms ToRead True to_read show thesis by (simp add: updateInterestedOps_def interestOps_def)
  next
    case False
    then show thesis
      by (intro to_read_dies [of i ks "if key_there (chan_of r i) then CancelledKeyException else NullPointerException"])
         (use assms ToRead in \<open>auto simp: updateInterestedOps_def interestOps_def split: if_splits\<close>)
  qed
next
  case (Died e)
  with assms show thesis by simp
qed

section \<open>What the operations leave alone\<close>

lemma nth_upd: "xs[i := x] ! j = (if i = j \<and> i < length xs then x else xs ! j)"
  by (cases "i < length xs") (auto simp: list_update_beyond)

lemma on_simps [simp]:
  "handlers (on i f r) = (handlers r)[i := f (handlers r ! i)]" "connections (on i f r) = connections r"
  "next_id (on i f r) = next_id r" "selectorTasks (on i f r) = selectorTasks r" "woken (on i f r) = woken r"
  "place (on i f r) = place r" "backlog (on i f r) = backlog r" "BUFFER_POOL (on i f r) = BUFFER_POOL r"
  "buffers (on i f r) = buffers r" "pool (on i f r) = pool r" "notices (on i f r) = notices r" "users (on i f r) = users r"
  by (simp_all add: on_def)

lemma submit_task_simps [simp]:
  "handlers (submit_task i b r) = handlers r" "connections (submit_task i b r) = connections r"
  "next_id (submit_task i b r) = next_id r" "selectorTasks (submit_task i b r) = selectorTasks r"
  "woken (submit_task i b r) = woken r" "place (submit_task i b r) = place r" "backlog (submit_task i b r) = backlog r"
  "BUFFER_POOL (submit_task i b r) = BUFFER_POOL r" "buffers (submit_task i b r) = buffers r"
  "pool (submit_task i b r) = (submit i b (pool r))\<lparr>submitted := submitted (pool r) @ [(i, b)]\<rparr>"
  "notices (submit_task i b r) = notices r" "users (submit_task i b r) = users r"
  by (simp_all add: submit_task_def)

lemma releaseBuffer_simps [simp]:
  "handlers (releaseBuffer b r) = handlers r" "connections (releaseBuffer b r) = connections r"
  "next_id (releaseBuffer b r) = next_id r" "selectorTasks (releaseBuffer b r) = selectorTasks r"
  "woken (releaseBuffer b r) = woken r" "place (releaseBuffer b r) = place r" "backlog (releaseBuffer b r) = backlog r"
  "BUFFER_POOL (releaseBuffer b r) = BUFFER_POOL r @ [b]" "buffers (releaseBuffer b r) = buffers r"
  "pool (releaseBuffer b r) = pool r" "notices (releaseBuffer b r) = notices r" "users (releaseBuffer b r) = users r"
  by (simp_all add: releaseBuffer_def)

lemma leaseBuffer_frame:
  assumes "leaseBuffer r = (b, r1)"
  shows "handlers r1 = handlers r" "connections r1 = connections r" "next_id r1 = next_id r"
    "selectorTasks r1 = selectorTasks r" "woken r1 = woken r" "place r1 = place r" "backlog r1 = backlog r"
    "pool r1 = pool r" "notices r1 = notices r" "users r1 = users r"
  using assms by (auto simp: leaseBuffer_def split: list.splits)

text \<open>The messages of a list that go to one handler.\<close>

definition mine :: "reactor \<Rightarrow> nat \<Rightarrow> (int \<times> bytes) list \<Rightarrow> bytes list" where
  "mine r i ms = map snd (filter (\<lambda>m. map_of (connections r) (fst m) = Some i) ms)"

lemma deliver_frame [simp]:
  "connections (deliver m r) = connections r" "next_id (deliver m r) = next_id r"
  "selectorTasks (deliver m r) = selectorTasks r" "woken (deliver m r) = woken r" "place (deliver m r) = place r"
  "backlog (deliver m r) = backlog r" "BUFFER_POOL (deliver m r) = BUFFER_POOL r" "buffers (deliver m r) = buffers r"
  "pool (deliver m r) = pool r" "users (deliver m r) = users r" "length (handlers (deliver m r)) = length (handlers r)"
  by (simp_all add: deliver_def add_buffer_def split: option.split)

lemma delivers_frame [simp]:
  "connections (fold deliver ms r) = connections r" "next_id (fold deliver ms r) = next_id r"
  "selectorTasks (fold deliver ms r) = selectorTasks r" "woken (fold deliver ms r) = woken r"
  "place (fold deliver ms r) = place r" "backlog (fold deliver ms r) = backlog r"
  "BUFFER_POOL (fold deliver ms r) = BUFFER_POOL r" "buffers (fold deliver ms r) = buffers r"
  "pool (fold deliver ms r) = pool r" "users (fold deliver ms r) = users r"
  "length (handlers (fold deliver ms r)) = length (handlers r)"
  by (induction ms arbitrary: r) simp_all

lemma deliver_nth:
  assumes "i < length (handlers r)"
  shows "handlers (deliver m r) ! i = (handlers r ! i)\<lparr>writeQueue := writeQueue (handlers r ! i) @ mine r i [m]\<rparr>"
  using assms by (auto simp: deliver_def add_buffer_def mine_def nth_list_update split: option.splits)

lemma delivers_nth:
  "i < length (handlers r) \<Longrightarrow>
     handlers (fold deliver ms r) ! i = (handlers r ! i)\<lparr>writeQueue := writeQueue (handlers r ! i) @ mine r i ms\<rparr>"
proof (induction ms arbitrary: r)
  case (Cons m ms)
  moreover have "mine (deliver m r) i ms = mine r i ms" by (simp add: mine_def)
  moreover have "mine r i [m] @ mine r i ms = mine r i (m # ms)" by (simp add: mine_def)
  ultimately show ?case by (simp add: deliver_nth)
qed (simp add: mine_def)

lemma delivers_notices:
  "set (notices (fold deliver ms r)) = set (notices r) \<union> ToTask ` {i. mine r i ms \<noteq> []}"
proof (induction ms arbitrary: r)
  case (Cons m ms)
  have e: "mine (deliver m r) i ms = mine r i ms" for i by (simp add: mine_def)
  have "set (notices (deliver m r)) = set (notices r) \<union> ToTask ` {i. mine r i [m] \<noteq> []}"
    by (auto simp: deliver_def add_buffer_def mine_def split: option.splits)
  moreover have "{i. mine r i (m # ms) \<noteq> []} = {i. mine r i [m] \<noteq> []} \<union> {i. mine r i ms \<noteq> []}"
    by (auto simp: mine_def)
  ultimately show ?case using Cons.IH [of "deliver m r"] by (auto simp: e)
qed (simp add: mine_def)

text \<open>A task that runs, in one equation.\<close>

lemma run_taskE:
  assumes "run_task J i r = Some r'"
  obtains b k e s ms where "map_of (busy (pool r)) i = Some b"
    and "read_task J (buffers r ! b) (protocol (handlers r ! i)) (users r) = (k, e, s)"
    and "sent_to s = sent_to (users r) @ ms" and "fst ` set ms \<subseteq> set (connectionsMap (users r))"
    and "connectionsMap s = connectionsMap (users r)"
    and "r' = (let r2 = fold deliver ms (on i (\<lambda>h. h\<lparr>protocol := k, taken := taken h @ buffers r ! b\<rparr>) (r\<lparr>users := s\<rparr>))
               in r2\<lparr>BUFFER_POOL := BUFFER_POOL r @ [b],
                     pool := complete i ((pool r)\<lparr>busy := remove1 (i, b) (busy (pool r))\<rparr>)\<rparr>)"
proof -
  from assms obtain b where b: "map_of (busy (pool r)) i = Some b" by (auto simp: run_task_def split: option.splits)
  obtain k e s where t: "read_task J (buffers r ! b) (protocol (handlers r ! i)) (users r) = (k, e, s)" by (metis prod.exhaust)
  from extends_task [of "users r" "users r" J "buffers r ! b" "protocol (handlers r ! i)"] t obtain ms
    where ms: "sent_to s = sent_to (users r) @ ms" "fst ` set ms \<subseteq> set (connectionsMap (users r))"
      "connectionsMap s = connectionsMap (users r)" by (auto simp: extends_def)
  from assms b t ms have "r' = (let r2 = fold deliver ms (on i (\<lambda>h. h\<lparr>protocol := k, taken := taken h @ buffers r ! b\<rparr>) (r\<lparr>users := s\<rparr>))
               in r2\<lparr>BUFFER_POOL := BUFFER_POOL r @ [b],
                     pool := complete i ((pool r)\<lparr>busy := remove1 (i, b) (busy (pool r))\<rparr>)\<rparr>)"
    by (auto simp: run_task_def releaseBuffer_def Let_def)
  with b t ms that show thesis by blast
qed

section \<open>The tasks of a handler\<close>

text \<open>The tasks of one actor that have not ended, in their order.\<close>

definition inhand :: "'a \<Rightarrow> ('a, 'r) pool \<Rightarrow> 'r list" where
  "inhand a p = of_act a (busy p) @ of_act a (jobs p) @ pending a p"

lemma of_act_only:
  assumes "distinct (map fst xs)" and "(a, r) \<in> set xs"
  shows "of_act a xs = [r]" and "of_act b (remove1 (a, r) xs) = (if b = a then [] else of_act b xs)"
proof -
  from assms(2) obtain ys zs where xs: "xs = ys @ (a, r) # zs" by (meson split_list)
  with assms(1) have "a \<notin> fst ` set ys" "a \<notin> fst ` set zs" "(a, r) \<notin> set ys" by force+
  with xs show "of_act a xs = [r]" "of_act b (remove1 (a, r) xs) = (if b = a then [] else of_act b xs)"
    by (auto simp: of_act_absent remove1_append)
qed

lemma inhand_submit:
  assumes "pool_ok p" and "\<not> stopped p"
  shows "inhand a ((submit i b p)\<lparr>submitted := x\<rparr>) = inhand a p @ (if a = i then [b] else [])"
proof (cases "i \<in> set (playingNow p)")
  case True
  note s = submit_later [OF True, where r = b]
  show ?thesis by (auto simp: inhand_def s)
next
  case False
  note s = submit_first [OF False assms(2), where r = b]
  from pool_okD(3) [OF assms(1) False] have "pending i p = []" .
  then show ?thesis by (auto simp: inhand_def s)
qed

lemma inhand_start:
  assumes "pool_ok p" and "jobs p = (i, b) # js"
  shows "inhand a (p\<lparr>jobs := js, busy := busy p @ [(i, b)], started := x\<rparr>) = inhand a p"
proof -
  have "i \<notin> fst ` set (busy p)" using pool_okD(1) [OF assms(1)] assms(2) by auto
  then have "of_act i (busy p) = []" by (rule of_act_absent)
  with assms(2) show ?thesis by (simp add: inhand_def)
qed

lemma inhand_finish:
  assumes "pool_ok p" and "\<not> stopped p" and "(i, b) \<in> set (busy p)"
  shows "inhand i p = b # inhand i (complete i (p\<lparr>busy := remove1 (i, b) (busy p)\<rparr>))"
    and "a \<noteq> i \<Longrightarrow> inhand a (complete i (p\<lparr>busy := remove1 (i, b) (busy p)\<rparr>)) = inhand a p"
proof -
  let ?p = "p\<lparr>busy := remove1 (i, b) (busy p)\<rparr>"
  have d: "distinct (map fst (busy p))" and i: "i \<notin> fst ` set (jobs p)"
    using pool_okD(1) [OF assms(1)] assms(3) by (auto, force)
  have o: "of_act i (busy p) = [b]" "of_act i (jobs p) = []" by (rule of_act_only(1) [OF d assms(3)], rule of_act_absent [OF i])
  have o': "of_act c (remove1 (i, b) (busy p)) = (if c = i then [] else of_act c (busy p))" for c
    by (rule of_act_only(2) [OF d assms(3)])
  have "inhand c (complete i ?p) = of_act c (busy ?p) @ of_act c (jobs p) @ pending c p" for c
  proof (cases "pending i ?p")
    case Nil
    then show ?thesis by (simp add: inhand_def complete_last [OF Nil])
  next
    case (Cons r q)
    have "\<not> stopped ?p" using assms(2) by simp
    note n = complete_next [OF Cons this]
    from Cons show ?thesis by (auto simp: inhand_def n o o')
  qed
  then show "inhand i p = b # inhand i (complete i ?p)" "a \<noteq> i \<Longrightarrow> inhand a (complete i ?p) = inhand a p"
    by (auto simp: inhand_def o o')
qed

section \<open>Invariants\<close>

lemmas step_simps = nth_upd set_chan_def chan_of_def handleAccept_def Let_def nth_append leaseBuffer_frame

text \<open>The handlers that the selector thread has before it.\<close>

fun ahead :: "place \<Rightarrow> nat set" where
  "ahead (Tasks ks) = {i. Some i \<in> key_of ` set ks}"
| "ahead (Keys ks) = {i. Some i \<in> key_of ` set ks}"
| "ahead (Writing i ks) = insert i {i. Some i \<in> key_of ` set ks}"
| "ahead (Behind i ks) = insert i {i. Some i \<in> key_of ` set ks}"
| "ahead (ToRead i ks) = insert i {i. Some i \<in> key_of ` set ks}"
| "ahead Selecting = {}"
| "ahead (Died e) = {}"

definition told :: "reactor \<Rightarrow> nat \<Rightarrow> bool" where
  "told r i \<longleftrightarrow> ToTask i \<in> set (notices r) \<or> i \<in> fst ` set (selectorTasks r)"

definition wants_write :: "channel \<Rightarrow> bool" where
  "wants_write ch \<longleftrightarrow> (case key ch of Valid ops \<Rightarrow> OP_WRITE \<in> ops | _ \<Rightarrow> False)"

text \<open>
  Whoever has something to write is waiting for it to become possible, or the selector thread
  will be told; and the selector thread does not sleep on a task.
\<close>

definition heard :: "reactor \<Rightarrow> bool" where
  "heard r \<longleftrightarrow> (\<exists>e. place r = Died e)
     \<or> (\<forall>i<length (handlers r). isOpen (chan_of r i) \<and> writeQueue (handlers r ! i) \<noteq> []
          \<longrightarrow> told r i \<or> wants_write (chan_of r i) \<and> (\<forall>ks. place r \<noteq> ToRead i ks))
       \<and> (selectorTasks r \<noteq> [] \<longrightarrow> woken r \<or> ToWake \<in> set (notices r) \<or> (\<exists>ks. place r = Tasks ks))"

text \<open>
  Every byte that arrived has been given to a task that has run, or is in the buffer of one that
  has not, or can be read; and no buffer has two users.
\<close>

definition bytes_ok :: "reactor \<Rightarrow> bool" where
  "bytes_ok r \<longleftrightarrow> (\<forall>i<length (handlers r).
     taken (handlers r ! i) @ concat (map (\<lambda>b. buffers r ! b) (inhand i (pool r))) @ arrived (chan_of r i)
       = received (handlers r ! i))"

definition leases_ok :: "reactor \<Rightarrow> bool" where
  "leases_ok r \<longleftrightarrow> distinct (BUFFER_POOL r) \<and> set (BUFFER_POOL r) \<subseteq> {..<length (buffers r)}
     \<and> (\<forall>i. distinct (inhand i (pool r)) \<and> set (inhand i (pool r)) \<subseteq> {..<length (buffers r)} - set (BUFFER_POOL r))
     \<and> (\<forall>i j. i \<noteq> j \<longrightarrow> set (inhand i (pool r)) \<inter> set (inhand j (pool r)) = {})"

definition ranges_ok :: "reactor \<Rightarrow> bool" where
  "ranges_ok r \<longleftrightarrow> ahead (place r) \<subseteq> {..<length (handlers r)} \<and> (\<forall>i\<ge>length (handlers r). inhand i (pool r) = [])"

definition pools_ok :: "nat \<Rightarrow> reactor \<Rightarrow> bool" where
  "pools_ok n r \<longleftrightarrow> pool_ok (pool r) \<and> \<not> stopped (pool r) \<and> workers (pool r) = n"

section \<open>The selector thread keeps them\<close>

lemma chan_read_frame: "chan_read n ch = (res, ch') \<Longrightarrow>
    key ch' = key ch \<and> isOpen ch' = isOpen ch \<and> written ch' = written ch \<and> wants_write ch' = wants_write ch"
  by (auto simp: chan_read_def wants_write_def split: if_splits)

lemma chan_write_frame: "chan_write bs ch = Some (rest, ch') \<Longrightarrow>
    key ch' = key ch \<and> isOpen ch' = isOpen ch \<and> arrived ch' = arrived ch \<and> wants_write ch' = wants_write ch
    \<and> written ch' @ rest = written ch @ bs"
  by (auto simp: chan_write_def wants_write_def split: if_splits)

lemma wants_write_Valid [simp]: "wants_write (ch\<lparr>key := Valid ops\<rparr>) = (OP_WRITE \<in> ops)"
  by (simp add: wants_write_def)

lemma not_open_close [simp]: "\<not> isOpen (chan_close ch)" "written (chan_close ch) = written ch" "arrived (chan_close ch) = arrived ch"
  by (simp_all add: chan_close_def)

lemma chans_okI: "(\<And>j. j < length (handlers r) \<Longrightarrow> chan_ok (chan (handlers r ! j))) \<Longrightarrow> chans_ok r"
  by (auto simp: chans_ok_def in_set_conv_nth)

lemma chans_okD: "chans_ok r \<Longrightarrow> j < length (handlers r) \<Longrightarrow> chan_ok (chan (handlers r ! j))"
  by (auto simp: chans_ok_def)

lemma new_handler [simp]:
  "chan_ok (chan (NonBlockingConnectionHandler c))" "writeQueue (NonBlockingConnectionHandler c) = []"
  "taken (NonBlockingConnectionHandler c) = []" "received (NonBlockingConnectionHandler c) = []"
  "arrived (chan (NonBlockingConnectionHandler c)) = []" "written (chan (NonBlockingConnectionHandler c)) = []"
  by (simp_all add: NonBlockingConnectionHandler_def chan_ok_def)

lemma chans_ok_turn:
  assumes "turn_at (place r) r = Some r'" and ok: "chans_ok r"
  shows "chans_ok r'"
proof (rule chans_okI)
  fix j assume "j < length (handlers r')"
  with assms(1) chans_okD [OF ok] show "chan_ok (chan (handlers r' ! j))"
    by (cases rule: turnE) (auto simp: step_simps less_Suc_eq dest: chan_ok_read chan_ok_write)
qed

lemma pools_ok_turn:
  assumes "turn_at (place r) r = Some r'" and "pools_ok n r"
  shows "pools_ok n r'"
  using assms by (cases rule: turnE) (auto simp: pools_ok_def step_simps pool_ok_submit)

lemma ahead_goes: "goes r p \<Longrightarrow> ahead p \<subseteq> ahead (place r)"
  by (auto simp: goes_def key_of_def split: place.splits list.splits item.splits if_splits)

lemma ahead_Keys [simp]: "ahead (Keys (Ready i rd wr # ks)) = insert i (ahead (Keys ks))"
  "ahead (Keys (Acceptable # ks)) = ahead (Keys ks)" "ahead (Tasks ks) = ahead (Keys ks)"
  "ahead (Writing i ks) = insert i (ahead (Keys ks))" "ahead (Behind i ks) = insert i (ahead (Keys ks))"
  "ahead (ToRead i ks) = insert i (ahead (Keys ks))"
  by (auto simp: key_of_def)

lemma ranges_ok_turn:
  assumes "turn_at (place r) r = Some r'" and "ranges_ok r" and "pools_ok n r"
  shows "ranges_ok r'"
  using assms(1)
proof (cases rule: turnE)
  case (goes p)
  with assms ahead_goes [OF goes(2)] show ?thesis by (auto simp: ranges_ok_def)
next
  case (reads i wr ks b r1 bs ch p)
  with assms(2,3) show ?thesis
    by (auto simp: ranges_ok_def pools_ok_def step_simps inhand_submit simp del: ahead.simps)
qed (use assms(2) in \<open>auto simp: ranges_ok_def step_simps simp del: ahead.simps(1-5)\<close>)

lemma heard_turn:
  assumes "turn_at (place r) r = Some r'" and "heard r" and ok: "chans_ok r"
  shows "heard r'"
  using assms(1)
proof (cases rule: turnE)
  case (goes p)
  with assms(2) show ?thesis by (auto simp: heard_def told_def goes_def chan_of_def split: place.splits list.splits item.splits if_splits)
next
  case (interest ks i ts)
  with assms(2) chans_okD [OF ok] show ?thesis by (auto simp: heard_def told_def step_simps dest: chan_read_frame chan_write_frame)
next
  case (reads i wr ks b r1 bs ch p)
  with assms(2) chans_okD [OF ok] show ?thesis by (auto simp: heard_def told_def step_simps dest: chan_read_frame chan_write_frame)
next
  case (no_read i wr ks b r1 p)
  with assms(2) chans_okD [OF ok] show ?thesis by (auto simp: heard_def told_def step_simps dest: chan_read_frame chan_write_frame)
next
  case (write_fails i ks buf q)
  with assms(2) chans_okD [OF ok] show ?thesis by (auto simp: heard_def told_def step_simps dest: chan_read_frame chan_write_frame)
next
  case (write_part i ks buf q rest ch)
  with assms(2) chans_okD [OF ok] show ?thesis by (auto simp: heard_def told_def step_simps dest: chan_read_frame chan_write_frame)
next
  case (write_all i ks buf q ch)
  with assms(2) chans_okD [OF ok] show ?thesis by (auto simp: heard_def told_def step_simps dest: chan_read_frame chan_write_frame)
next
  case (terminates i ks)
  with assms(2) chans_okD [OF ok] show ?thesis by (auto simp: heard_def told_def step_simps dest: chan_read_frame chan_write_frame)
next
  case (to_read i ks)
  with assms(2) chans_okD [OF ok] show ?thesis by (auto simp: heard_def told_def step_simps dest: chan_read_frame chan_write_frame)
next
  case (accept ks)
  with assms(2) chans_okD [OF ok] show ?thesis by (auto simp: heard_def told_def step_simps dest: chan_read_frame chan_write_frame)
qed (auto simp: heard_def)

lemma leases_okD:
  assumes "leases_ok r"
  shows "distinct (BUFFER_POOL r)" and "b \<in> set (BUFFER_POOL r) \<Longrightarrow> b < length (buffers r)"
    and "distinct (inhand i (pool r))" and "b \<in> set (inhand i (pool r)) \<Longrightarrow> b < length (buffers r) \<and> b \<notin> set (BUFFER_POOL r)"
    and "b \<in> set (inhand i (pool r)) \<Longrightarrow> i \<noteq> j \<Longrightarrow> b \<notin> set (inhand j (pool r))"
  using assms unfolding leases_ok_def by blast+

lemma leases_okI:
  assumes "distinct (BUFFER_POOL r)" and "\<And>b. b \<in> set (BUFFER_POOL r) \<Longrightarrow> b < length (buffers r)"
    and "\<And>i. distinct (inhand i (pool r))"
    and "\<And>b i. b \<in> set (inhand i (pool r)) \<Longrightarrow> b < length (buffers r) \<and> b \<notin> set (BUFFER_POOL r)"
    and "\<And>b i j. b \<in> set (inhand i (pool r)) \<Longrightarrow> i \<noteq> j \<Longrightarrow> b \<notin> set (inhand j (pool r))"
  shows "leases_ok r"
  using assms unfolding leases_ok_def by blast

text \<open>A leased buffer is nobody else's.\<close>

lemma leased:
  assumes "leaseBuffer r = (b, r1)" and ok: "leases_ok r"
  shows "b < length (buffers r1)" "b \<notin> set (inhand i (pool r))" "distinct (b # BUFFER_POOL r1)"
    "set (b # BUFFER_POOL r1) \<subseteq> set (BUFFER_POOL r) \<union> {length (buffers r)}" "length (buffers r) \<le> length (buffers r1)"
    "set (b # BUFFER_POOL r1) \<subseteq> {..<length (buffers r1)}"
    "c \<in> set (inhand i (pool r)) \<Longrightarrow> buffers r1 ! c = buffers r ! c"
    "c \<in> set (inhand i (pool r)) \<Longrightarrow> c \<notin> set (BUFFER_POOL r1)"
  using assms(1) leases_okD [OF ok] by (force simp: leaseBuffer_def nth_append split: list.splits)+

lemma leases_ok_cong:
  "leases_ok r \<Longrightarrow> BUFFER_POOL r' = BUFFER_POOL r \<Longrightarrow> length (buffers r') = length (buffers r) \<Longrightarrow> pool r' = pool r \<Longrightarrow> leases_ok r'"
  by (simp add: leases_ok_def)

lemma leases_ok_turn:
  assumes "turn_at (place r) r = Some r'" and ok: "leases_ok r" and p: "pools_ok n r"
  shows "leases_ok r'"
  using assms(1)
proof (cases rule: turnE)
  case (reads i wr ks b r1 bs ch pl)
  note l = leased [OF reads(3) ok] and r1 = leaseBuffer_frame [OF reads(3)]
  have h: "inhand j (pool r') = inhand j (pool r) @ (if j = i then [b] else [])" for j
    using reads(5) p r1 by (auto simp: pools_ok_def inhand_submit set_chan_def)
  have f: "BUFFER_POOL r' = BUFFER_POOL r1" "length (buffers r') = length (buffers r1)"
    using reads(5) by (simp_all add: set_chan_def)
  show ?thesis
  proof (rule leases_okI)
    fix c j k assume "c \<in> set (inhand j (pool r'))" "j \<noteq> k"
    with l(2) leases_okD(5) [OF ok] show "c \<notin> set (inhand k (pool r'))" by (auto simp: h split: if_splits)
  next
    fix c j assume "c \<in> set (inhand j (pool r'))"
    with l leases_okD(4) [OF ok] show "c < length (buffers r') \<and> c \<notin> set (BUFFER_POOL r')"
      by (fastforce simp: h f split: if_splits)
  next
    fix j show "distinct (inhand j (pool r'))" using leases_okD(3) [OF ok] l(2) by (simp add: h)
  qed (use l in \<open>auto simp: f\<close>)
next
  case (no_read i wr ks b r1 pl)
  note l = leased [OF no_read(3) ok] and r1 = leaseBuffer_frame [OF no_read(3)]
  have f: "BUFFER_POOL r' = BUFFER_POOL r1 @ [b]" "buffers r' = buffers r1" "pool r' = pool r"
    using no_read(4) r1 by (simp_all add: set_chan_def)
  show ?thesis
  proof (rule leases_okI)
    fix c j assume "c \<in> set (inhand j (pool r'))"
    with l leases_okD(4) [OF ok] show "c < length (buffers r') \<and> c \<notin> set (BUFFER_POOL r')"
      by (fastforce simp: f)
  qed (use l leases_okD [OF ok] in \<open>auto simp: f\<close>)
qed (use ok in \<open>auto elim!: leases_ok_cong simp: step_simps\<close>)

lemma chan_read_got: "chan_read n ch = (Got bs, ch') \<Longrightarrow> bs @ arrived ch' = arrived ch"
  by (auto simp: chan_read_def split: if_splits)

lemma bytes_ok_turn:
  assumes "turn_at (place r) r = Some r'" and ok: "leases_ok r" and p: "pools_ok n r" and b: "bytes_ok r"
    and g: "ranges_ok r"
  shows "bytes_ok r'"
  using assms(1)
proof (cases rule: turnE)
  case (reads i wr ks b r1 bs ch pl)
  note l = leased [OF reads(3) ok] and r1 = leaseBuffer_frame [OF reads(3)]
  have h: "inhand j (pool r') = inhand j (pool r) @ (if j = i then [b] else [])" for j
    using reads(5) p r1 by (auto simp: pools_ok_def inhand_submit set_chan_def)
  have bu: "buffers r' = (buffers r1)[b := bs]" using reads(5) by (simp add: set_chan_def)
  have m: "map ((!) (buffers r')) (inhand j (pool r)) = map ((!) (buffers r)) (inhand j (pool r))" for j
    using l(2,7) by (auto simp: bu nth_upd)
  have "buffers r' ! b = bs" using l(1) by (simp add: bu)
  then have c: "concat (map ((!) (buffers r')) (inhand j (pool r')))
      = concat (map ((!) (buffers r)) (inhand j (pool r))) @ (if j = i then bs else [])" for j
    by (simp add: h m del: map_eq_conv)
  have "handlers r' = (handlers r)[i := (handlers r ! i)\<lparr>chan := ch\<rparr>]" using reads(5) r1 by (simp add: set_chan_def)
  with b chan_read_got [OF reads(4)] show ?thesis
    unfolding bytes_ok_def c by (auto simp: chan_of_def nth_upd)
next
  case (no_read i wr ks b r1 pl)
  note l = leased [OF no_read(3) ok] and r1 = leaseBuffer_frame [OF no_read(3)]
  have m: "map ((!) (buffers r1)) (inhand j (pool r)) = map ((!) (buffers r)) (inhand j (pool r))" for j using l(7) by auto
  have f: "buffers r' = buffers r1" "pool r' = pool r"
    "handlers r' = (handlers r)[i := (handlers r ! i)\<lparr>chan := chan_close (chan_of r i)\<rparr>]"
    using no_read(4) r1 by (simp_all add: set_chan_def)
  from b show ?thesis unfolding bytes_ok_def chan_of_def f m by (auto simp: nth_upd chan_of_def)
next
  case (accept ks)
  with b g show ?thesis by (auto simp: bytes_ok_def ranges_ok_def step_simps less_Suc_eq)
qed (use b in \<open>auto simp: bytes_ok_def step_simps dest: chan_write_frame\<close>)

section \<open>All steps keep them\<close>

definition reactor_ok :: "nat \<Rightarrow> reactor \<Rightarrow> bool" where
  "reactor_ok n r \<longleftrightarrow> chans_ok r \<and> heard r \<and> bytes_ok r \<and> leases_ok r \<and> ranges_ok r \<and> pools_ok n r"

lemmas invariants = heard_def told_def bytes_ok_def leases_ok_def ranges_ok_def pools_ok_def

lemma reactor_ok_turn: "turn_at (place r) r = Some r' \<Longrightarrow> reactor_ok n r \<Longrightarrow> reactor_ok n r'"
  unfolding reactor_ok_def
  by (meson chans_ok_turn heard_turn bytes_ok_turn leases_ok_turn ranges_ok_turn pools_ok_turn)

lemma reactor_ok_select:
  assumes "select ks r = Some r'" and "reactor_ok n r"
  shows "reactor_ok n r'"
proof -
  from assms(1) have r': "r' = r\<lparr>woken := False, handlers := map deregister (handlers r), place := Tasks ks\<rparr>"
    and p: "place r = Selecting" and rd: "list_all (ready r) ks" by (auto simp: select_def split: if_splits)
  have d: "writeQueue (deregister h) = writeQueue h" "isOpen (chan (deregister h)) = isOpen (chan h)"
    "taken (deregister h) = taken h" "received (deregister h) = received h" "arrived (chan (deregister h)) = arrived (chan h)"
    "wants_write (chan (deregister h)) = wants_write (chan h)" for h
    by (auto simp: deregister_def wants_write_def)
  have "ahead (Tasks ks) \<subseteq> {..<length (handlers r)}"
    using rd by (auto simp: list_all_iff ready_def key_of_def split: item.splits)
  moreover have "chans_ok r'" using assms(2) by (auto simp: reactor_ok_def chans_ok_def r')
  moreover have "heard r'" using assms(2) p by (auto simp: reactor_ok_def heard_def told_def chan_of_def r' d)
  moreover have "bytes_ok r'" using assms(2) by (auto simp: reactor_ok_def bytes_ok_def chan_of_def r' d)
  moreover have "leases_ok r'" using assms(2) by (simp add: reactor_ok_def leases_ok_def r')
  ultimately show ?thesis using assms(2) by (simp add: reactor_ok_def pools_ok_def ranges_ok_def r' del: ahead.simps ahead_Keys)
qed

text \<open>What the invariants do not depend on.\<close>

lemma reactor_ok_pool:
  assumes "reactor_ok n r" and "\<And>a. inhand a p = inhand a (pool r)" and "pool_ok p" "\<not> stopped p" "workers p = n"
  shows "reactor_ok n (r\<lparr>pool := p\<rparr>)"
  using assms by (simp add: reactor_ok_def chans_ok_def heard_def told_def bytes_ok_def leases_ok_def ranges_ok_def pools_ok_def chan_of_def)

lemma reactor_ok_same:
  assumes "reactor_ok n r" and "heard r'" and "handlers r' = handlers r" and "pool r' = pool r" and "place r' = place r"
    and "BUFFER_POOL r' = BUFFER_POOL r" and "buffers r' = buffers r"
  shows "reactor_ok n r'"
  using assms by (simp add: reactor_ok_def chans_ok_def bytes_ok_def leases_ok_def ranges_ok_def pools_ok_def chan_of_def)

lemma reactor_ok_start:
  assumes "start_job r = Some r'" and ok: "reactor_ok n r"
  shows "reactor_ok n r'"
proof -
  from assms(1) obtain i b js where j: "jobs (pool r) = (i, b) # js"
    and r': "r' = r\<lparr>pool := (pool r)\<lparr>jobs := js, busy := busy (pool r) @ [(i, b)], started := started (pool r) @ [(i, b)]\<rparr>\<rparr>"
    by (auto simp: start_job_def split: list.splits if_splits)
  from ok have p: "pool_ok (pool r)" "\<not> stopped (pool r)" "workers (pool r) = n" by (auto simp: reactor_ok_def pools_ok_def)
  show ?thesis unfolding r'
    by (rule reactor_ok_pool [OF ok]) (simp_all add: inhand_start [OF p(1) j] pool_ok_start [OF p(1) j] p)
qed

lemma set_without: "k < length xs \<Longrightarrow> set xs \<subseteq> insert (xs ! k) (set (take k xs @ drop (Suc k) xs))"
  by (subst id_take_nth_drop [of k xs]) auto

lemma heard_more:
  assumes "heard r" and "handlers r' = handlers r" and "place r' = place r" and "\<And>i. told r i \<Longrightarrow> told r' i"
    and "selectorTasks r' \<noteq> [] \<Longrightarrow> woken r' \<or> ToWake \<in> set (notices r')"
  shows "heard r'"
  using assms unfolding heard_def chan_of_def by metis

lemma reactor_ok_notify:
  assumes "notify k r = Some r'" and "reactor_ok n r"
  shows "reactor_ok n r'"
proof -
  from assms(1) have k: "k < length (notices r)" by (simp add: notify_def split: if_splits)
  have h: "heard r" using assms(2) by (simp add: reactor_ok_def)
  show ?thesis
  proof (cases "notices r ! k")
    case (ToTask i)
    with assms(1) k have r': "r' = r\<lparr>selectorTasks := selectorTasks r @ [(i, key_there (chan_of r i))], notices := (notices r)[k := ToWake]\<rparr>"
      by (simp add: notify_def)
    have "ToTask j \<in> set ((notices r)[k := ToWake])" if "ToTask j \<in> set (notices r)" "j \<noteq> i" for j
      using that ToTask by (auto simp: in_set_conv_nth) (metis nth_list_update_neq notice.inject)
    then have "heard r'" by (intro heard_more [OF h]) (auto simp: r' told_def set_update_memI [OF k])
    with assms(2) show ?thesis by (rule reactor_ok_same) (simp_all add: r')
  next
    case ToWake
    with assms(1) k have r': "r' = r\<lparr>woken := True, notices := take k (notices r) @ drop (Suc k) (notices r)\<rparr>"
      by (simp add: notify_def)
    from set_without [OF k] ToWake have "heard r'" by (intro heard_more [OF h]) (auto simp: r' told_def)
    with assms(2) show ?thesis by (rule reactor_ok_same) (simp_all add: r')
  qed
qed

lemma reactor_ok_run:
  assumes "run_task J i r = Some r'" and ok: "reactor_ok n r"
  shows "reactor_ok n r'"
  using assms(1)
proof (rule run_taskE)
  fix b k e s ms
  let ?r1 = "on i (\<lambda>h. h\<lparr>protocol := k, taken := taken h @ buffers r ! b\<rparr>) (r\<lparr>users := s\<rparr>)"
  let ?p = "complete i ((pool r)\<lparr>busy := remove1 (i, b) (busy (pool r))\<rparr>)"
  assume b: "map_of (busy (pool r)) i = Some b"
    and r': "r' = (let r2 = fold deliver ms ?r1 in r2\<lparr>BUFFER_POOL := BUFFER_POOL r @ [b], pool := ?p\<rparr>)"
  have f: "place r' = place r" "selectorTasks r' = selectorTasks r" "woken r' = woken r" "buffers r' = buffers r"
    "BUFFER_POOL r' = BUFFER_POOL r @ [b]" "pool r' = ?p" "length (handlers r') = length (handlers r)"
    by (simp_all add: r' Let_def)
  have h: "handlers r' ! j = (if j = i then (handlers r ! i)\<lparr>protocol := k, taken := taken (handlers r ! i) @ buffers r ! b\<rparr>
      else handlers r ! j)\<lparr>writeQueue := writeQueue (handlers r ! j) @ mine ?r1 j ms\<rparr>" if "j < length (handlers r)" for j
    using that by (simp add: r' Let_def delivers_nth)
  have no: "set (notices r') = set (notices r) \<union> ToTask ` {i. mine ?r1 i ms \<noteq> []}"
    by (simp add: r' Let_def delivers_notices)
  have p: "pool_ok (pool r)" "\<not> stopped (pool r)" "workers (pool r) = n" using ok by (auto simp: reactor_ok_def pools_ok_def)
  from b have bu: "(i, b) \<in> set (busy (pool r))" by (rule map_of_SomeD)
  note hand = inhand_finish [OF p(1,2) bu]
  have c: "chan (handlers r' ! j) = chan (handlers r ! j)" if "j < length (handlers r)" for j using h [OF that] by simp
  have "inhand j (pool r) = []" if "\<not> j < length (handlers r)" for j using that ok by (simp add: reactor_ok_def ranges_ok_def)
  with hand(1) have i: "i < length (handlers r)" by (metis list.distinct(1))
  have "chans_ok r'" by (rule chans_okI) (use ok c f in \<open>simp add: reactor_ok_def chans_okD\<close>)
  moreover have "heard r'"
    using ok c h no unfolding reactor_ok_def heard_def told_def chan_of_def f by (auto split: if_splits)
  moreover have "bytes_ok r'"
    unfolding bytes_ok_def chan_of_def f
  proof (intro allI impI)
    fix j assume j: "j < length (handlers r)"
    have "taken (handlers r ! j) @ concat (map ((!) (buffers r)) (inhand j (pool r))) @ arrived (chan (handlers r ! j)) = received (handlers r ! j)"
      using ok j by (simp add: reactor_ok_def bytes_ok_def chan_of_def)
    with h [OF j] hand c [OF j] show "taken (handlers r' ! j) @ concat (map ((!) (buffers r)) (inhand j ?p)) @ arrived (chan (handlers r' ! j)) = received (handlers r' ! j)"
      by (cases "j = i") simp_all
  qed
  moreover have "leases_ok r'"
  proof -
    note l = leases_okD [of r]
    have lo: "leases_ok r" using ok by (simp add: reactor_ok_def)
    have bi: "b \<in> set (inhand i (pool r))" by (simp add: hand(1))
    have "set (inhand i ?p) \<subseteq> set (inhand i (pool r)) - {b}" "distinct (inhand i ?p)"
      using l(3) [OF lo, of i] unfolding hand(1) by auto
    note own = this
    have sub: "set (inhand j ?p) \<subseteq> set (inhand j (pool r)) - {b}" for j
    proof (cases "j = i")
      case False
      then have "b \<notin> set (inhand j (pool r))" using l(5) [OF lo bi, of j] by blast
      then show ?thesis unfolding hand(2) [OF False] by blast
    qed (use own in blast)
    have d: "distinct (inhand j ?p)" for j using own(2) l(3) [OF lo, of j] hand(2) [of j] by (cases "j = i") metis+
    have bb: "b < length (buffers r) \<and> b \<notin> set (BUFFER_POOL r)" by (rule l(4) [OF lo bi])
    show ?thesis
    proof (rule leases_okI)
      fix c j assume "c \<in> set (inhand j (pool r'))"
      with sub [of j] l(4) [OF lo, of c j] show "c < length (buffers r') \<and> c \<notin> set (BUFFER_POOL r')" by (auto simp: f)
    next
      fix c j m assume "c \<in> set (inhand j (pool r'))" "j \<noteq> m"
      with sub [of j] sub [of m] l(5) [OF lo, of c j m] show "c \<notin> set (inhand m (pool r'))" by (auto simp: f)
    qed (use d bb l(1,2) [OF lo] in \<open>auto simp: f\<close>)
  qed
  moreover have "ranges_ok r'"
    using ok i hand(2) by (simp add: reactor_ok_def ranges_ok_def f)
  moreover have "pools_ok n r'" using p bu by (simp add: pools_ok_def f pool_ok_finish)
  ultimately show ?thesis by (simp add: reactor_ok_def)
qed

lemma reactor_ok_on:
  assumes ok: "reactor_ok n r"
    and f: "chan_ok (chan (handlers r ! i)) \<Longrightarrow> chan_ok (chan (f (handlers r ! i)))"
      "isOpen (chan (f (handlers r ! i))) = isOpen (chan (handlers r ! i))"
      "wants_write (chan (f (handlers r ! i))) = wants_write (chan (handlers r ! i))"
      "writeQueue (f (handlers r ! i)) = writeQueue (handlers r ! i)"
      "taken (f (handlers r ! i)) = taken (handlers r ! i)"
    and x: "arrived (chan (f (handlers r ! i))) = arrived (chan (handlers r ! i)) @ xs"
      "received (f (handlers r ! i)) = received (handlers r ! i) @ xs"
  shows "reactor_ok n (on i f r)"
proof -
  have "chans_ok (on i f r)"
    using ok f(1) chans_okD [of r] by (intro chans_okI) (auto simp: reactor_ok_def nth_upd)
  moreover have "heard (on i f r)"
    using ok f by (auto simp: reactor_ok_def heard_def told_def chan_of_def nth_upd)
  moreover have "bytes_ok (on i f r)"
    using ok f(5) x by (auto simp: reactor_ok_def bytes_ok_def chan_of_def nth_upd)
  ultimately show ?thesis using ok by (simp add: reactor_ok_def leases_ok_def ranges_ok_def pools_ok_def)
qed

lemma reactor_ok_when_open:
  assumes "when_open f i r = Some r'" and ok: "reactor_ok n r"
    and f: "\<And>ch. isOpen (f ch) = isOpen ch \<and> key (f ch) = key ch \<and> arrived (f ch) = arrived ch"
  shows "reactor_ok n r'"
proof -
  from assms(1) have "r' = on i (chan_update (\<lambda>_. f (chan_of r i))) r"
    by (simp add: when_open_def set_chan_def split: if_splits)
  moreover have "reactor_ok n (on i (chan_update (\<lambda>_. f (chan_of r i))) r)"
    by (rule reactor_ok_on [OF ok, where xs = "[]"]) (use f [of "chan_of r i"] in \<open>auto simp: chan_of_def chan_ok_def wants_write_def split: skey.splits\<close>)
  ultimately show ?thesis by simp
qed

lemma reactor_ok_react:
  assumes "react J a r = Some r'" and ok: "reactor_ok n r"
  shows "reactor_ok n r'"
proof (cases a)
  case (Arrive i bs)
  with assms(1) have "r' = on i (\<lambda>h. h\<lparr>chan := (chan h)\<lparr>arrived := arrived (chan h) @ bs\<rparr>, received := received h @ bs\<rparr>) r"
    by (simp split: if_splits)
  then show ?thesis by (auto simp: wants_write_def intro!: reactor_ok_on [OF ok])
next
  case Dial
  with assms(1) have r': "r' = r\<lparr>backlog := backlog r + 1\<rparr>" by simp
  from ok have "heard r'" by (simp add: r' reactor_ok_def heard_def told_def chan_of_def)
  then show ?thesis by (rule reactor_ok_same [OF ok]) (simp_all add: r')
next
  case (HangUp i)
  with assms(1) reactor_ok_when_open [OF _ ok, of "peer_closed_update (\<lambda>_. True)" i r'] show ?thesis by simp
next
  case (Reset i)
  with assms(1) reactor_ok_when_open [OF _ ok, of "reset_update (\<lambda>_. True)" i r'] show ?thesis by simp
next
  case (Drain i k)
  with assms(1) reactor_ok_when_open [OF _ ok, of "room_update (\<lambda>m. m + k)" i r'] show ?thesis by simp
next
  case (Select ks)
  with assms reactor_ok_select show ?thesis by simp
next
  case Turn
  with assms reactor_ok_turn show ?thesis by simp
next
  case StartJob
  with assms reactor_ok_start show ?thesis by simp
next
  case (RunTask i)
  with assms reactor_ok_run show ?thesis by simp
next
  case (Notify k)
  with assms reactor_ok_notify show ?thesis by simp
qed

lemma reactor_ok_new: "reactor_ok n (Reactor n)"
proof -
  have "inhand a (ActorThreadPool n :: (nat, nat) pool) = []" for a by (simp add: inhand_def ActorThreadPool_def pending_def)
  then show ?thesis
    using pool_ok_new [of n]
    by (simp add: reactor_ok_def Reactor_def chans_ok_def heard_def bytes_ok_def leases_ok_def ranges_ok_def pools_ok_def)
       (simp add: ActorThreadPool_def)
qed

lemma rsteps_ok: "rsteps J r r' \<Longrightarrow> reactor_ok n r \<Longrightarrow> reactor_ok n r'"
  by (induction rule: rsteps.induct) (auto intro: reactor_ok_react)

end
