(* ===== verification/ReactorWire.thy ===== *)
theory ReactorWire
  imports ReactorInv
begin

text \<open>
  The connection table of the reactor and its write queues: what a handler has written and has still
  to write is what the protocol has sent to its connection.
\<close>

section \<open>What is written is what the protocol has sent\<close>

definition ident :: "nat \<Rightarrow> int" where
  "ident i = sint (of_nat i :: int32)"

lemma ident_inject: "i < 2 ^ 32 \<Longrightarrow> j < 2 ^ 32 \<Longrightarrow> ident i = ident j \<longleftrightarrow> i = j"
  by (auto simp: ident_def word_of_nat_eq_iff take_bit_eq_mod dest!: signed_word_eqI)

definition wire_ok :: "reactor \<Rightarrow> bool" where
  "wire_ok r \<longleftrightarrow>
     next_id r = of_nat (length (handlers r))
   \<and> connections r = map (\<lambda>i. (ident i, i)) [0..<length (handlers r)]
   \<and> set (connectionsMap (users r)) = ident ` {..<length (handlers r)}
   \<and> fst ` set (sent_to (users r)) \<subseteq> ident ` {..<length (handlers r)}
   \<and> (\<forall>i<length (handlers r). connId_of (protocol (handlers r ! i)) = ident i
        \<and> written (chan_of r i) @ concat (writeQueue (handlers r ! i)) = sent_for (users r) (ident i))"

lemma wire_ok_cong:
  assumes "wire_ok r" and "next_id r' = next_id r" "connections r' = connections r" "users r' = users r"
    and "length (handlers r') = length (handlers r)"
    and "\<And>i. i < length (handlers r) \<Longrightarrow> connId_of (protocol (handlers r' ! i)) = connId_of (protocol (handlers r ! i))
      \<and> written (chan (handlers r' ! i)) @ concat (writeQueue (handlers r' ! i))
        = written (chan (handlers r ! i)) @ concat (writeQueue (handlers r ! i))"
  shows "wire_ok r'"
  using assms unfolding wire_ok_def chan_of_def by simp

lemma update_new: "c \<notin> fst ` set m \<Longrightarrow> AList.update c x m = m @ [(c, x)]"
  by (induction m) auto

lemma wire_ok_accept:
  assumes ok: "wire_ok r" and n: "length (handlers (handleAccept ks r)) \<le> 2 ^ 32" and b: "0 < backlog r"
  shows "wire_ok (handleAccept ks r)"
proof -
  let ?n = "length (handlers r)" and ?r = "handleAccept ks r"
  have n: "?n < 2 ^ 32" using n b by (simp add: handleAccept_def Let_def)
  have c: "sint (next_id r) = ident ?n" using ok by (simp add: wire_ok_def ident_def)
  have new: "ident ?n \<notin> ident ` {..<?n}" using n ident_inject by (auto simp: image_iff)
  then have "ident ?n \<notin> fst ` set (connections r)" using ok by (auto simp: wire_ok_def)
  then have co: "connections ?r = connections r @ [(ident ?n, ?n)]"
    using b by (simp add: handleAccept_def Let_def c update_new)
  have h: "handlers ?r = handlers r @ [NonBlockingConnectionHandler (ident ?n)]"
    using b by (simp add: handleAccept_def Let_def c)
  have u: "sent_to (users ?r) = sent_to (users r)" "connectionsMap (users ?r) = List.insert (ident ?n) (connectionsMap (users r))"
    "next_id ?r = next_id r + 1" using b by (simp_all add: handleAccept_def Let_def c)
  have e: "sent_for (users r) (ident ?n) = []"
  proof -
    have sub: "fst ` set (sent_to (users r)) \<subseteq> ident ` {..<?n}" using ok by (simp add: wire_ok_def)
    have "fst m \<noteq> ident ?n" if "m \<in> set (sent_to (users r))" for m using subsetD [OF sub imageI [OF that]] new by metis
    then show ?thesis by (simp add: sent_for_def filter_False)
  qed
  have "written (chan (handlers ?r ! i)) @ concat (writeQueue (handlers ?r ! i)) = sent_for (users ?r) (ident i)
      \<and> connId_of (protocol (handlers ?r ! i)) = ident i" if "i < Suc ?n" for i
  proof (cases "i < ?n")
    case True
    with ok show ?thesis by (simp add: wire_ok_def chan_of_def h nth_append u sent_for_def)
  next
    case False
    with that have "i = ?n" by simp
    with e show ?thesis by (simp add: h u sent_for_def NonBlockingConnectionHandler_def new_conn_def)
  qed
  then show ?thesis
    using ok unfolding wire_ok_def co u chan_of_def by (simp add: h lessThan_Suc subset_insertI2)
qed

lemma wire_ok_turn:
  assumes "turn_at (place r) r = Some r'" and ok: "wire_ok r" and n: "length (handlers r') \<le> 2 ^ 32"
  shows "wire_ok r'"
  using assms(1)
proof (cases rule: turnE)
  case (accept ks)
  with wire_ok_accept [OF ok] n show ?thesis by simp
next
  case (write_part i ks buf q rest ch)
  with chan_write_frame [OF write_part(3)] show ?thesis
    by (auto intro!: wire_ok_cong [OF ok] simp: nth_upd chan_of_def)
next
  case (write_all i ks buf q ch)
  with chan_write_frame [OF write_all(3)] show ?thesis
    by (auto intro!: wire_ok_cong [OF ok] simp: nth_upd chan_of_def)
qed (use ok in \<open>auto intro!: wire_ok_cong [OF ok] simp: nth_upd set_chan_def chan_of_def leaseBuffer_frame dest: chan_read_frame\<close>)

lemma read_task_conn: "read_task J bs k s = (k', e, s') \<Longrightarrow> connId_of k' = connId_of k"
proof (induction bs arbitrary: k s)
  case (Cons b bs)
  then show ?case by (auto split: prod.splits option.splits)
qed auto

lemma wire_ok_run:
  assumes "run_task J i r = Some r'" and ok: "wire_ok r" and n: "length (handlers r') \<le> 2 ^ 32"
  shows "wire_ok r'"
  using assms(1)
proof (rule run_taskE)
  fix b k e s ms
  let ?r1 = "on i (\<lambda>h. h\<lparr>protocol := k, taken := taken h @ buffers r ! b\<rparr>) (r\<lparr>users := s\<rparr>)"
  let ?n = "length (handlers r)"
  assume t: "read_task J (buffers r ! b) (protocol (handlers r ! i)) (users r) = (k, e, s)"
    and ms: "sent_to s = sent_to (users r) @ ms" "fst ` set ms \<subseteq> set (connectionsMap (users r))"
    and cm: "connectionsMap s = connectionsMap (users r)"
    and r': "r' = (let r2 = fold deliver ms ?r1 in r2\<lparr>BUFFER_POOL := BUFFER_POOL r @ [b],
      pool := complete i ((pool r)\<lparr>busy := remove1 (i, b) (busy (pool r))\<rparr>)\<rparr>)"
  have f: "next_id r' = next_id r" "connections r' = connections r" "users r' = s" "length (handlers r') = ?n"
    by (simp_all add: r' Let_def)
  have len: "?n \<le> 2 ^ 32" using n f by simp
  have h: "handlers r' ! j = (if j = i then (handlers r ! i)\<lparr>protocol := k, taken := taken (handlers r ! i) @ buffers r ! b\<rparr>
      else handlers r ! j)\<lparr>writeQueue := writeQueue (handlers r ! j) @ mine ?r1 j ms\<rparr>" if "j < ?n" for j
    using that by (simp add: r' Let_def delivers_nth)
  have "map_of (connections r) c = Some j \<longleftrightarrow> c = ident j" if "c \<in> ident ` {..<?n}" "j < ?n" for c j
  proof -
    from that(1) obtain m where m: "m < ?n" "c = ident m" by auto
    have d: "distinct (map fst (connections r))"
      using ok len ident_inject by (auto simp: wire_ok_def distinct_map inj_on_def)
    have "(c, j) \<in> set (connections r) \<longleftrightarrow> c = ident j" using ok that(2) by (auto simp: wire_ok_def)
    with d show ?thesis by simp
  qed
  then have mine: "concat (mine ?r1 j ms) = concat (map snd (filter (\<lambda>m. fst m = ident j) ms))" if "j < ?n" for j
    using that ms(2) ok unfolding mine_def wire_ok_def
    by (intro arg_cong [where f = "\<lambda>xs. concat (map snd xs)"] filter_cong) auto
  have "connId_of (protocol (handlers r' ! j)) = ident j
      \<and> written (chan_of r' j) @ concat (writeQueue (handlers r' ! j)) = sent_for (users r') (ident j)" if "j < ?n" for j
    using ok that h [OF that] mine [OF that] read_task_conn [OF t]
    by (auto simp: wire_ok_def chan_of_def f sent_for_def ms(1) simp flip: append_assoc)
  then show ?thesis using ok ms cm unfolding wire_ok_def f by auto
qed

lemma wire_ok_react:
  assumes "react J a r = Some r'" and ok: "wire_ok r" and n: "length (handlers r') \<le> 2 ^ 32"
  shows "wire_ok r'"
proof (cases a)
  case Turn
  with assms wire_ok_turn show ?thesis by simp
next
  case (RunTask i)
  with assms wire_ok_run show ?thesis by simp
next
  case (Select ks)
  with assms(1) show ?thesis
    by (auto intro!: wire_ok_cong [OF ok] simp: select_def deregister_def split: if_splits)
next
  case (Notify k)
  with assms(1) show ?thesis
    by (auto intro!: wire_ok_cong [OF ok] simp: notify_def split: if_splits notice.splits)
qed (use assms(1) in \<open>auto intro!: wire_ok_cong [OF ok] simp: when_open_def set_chan_def chan_of_def nth_upd start_job_def
       split: if_splits list.splits\<close>)

lemma handlers_grow: "react J a r = Some r' \<Longrightarrow> length (handlers r) \<le> length (handlers r')"
proof (cases a)
  case Turn
  assume "react J a r = Some r'"
  with Turn have "turn_at (place r) r = Some r'" by simp
  then show ?thesis by (cases rule: turnE) (auto simp: set_chan_def handleAccept_def Let_def leaseBuffer_frame)
next
  case (RunTask i)
  assume "react J a r = Some r'"
  with RunTask have "run_task J i r = Some r'" by simp
  then show ?thesis by (rule run_taskE) (simp add: Let_def)
qed (auto simp: when_open_def set_chan_def start_job_def notify_def select_def split: if_splits list.splits notice.splits)

lemma wire_ok_new: "wire_ok (Reactor n)"
  by (simp add: wire_ok_def Reactor_def new_srv_def)

lemma rsteps_wire: "rsteps J r0 r \<Longrightarrow> r0 = Reactor n \<Longrightarrow> length (handlers r) \<le> 2 ^ 32 \<Longrightarrow> wire_ok r"
proof (induction rule: rsteps.induct)
  case (step r' a r'')
  then show ?case using wire_ok_react [OF step.hyps(2)] handlers_grow [OF step.hyps(2)] by simp
qed (simp add: wire_ok_new)

end
