(* ===== verification/ReactorProps.thy ===== *)
theory ReactorProps
  imports ReactorWire
begin

text \<open>
  What the reactor guarantees, and how a client ends it.
\<close>

section \<open>At rest\<close>

lemma at_restD:
  assumes "at_rest J r"
  shows "turn_at (place r) r = None" "select ks r = None" "start_job r = None" "run_task J i r = None" "notify k r = None"
  using assms unfolding at_rest_def internal_def
  by (auto dest: spec [of _ Turn] spec [of _ "Select ks"] spec [of _ StartJob] spec [of _ "RunTask i"] spec [of _ "Notify k"])

lemma turn_None: "turn_at p r = None \<longleftrightarrow> p = Selecting \<or> (\<exists>e. p = Died e)"
  by (induction p r rule: turn_at.induct) (auto split: list.split)

lemma at_rest_pool:
  assumes "at_rest J r" and "reactor_ok n r" and "0 < n"
  shows "inhand i (pool r) = []"
proof -
  have p: "pool_ok (pool r)" "workers (pool r) = n" using assms(2) by (auto simp: reactor_ok_def pools_ok_def)
  have b: "busy (pool r) = []"
  proof (rule ccontr)
    assume "busy (pool r) \<noteq> []"
    then obtain a b bs where "busy (pool r) = (a, b) # bs" by (metis neq_Nil_conv surj_pair)
    then have "run_task J a r \<noteq> None" by (simp add: run_task_def split_def Let_def)
    then show False using at_restD(4) [OF assms(1)] by simp
  qed
  moreover have "jobs (pool r) = []"
    using at_restD(3) [OF assms(1)] b p assms(3) by (auto simp: start_job_def split: list.splits if_splits)
  ultimately show ?thesis using pool_okD(2,3) [OF p(1)] by (simp add: inhand_def)
qed

lemma at_rest_told:
  assumes "at_rest J r" and "reactor_ok n r" and "\<forall>e. place r \<noteq> Died e"
  shows "place r = Selecting" "notices r = []" "selectorTasks r = []"
proof -
  show p: "place r = Selecting" using at_restD(1) [OF assms(1)] assms(3) by (auto simp: turn_None)
  show n: "notices r = []"
    using at_restD(5) [OF assms(1), of 0] by (auto simp: notify_def split: if_splits notice.splits)
  have "\<not> woken r" using at_restD(2) [OF assms(1), of "[]"] p by (auto simp: select_def split: if_splits)
  with assms(2) p n show "selectorTasks r = []" by (auto simp: reactor_ok_def heard_def)
qed

lemma at_restI:
  assumes "place r = Selecting" "\<not> woken r" "backlog r = 0" "notices r = []" "jobs (pool r) = []" "busy (pool r) = []"
    and "\<forall>i<length (handlers r). \<not> readable (chan_of r i) \<and> \<not> writable (chan_of r i)"
  shows "at_rest J r"
proof -
  have "\<not> ready r k" for k using assms(3,7) by (auto simp: ready_def split: item.splits)
  then have "list_all (ready r) ks \<longleftrightarrow> ks = []" for ks by (cases ks) auto
  then have "select ks r = None" for ks using assms(2) by (auto simp: select_def)
  with assms show ?thesis by (auto simp: at_rest_def internal_def start_job_def run_task_def notify_def split: act.splits)
qed

lemma replay_rsteps: "replay J as' r = Some r' \<Longrightarrow> rsteps J r0 r \<Longrightarrow> rsteps J r0 r'"
  by (induction as' arbitrary: r) (auto split: option.splits intro: rsteps.step)

section \<open>Closed channels\<close>

lemma stays_closed: "react J a r = Some r' \<Longrightarrow> i < length (handlers r) \<Longrightarrow> \<not> isOpen (chan_of r i) \<Longrightarrow> \<not> isOpen (chan_of r' i)"
proof (cases a)
  case Turn
  assume "react J a r = Some r'" "i < length (handlers r)" "\<not> isOpen (chan_of r i)"
  with Turn have "turn_at (place r) r = Some r'" by simp
  then show ?thesis
    by (cases rule: turnE) (use \<open>i < length (handlers r)\<close> \<open>\<not> isOpen (chan_of r i)\<close> in
      \<open>auto simp: set_chan_def handleAccept_def Let_def leaseBuffer_frame chan_of_def nth_upd nth_append dest: chan_read_frame chan_write_frame\<close>)
next
  case (RunTask j)
  assume "react J a r = Some r'" "i < length (handlers r)" "\<not> isOpen (chan_of r i)"
  with RunTask have "run_task J j r = Some r'" by simp
  then show ?thesis
    by (rule run_taskE) (use \<open>i < length (handlers r)\<close> \<open>\<not> isOpen (chan_of r i)\<close> in \<open>auto simp: Let_def chan_of_def delivers_nth nth_upd\<close>)
qed (auto simp: when_open_def set_chan_def start_job_def notify_def select_def chan_of_def nth_upd deregister_def
       split: if_splits list.splits notice.splits)

lemma stays_dead: "react J a r = Some r' \<Longrightarrow> place r = Died e \<Longrightarrow> place r' = Died e \<and> length (handlers r') = length (handlers r)"
proof (cases a)
  case (RunTask j)
  assume "react J a r = Some r'" "place r = Died e"
  with RunTask have "run_task J j r = Some r'" by simp
  then show ?thesis by (rule run_taskE) (use \<open>place r = Died e\<close> in \<open>simp add: Let_def\<close>)
qed (auto simp: when_open_def set_chan_def start_job_def notify_def select_def split: if_splits list.splits notice.splits)

text \<open>A selector task for a closed channel waits until the selector thread dies of it.\<close>

lemma told_stays:
  assumes "react J a r = Some r'" and "chans_ok r" and "i < length (handlers r)" and "\<not> isOpen (chan_of r i)" and t: "told r i"
  shows "told r' i \<or> (\<exists>e. place r' = Died e)"
proof (cases a)
  case Turn
  with assms(1) have "turn_at (place r) r = Some r'" by simp
  then show ?thesis
  proof (cases rule: turnE)
    case (interest ks j ts)
    have "j \<noteq> i" using interest(3) assms(3,4) chans_okD [OF assms(2), of i] by (auto simp: chan_of_def)
    with interest t show ?thesis by (auto simp: told_def set_chan_def)
  qed (use t in \<open>auto simp: told_def set_chan_def handleAccept_def Let_def leaseBuffer_frame\<close>)
next
  case (RunTask j)
  with assms(1) have "run_task J j r = Some r'" by simp
  then show ?thesis by (rule run_taskE) (use t in \<open>auto simp: Let_def told_def delivers_notices\<close>)
next
  case (Notify k)
  then have n: "notify k r = Some r'" using assms(1) by simp
  then have k: "k < length (notices r)" by (simp add: notify_def split: if_splits)
  show ?thesis
  proof (cases "notices r ! k")
    case (ToTask j)
    with n k have "told r' i" if "i = j" using that by (auto simp: notify_def told_def)
    moreover have "ToTask i \<in> set ((notices r)[k := ToWake])" if "ToTask i \<in> set (notices r)" "i \<noteq> j"
      using that ToTask by (auto simp: in_set_conv_nth) (metis nth_list_update_neq notice.inject)
    ultimately show ?thesis using n k ToTask t by (auto simp: notify_def told_def)
  next
    case ToWake
    with n k set_without [OF k] t show ?thesis by (auto simp: notify_def told_def)
  qed
qed (use assms(1) t in \<open>auto simp: when_open_def set_chan_def start_job_def select_def told_def split: if_splits list.splits\<close>)

lemma doomed_steps:
  assumes "rsteps J r r'" and "reactor_ok n r" and "i < length (handlers r)" and "\<not> isOpen (chan_of r i)" and "told r i"
  shows "i < length (handlers r') \<and> \<not> isOpen (chan_of r' i) \<and> (told r' i \<or> (\<exists>e. place r' = Died e))"
  using assms
proof (induction rule: rsteps.induct)
  case (step r r' a r'')
  then have IH: "i < length (handlers r')" "\<not> isOpen (chan_of r' i)" "told r' i \<or> (\<exists>e. place r' = Died e)" by auto
  have "chans_ok r'" using rsteps_ok [OF step.hyps(1) step.prems(1)] by (simp add: reactor_ok_def)
  with IH show ?case
    using told_stays [OF step.hyps(2)] stays_closed [OF step.hyps(2)] handlers_grow [OF step.hyps(2)] stays_dead [OF step.hyps(2)]
    by (metis order_less_le_trans)
qed auto

lemma told_by_task:
  assumes "run_task J j r = Some r1" and "m \<in> set (drop (length (sent_to (users r))) (sent_to (users r1)))"
    and "map_of (connections r) (fst m) = Some i"
  shows "told r1 i"
  using assms(1)
proof (rule run_taskE)
  fix b k e s ms
  let ?r1 = "on j (\<lambda>h. h\<lparr>protocol := k, taken := taken h @ buffers r ! b\<rparr>) (r\<lparr>users := s\<rparr>)"
  assume ms: "sent_to s = sent_to (users r) @ ms"
    and r1: "r1 = (let r2 = fold deliver ms ?r1 in r2\<lparr>BUFFER_POOL := BUFFER_POOL r @ [b],
      pool := complete j ((pool r)\<lparr>busy := remove1 (j, b) (busy (pool r))\<rparr>)\<rparr>)"
  then have "m \<in> set ms" using assms(2) by (simp add: Let_def)
  with assms(3) have "mine ?r1 i ms \<noteq> []" by (auto simp: mine_def filter_empty_conv)
  then show ?thesis by (simp add: r1 Let_def told_def delivers_notices)
qed

section \<open>A write that fails\<close>

definition stuck_writing :: "reactor \<Rightarrow> nat \<Rightarrow> item list \<Rightarrow> bool" where
  "stuck_writing r i ks \<longleftrightarrow> place r = Writing i ks \<and> i < length (handlers r)
     \<and> writeQueue (handlers r ! i) \<noteq> [] \<and> (\<not> isOpen (chan_of r i) \<or> reset (chan_of r i))"

lemma stuck_react:
  assumes "react J a r = Some r'" and st: "stuck_writing r i ks"
  shows "stuck_writing r' i ks"
proof (cases a)
  case Turn
  with assms(1) have "turn_at (place r) r = Some r'" by simp
  then show ?thesis
    by (cases rule: turnE)
       (use st in \<open>auto simp: stuck_writing_def goes_def set_chan_def chan_of_def nth_upd chan_write_def split: if_splits\<close>)
next
  case (RunTask j)
  with assms(1) have "run_task J j r = Some r'" by simp
  then show ?thesis
    by (rule run_taskE) (use st in \<open>auto simp: stuck_writing_def Let_def chan_of_def delivers_nth nth_upd\<close>)
qed (use assms(1) st in \<open>auto simp: stuck_writing_def when_open_def set_chan_def start_job_def notify_def select_def chan_of_def nth_upd
       split: if_splits list.splits notice.splits\<close>)

section \<open>Example runs\<close>

text \<open>
  A client connects and asks for a LOGOUT, which is refused; its answer is written. Or it closes
  its side before the answer, or resets the connection while the answer is written.
\<close>

definition connects :: "act list" where
  "connects = [Dial, Select [Acceptable], Turn, Turn, Turn]"

definition asks :: "act list" where
  "asks = [Arrive 0 ''03;'', Select [Ready 0 True False], Turn, Turn, Turn, StartJob]"

definition answers :: "act list" where
  "answers = [RunTask 0, Notify 0, Notify 0]"

definition writes :: "act list" where
  "writes = [Select [], Turn, Turn, Turn, Drain 0 100, Select [Ready 0 False True], Turn, Turn]"

definition leaves :: "act list" where
  "leaves = [HangUp 0, Select [Ready 0 True False], Turn, Turn, Turn]"

definition one_client :: srv where
  "one_client = (new_srv [])\<lparr>connectionsMap := [0]\<rparr>"

definition asked :: reactor where
  "asked =
     \<lparr>connections = [(0, 0)], next_id = 1,
      handlers = [(NonBlockingConnectionHandler 0)\<lparr>received := ''03;''\<rparr>], selectorTasks = [], woken = False,
      place = Selecting, backlog = 0, BUFFER_POOL = [], buffers = [''03;''],
      pool = \<lparr>acts = [], playingNow = [0], workers = 3, jobs = [], busy = [(0, 0)], stopped = False,
               submitted = [(0, 0)], started = [(0, 0)]\<rparr>,
      notices = [], users = one_client\<rparr>"

lemmas turn_defs = select_def ready_def readable_def writable_def key_of_def handleAccept_def handleReadWrite_def
  continueRead_def leaseBuffer_def chan_read_def submit_task_def submit_def execute_def start_job_def Let_def
  set_chan_def on_def chan_of_def is_valid_def deregister_def when_open_def chan_close_def releaseBuffer_def
  notify_def interestOps_def updateInterestedOps_def key_there_def write_turn_def write_end_def chan_write_def

lemma replay_append: "replay J (xs @ ys) r = Option.bind (replay J xs r) (replay J ys)"
  by (induction xs arbitrary: r) (auto split: option.split)

lemma replay_asked: "replay J (connects @ asks) (Reactor 3) = Some asked"
  by (simp add: connects_def asks_def turn_defs Reactor_def asked_def one_client_def new_srv_def ActorThreadPool_def
      NonBlockingConnectionHandler_def)

definition codec_after :: codec where
  "codec_after = snd (feed decodeNextByte ''03;'' new_codec)"

definition answered :: reactor where
  "answered = asked\<lparr>handlers := [(NonBlockingConnectionHandler 0)\<lparr>received := ''03;'', taken := ''03;'',
       protocol := (new_conn 0)\<lparr>encdec := codec_after\<rparr>, writeQueue := [''1103;'']\<rparr>],
     woken := True, selectorTasks := [(0, True)], BUFFER_POOL := [0],
     pool := (pool asked)\<lparr>acts := [(0, [])], busy := [], playingNow := []\<rparr>,
     users := one_client\<lparr>sent_to := [(0, ''1103;'')]\<rparr>\<rparr>"

lemma the_task: "read_task jvm_demo ''03;'' (new_conn 0) one_client
    = ((new_conn 0)\<lparr>encdec := codec_after\<rparr>, None, one_client\<lparr>sent_to := [(0, ''1103;'')]\<rparr>)"
proof -
  from semi.feed_message [OF codec_inv_new(1), of "''03''"] obtain d
    where f: "feed decodeNextByte ''03;'' new_codec = ([''03''], d)" by (auto simp: codec_inv_new(2))
  have p: "process jvm_demo 0 ''03'' one_client = (None, one_client\<lparr>sent_to := [(0, ''1103;'')]\<rparr>)"
    unfolding one_client_def by code_simp
  have k: "encdec (new_conn 0) = new_codec" "connId_of (new_conn 0) = 0" by (simp_all add: new_conn_def)
  from read_task_eq [of "''03;''" "new_conn 0" "[''03'']" d jvm_demo one_client] f p show ?thesis
    unfolding k codec_after_def by (simp add: prod_eq_iff del: read_task.simps)
qed

lemma replay_answered: "replay jvm_demo answers asked = Some answered"
  using the_task
  by (simp add: answers_def turn_defs asked_def answered_def run_task_def deliver_def add_buffer_def complete_def pendingRunnablesOf_def
      NonBlockingConnectionHandler_def one_client_def new_srv_def del: read_task.simps)

definition left_asked :: reactor where
  "left_asked = asked\<lparr>handlers := [(NonBlockingConnectionHandler 0)\<lparr>received := ''03;'',
       chan := \<lparr>isOpen = False, key = Cancelled, arrived = [], peer_closed = True, reset = False, room = 0, written = []\<rparr>\<rparr>],
     buffers := [''03;'', []], BUFFER_POOL := [1]\<rparr>"

lemma replay_left: "replay jvm_demo leaves asked = Some left_asked"
  by (simp add: leaves_def turn_defs asked_def left_asked_def NonBlockingConnectionHandler_def)

definition lost_answer :: reactor where
  "lost_answer = left_asked\<lparr>handlers := [(handlers left_asked ! 0)\<lparr>taken := ''03;'',
       protocol := (new_conn 0)\<lparr>encdec := codec_after\<rparr>, writeQueue := [''1103;'']\<rparr>],
     notices := [ToTask 0], BUFFER_POOL := [1, 0], pool := pool answered, users := users answered\<rparr>"

lemma lost_answer: "run_task jvm_demo 0 left_asked = Some lost_answer"
  using the_task
  by (simp add: left_asked_def lost_answer_def asked_def answered_def run_task_def deliver_def add_buffer_def complete_def
      pendingRunnablesOf_def releaseBuffer_def Let_def on_def NonBlockingConnectionHandler_def one_client_def new_srv_def del: read_task.simps)

definition served :: reactor where
  "served = answered\<lparr>handlers := [(handlers answered ! 0)\<lparr>writeQueue := [],
       chan := \<lparr>isOpen = True, key = Valid {OP_READ}, arrived = [], peer_closed = False, reset = False, room = 95, written = ''1103;''\<rparr>\<rparr>],
     woken := False, selectorTasks := []\<rparr>"

lemma replay_served: "replay jvm_demo (writes @ [Turn, Turn, Turn, Turn, Turn]) answered = Some served"
  by (simp add: writes_def turn_defs asked_def answered_def served_def NonBlockingConnectionHandler_def new_conn_def)

definition broken :: reactor where
  "broken = answered\<lparr>handlers := [(handlers answered ! 0)\<lparr>
       chan := \<lparr>isOpen = True, key = Valid {OP_READ, OP_WRITE}, arrived = [], peer_closed = False, reset = True, room = 100, written = []\<rparr>\<rparr>],
     woken := False, selectorTasks := [], place := Writing 0 []\<rparr>"

lemma replay_broken: "replay jvm_demo (writes @ [Reset 0]) answered = Some broken"
  by (simp add: writes_def turn_defs asked_def answered_def broken_def NonBlockingConnectionHandler_def new_conn_def)

lemma example_runs:
  "rsteps jvm_demo (Reactor 3) asked" "rsteps jvm_demo (Reactor 3) answered" "rsteps jvm_demo (Reactor 3) served"
  "rsteps jvm_demo (Reactor 3) left_asked" "rsteps jvm_demo (Reactor 3) broken"
  by (meson replay_rsteps replay_asked replay_answered replay_served replay_left replay_broken rsteps.stop)+

lemma served_rest: "at_rest jvm_demo served"
  by (rule at_restI) (simp_all add: served_def answered_def asked_def readable_def writable_def chan_of_def)

section \<open>Properties\<close>

text \<open>
  C9. The reactor writes in order: as long as no connection id has been used twice, what has been
  written to a client and what waits in its queue is, together and in this order, what the
  protocol has sent to its connection, for every schedule of the threads and the network.
\<close>

theorem reactor_writes_in_order:
  assumes "rsteps J (Reactor n) r" and "length (handlers r) \<le> 2 ^ 32" and "i < length (handlers r)"
  shows "written (chan_of r i) @ concat (writeQueue (handlers r ! i)) = sent_for (users r) (connId_of (protocol (handlers r ! i)))"
  using rsteps_wire [OF assms(1) refl assms(2)] assms(3) by (simp add: wire_ok_def)

theorem reactor_writes_in_order_witness:
  "written (chan_of answered 0) @ concat (writeQueue (handlers answered ! 0)) = sent_for (users answered) 0 \<and> users answered \<noteq> one_client"
proof -
  have "length (handlers answered) = 1" "connId_of (protocol (handlers answered ! 0)) = 0" "users answered \<noteq> one_client"
    by (simp_all add: answered_def new_conn_def one_client_def new_srv_def)
  with reactor_writes_in_order [OF example_runs(2), of 0] show ?thesis by simp
qed

text \<open>
  C10. The reactor reads in order: the bytes that its tasks have been given, those in the buffers of
  tasks that have not run, and those that can still be read are together, in this order, all
  bytes that arrived from the client; and no buffer is with two tasks, or with one and in the pool.
\<close>

theorem reactor_reads_in_order:
  assumes "rsteps J (Reactor n) r" and "i < length (handlers r)"
  shows "taken (handlers r ! i) @ concat (map (\<lambda>b. buffers r ! b) (inhand i (pool r))) @ arrived (chan_of r i)
      = received (handlers r ! i)
    \<and> distinct (inhand i (pool r) @ BUFFER_POOL r)
    \<and> (\<forall>j. j \<noteq> i \<longrightarrow> set (inhand i (pool r)) \<inter> set (inhand j (pool r)) = {})"
proof -
  have ok: "bytes_ok r" "leases_ok r" using rsteps_ok [OF assms(1) reactor_ok_new] by (auto simp: reactor_ok_def)
  from ok(1) assms(2) show ?thesis using leases_okD [OF ok(2)] unfolding bytes_ok_def distinct_append by blast
qed

theorem reactor_reads_in_order_witness:
  "concat (map (\<lambda>b. buffers left_asked ! b) (inhand 0 (pool left_asked))) = ''03;'' \<and> BUFFER_POOL left_asked = [1]"
  using reactor_reads_in_order [OF example_runs(4), of 0] by (simp add: left_asked_def asked_def NonBlockingConnectionHandler_def chan_of_def)



text \<open>
  C27. A message for a client whose channel is closed ends the server. Once a task of the pool has
  sent one, the selector thread either still has it before it or has died of it by an exception
  that \<open>serve\<close> does not catch; whenever the server comes to rest, it has died; and a dead server
  accepts nobody.
\<close>

theorem message_to_closed_ends_server:
  assumes "rsteps J (Reactor n) r" and "run_task J j r = Some r1"
    and "m \<in> set (drop (length (sent_to (users r))) (sent_to (users r1)))"
    and "map_of (connections r) (fst m) = Some i" and "i < length (handlers r)" and "\<not> isOpen (chan_of r i)"
  shows "(\<forall>r2. rsteps J r1 r2 \<longrightarrow> told r2 i \<or> (\<exists>e. place r2 = Died e))
    \<and> (\<forall>r2. rsteps J r1 r2 \<and> at_rest J r2 \<longrightarrow> (\<exists>e. place r2 = Died e))
    \<and> (\<forall>r2 e. place r2 = Died e \<longrightarrow>
         (\<forall>a r3. react J a r2 = Some r3 \<longrightarrow> place r3 = Died e \<and> length (handlers r3) = length (handlers r2)))"
proof -
  have ok: "reactor_ok n r" using rsteps_ok [OF assms(1) reactor_ok_new] .
  have ok1: "reactor_ok n r1" using reactor_ok_run [OF assms(2) ok] .
  have step: "react J (RunTask j) r = Some r1" using assms(2) by simp
  have i: "i < length (handlers r1)" "\<not> isOpen (chan_of r1 i)"
    using handlers_grow [OF step] stays_closed [OF step] assms(5,6) by auto
  have t: "told r1 i" by (rule told_by_task [OF assms(2-4)])
  have d: "told r2 i \<or> (\<exists>e. place r2 = Died e)" if "rsteps J r1 r2" for r2
    using doomed_steps [OF that ok1 i t] by blast
  moreover have "\<exists>e. place r2 = Died e" if "rsteps J r1 r2" "at_rest J r2" for r2
  proof (rule ccontr)
    assume n: "\<nexists>e. place r2 = Died e"
    with at_rest_told(2,3) [OF that(2) rsteps_ok [OF that(1) ok1]] d [OF that(1)] show False by (simp add: told_def)
  qed
  ultimately show ?thesis using stays_dead by blast
qed

text \<open>
  The client that left before its answer: the selector thread dies of the notification, and a
  client that calls afterwards is not accepted.
\<close>

definition lost_server :: reactor where
  "lost_server = lost_answer\<lparr>notices := [], woken := False, handlers := map deregister (handlers lost_answer),
     place := Died CancelledKeyException\<rparr>"

lemma replay_lost: "replay jvm_demo [Notify 0, Notify 0, Select [], Turn] lost_answer = Some lost_server"
  by (simp add: turn_defs left_asked_def lost_answer_def asked_def answered_def lost_server_def)

theorem message_to_closed_ends_server_witness:
  "run_task jvm_demo 0 left_asked = Some lost_answer \<and> rsteps jvm_demo lost_answer lost_server
    \<and> (\<exists>r. react jvm_demo Dial lost_server = Some r \<and> place r = Died CancelledKeyException \<and> length (handlers r) = 1)"
proof -
  have f: "(0, ''1103;'') \<in> set (drop (length (sent_to (users left_asked))) (sent_to (users lost_answer)))"
    "map_of (connections left_asked) (fst (0, ''1103;'')) = Some 0" "0 < length (handlers left_asked)" "\<not> isOpen (chan_of left_asked 0)"
    by (simp_all add: left_asked_def lost_answer_def answered_def asked_def chan_of_def one_client_def new_srv_def)
  have "place lost_server = Died CancelledKeyException" "length (handlers lost_server) = 1"
    by (simp_all add: lost_server_def lost_answer_def left_asked_def asked_def)
  with message_to_closed_ends_server [OF example_runs(4) lost_answer f]
  have "place (lost_server\<lparr>backlog := backlog lost_server + 1\<rparr>) = Died CancelledKeyException
      \<and> length (handlers (lost_server\<lparr>backlog := backlog lost_server + 1\<rparr>)) = 1"
    by (metis react.simps(5))
  with lost_answer replay_rsteps [OF replay_lost rsteps.stop] show ?thesis by simp
qed

text \<open>
  C28. A write that fails hangs the reactor: the loop of \<open>continueWrite\<close> closes the channel but keeps
  the buffer, and the selector thread turns in it for ever, for all clients.
\<close>

theorem failed_write_spins:
  assumes "rsteps J r r'" and "stuck_writing r i ks"
  shows "stuck_writing r' i ks \<and> place r' = Writing i ks \<and> (\<exists>r''. react J Turn r' = Some r'')"
proof -
  have "stuck_writing r' i ks" using assms by (induction rule: rsteps.induct) (auto intro: stuck_react)
  then show ?thesis by (simp add: stuck_writing_def)
qed

theorem failed_write_spins_witness:
  "rsteps jvm_demo (Reactor 3) broken
    \<and> (\<exists>r. react jvm_demo Dial broken = Some r \<and> place r = Writing 0 [] \<and> react jvm_demo Turn r \<noteq> None)"
proof -
  have "stuck_writing broken 0 []" by (simp add: stuck_writing_def broken_def answered_def chan_of_def)
  moreover have "rsteps jvm_demo broken (broken\<lparr>backlog := backlog broken + 1\<rparr>)"
    by (rule rsteps.step [OF rsteps.stop, of _ Dial]) simp
  ultimately show ?thesis using failed_write_spins example_runs(5) by fastforce
qed

end
