(* ===== verification/CompilerProbe.thy ===== *)
theory CompilerProbe
  imports ServerCodec "HOL-Library.Signed_Division"
begin

text \<open>
  The compiler identification program that CMake compiles before it configures the client
  (\<open>client/cmake-build-debug/CMakeFiles/3.21.1/CompilerIdCXX/CMakeCXXCompilerId.cpp\<close>, which is
  checked in with the build directory). The file is almost all preprocessor: its input is the
  table of macros the compiler defines, its output the strings \<open>INFO:\<dots>[\<dots>]\<close> that CMake finds
  in the object file. A macro is a number, a string literal or neither of them; an undefined
  macro is 0 in the condition of an \<open>#if\<close>, and where an expression of the program uses it,
  the program does not compile.
\<close>

section \<open>The preprocessor\<close>

datatype mval = Num int | Text string | Other

type_synonym env = "string \<Rightarrow> mval option"

definition dfd :: "env \<Rightarrow> string \<Rightarrow> bool" where
  "dfd env x \<longleftrightarrow> env x \<noteq> None"

definition numv :: "env \<Rightarrow> string \<Rightarrow> int option" where
  "numv env x = (case env x of Some (Num v) \<Rightarrow> Some v | _ \<Rightarrow> None)"

definition cond :: "env \<Rightarrow> string \<Rightarrow> int" where
  "cond env x = (case numv env x of Some v \<Rightarrow> v | None \<Rightarrow> 0)"

text \<open>A chain of \<open>#elif defined(\<dots>) || defined(\<dots>)\<close>: the first entry with a defined name.\<close>

fun pick :: "env \<Rightarrow> (string list \<times> 'a) list \<Rightarrow> 'a \<Rightarrow> 'a" where
  "pick env [] d = d"
| "pick env ((xs, v) # rest) d = (if list_ex (dfd env) xs then v else pick env rest d)"

section \<open>The macros \<open>DEC\<close> and \<open>HEX\<close>\<close>

text \<open>
  Each expands to eight characters. Division and remainder are those of C, which truncate.
\<close>

unbundle bit_operations_syntax

definition DEC :: "int \<Rightarrow> string" where
  "DEC n =
     [char_of (48 + (n sdiv 10000000) smod 10),
      char_of (48 + (n sdiv 1000000) smod 10),
      char_of (48 + (n sdiv 100000) smod 10),
      char_of (48 + (n sdiv 10000) smod 10),
      char_of (48 + (n sdiv 1000) smod 10),
      char_of (48 + (n sdiv 100) smod 10),
      char_of (48 + (n sdiv 10) smod 10),
      char_of (48 + n smod 10)]"

definition HEX :: "int \<Rightarrow> string" where
  "HEX n =
     [char_of (48 + (drop_bit 28 n AND 0xF)),
      char_of (48 + (drop_bit 24 n AND 0xF)),
      char_of (48 + (drop_bit 20 n AND 0xF)),
      char_of (48 + (drop_bit 16 n AND 0xF)),
      char_of (48 + (drop_bit 12 n AND 0xF)),
      char_of (48 + (drop_bit 8 n AND 0xF)),
      char_of (48 + (drop_bit 4 n AND 0xF)),
      char_of (48 + (n AND 0xF))]"

section \<open>The compiler\<close>

text \<open>
  What the first chain of the file defines. A version component is a \<open>DEC\<close> or a \<open>HEX\<close> of an
  expression; the expression is \<^term>\<open>None\<close> where it uses a macro that is not a number.
\<close>

datatype field = Dec "int option" | Hex "int option"

record probe =
  COMPILER_ID :: string
  SIMULATE_ID :: "string option"
  COMPILER_VERSION :: "mval option option"
  V_MAJOR :: "field option"
  V_MINOR :: "field option"
  V_PATCH :: "field option"
  V_TWEAK :: "field option"
  V_INTERNAL :: "field option"
  V_INTERNAL_STR :: "mval option option"
  S_MAJOR :: "field option"
  S_MINOR :: "field option"
  S_PATCH :: "field option"
  S_TWEAK :: "field option"

definition id_only :: "string \<Rightarrow> probe" where
  "id_only name =
     \<lparr>COMPILER_ID = name, SIMULATE_ID = None, COMPILER_VERSION = None, V_MAJOR = None,
      V_MINOR = None, V_PATCH = None, V_TWEAK = None, V_INTERNAL = None, V_INTERNAL_STR = None,
      S_MAJOR = None, S_MINOR = None, S_PATCH = None, S_TWEAK = None\<rparr>"

definition dec :: "env \<Rightarrow> string \<Rightarrow> (int \<Rightarrow> int) \<Rightarrow> field option" where
  "dec env x f = Some (Dec (map_option f (numv env x)))"

definition hex :: "env \<Rightarrow> string \<Rightarrow> (int \<Rightarrow> int) \<Rightarrow> field option" where
  "hex env x f = Some (Hex (map_option f (numv env x)))"

definition ident :: "int \<Rightarrow> int" where
  "ident v = v"

definition dec_if :: "env \<Rightarrow> string \<Rightarrow> field option" where
  "dec_if env x = (if dfd env x then dec env x ident else None)"

text \<open>The three components of most compilers.\<close>

definition vers :: "field option \<Rightarrow> field option \<Rightarrow> field option \<Rightarrow> probe \<Rightarrow> probe" where
  "vers a b c p = p\<lparr>V_MAJOR := a, V_MINOR := b, V_PATCH := c\<rparr>"

definition simulate_msvc :: "env \<Rightarrow> probe \<Rightarrow> probe" where
  "simulate_msvc env p =
     (if dfd env ''_MSC_VER'' then p\<lparr>SIMULATE_ID := Some ''MSVC'' \<rparr> else p)"

definition simulate_msvc_version :: "env \<Rightarrow> probe \<Rightarrow> probe" where
  "simulate_msvc_version env p =
     (if dfd env ''_MSC_VER''
      then p\<lparr>S_MAJOR := dec env ''_MSC_VER'' (\<lambda>v. v sdiv 100),
             S_MINOR := dec env ''_MSC_VER'' (\<lambda>v. v smod 100)\<rparr>
      else p)"

text \<open>The simulation of the two Intel compilers: a later definition replaces an earlier one.\<close>

definition intel_simulate :: "env \<Rightarrow> probe \<Rightarrow> probe" where
  "intel_simulate env p =
     (let p1 = simulate_msvc env p;
          p2 = (if dfd env ''__GNUC__'' then p1\<lparr>SIMULATE_ID := Some ''GNU'' \<rparr> else p1);
          p3 = simulate_msvc_version env p2;
          p4 = (if dfd env ''__GNUC__'' then p3\<lparr>S_MAJOR := dec env ''__GNUC__'' ident\<rparr>
                else if dfd env ''__GNUG__'' then p3\<lparr>S_MAJOR := dec env ''__GNUG__'' ident\<rparr> else p3);
          p5 = (if dfd env ''__GNUC_MINOR__''
                then p4\<lparr>S_MINOR := dec env ''__GNUC_MINOR__'' ident\<rparr> else p4)
      in if dfd env ''__GNUC_PATCHLEVEL__''
         then p5\<lparr>S_PATCH := dec env ''__GNUC_PATCHLEVEL__'' ident\<rparr> else p5)"

definition comeau :: "env \<Rightarrow> probe" where
  "comeau env = (id_only ''Comeau'')
     \<lparr>V_MAJOR := dec env ''__COMO_VERSION__'' (\<lambda>v. v sdiv 100),
      V_MINOR := dec env ''__COMO_VERSION__'' (\<lambda>v. v smod 100)\<rparr>"

definition intel :: "env \<Rightarrow> probe" where
  "intel env =
     (let v = cond env ''__INTEL_COMPILER'';
          p = (if v < 2021 \<or> v = 202110 \<or> v = 202111
               then vers (dec env ''__INTEL_COMPILER'' (\<lambda>v. v sdiv 100))
                      (dec env ''__INTEL_COMPILER'' (\<lambda>v. v sdiv 10 smod 10))
                      (if dfd env ''__INTEL_COMPILER_UPDATE'' then dec env ''__INTEL_COMPILER_UPDATE'' ident
                       else dec env ''__INTEL_COMPILER'' (\<lambda>v. v smod 10))
                      (id_only ''Intel'')
               else vers (dec env ''__INTEL_COMPILER'' ident) (dec env ''__INTEL_COMPILER_UPDATE'' ident)
                      (Some (Dec (Some 0))) (id_only ''Intel''))
      in intel_simulate env (p\<lparr>V_TWEAK := dec_if env ''__INTEL_COMPILER_BUILD_DATE''\<rparr>))"

definition intel_llvm :: "env \<Rightarrow> probe" where
  "intel_llvm env =
     (let x = ''__INTEL_LLVM_COMPILER'';
          p = (if cond env x < 1000000
               then vers (dec env x (\<lambda>v. v sdiv 100)) (dec env x (\<lambda>v. v sdiv 10 smod 10))
                      (dec env x (\<lambda>v. v smod 10)) (id_only ''IntelLLVM'')
               else vers (dec env x (\<lambda>v. v sdiv 10000)) (dec env x (\<lambda>v. v sdiv 100 smod 100))
                      (dec env x (\<lambda>v. v smod 100)) (id_only ''IntelLLVM''))
      in intel_simulate env p)"

definition pathscale :: "env \<Rightarrow> probe" where
  "pathscale env = vers (dec env ''__PATHCC__'' ident) (dec env ''__PATHCC_MINOR__'' ident)
     (dec_if env ''__PATHCC_PATCHLEVEL__'') (id_only ''PathScale'')"

definition embarcadero :: "env \<Rightarrow> probe" where
  "embarcadero env = vers (hex env ''__CODEGEARC_VERSION__'' (\<lambda>v. drop_bit 24 v AND 0x00FF))
     (hex env ''__CODEGEARC_VERSION__'' (\<lambda>v. drop_bit 16 v AND 0x00FF))
     (dec env ''__CODEGEARC_VERSION__'' (\<lambda>v. v AND 0xFFFF)) (id_only ''Embarcadero'')"

definition borland :: "env \<Rightarrow> probe" where
  "borland env = (id_only ''Borland'')
     \<lparr>V_MAJOR := hex env ''__BORLANDC__'' (\<lambda>v. drop_bit 8 v),
      V_MINOR := hex env ''__BORLANDC__'' (\<lambda>v. v AND 0xFF)\<rparr>"

definition watcom :: "env \<Rightarrow> probe" where
  "watcom env = vers (dec env ''__WATCOMC__'' (\<lambda>v. v sdiv 100))
     (dec env ''__WATCOMC__'' (\<lambda>v. (v sdiv 10) smod 10))
     (if 0 < cond env ''__WATCOMC__'' smod 10 then dec env ''__WATCOMC__'' (\<lambda>v. v smod 10) else None)
     (id_only ''Watcom'')"

definition openwatcom :: "env \<Rightarrow> probe" where
  "openwatcom env = vers (dec env ''__WATCOMC__'' (\<lambda>v. (v - 1100) sdiv 100))
     (dec env ''__WATCOMC__'' (\<lambda>v. (v sdiv 10) smod 10))
     (if 0 < cond env ''__WATCOMC__'' smod 10 then dec env ''__WATCOMC__'' (\<lambda>v. v smod 10) else None)
     (id_only ''OpenWatcom'')"

text \<open>The version macros \<open>x\<close> of these four vendors have one name for C++ and another for C.\<close>

definition sunpro :: "string \<Rightarrow> env \<Rightarrow> probe" where
  "sunpro x env =
     (if 0x5100 \<le> cond env x
      then vers (hex env x (\<lambda>v. drop_bit 12 v)) (hex env x (\<lambda>v. drop_bit 4 v AND 0xFF))
             (hex env x (\<lambda>v. v AND 0xF)) (id_only ''SunPro'')
      else vers (hex env x (\<lambda>v. drop_bit 8 v)) (hex env x (\<lambda>v. drop_bit 4 v AND 0xF))
             (hex env x (\<lambda>v. v AND 0xF)) (id_only ''SunPro''))"

definition hp_acc :: "string \<Rightarrow> env \<Rightarrow> probe" where
  "hp_acc x env = vers (dec env x (\<lambda>v. v sdiv 10000)) (dec env x (\<lambda>v. v sdiv 100 smod 100))
     (dec env x (\<lambda>v. v smod 100)) (id_only ''HP'')"

definition compaq :: "string \<Rightarrow> env \<Rightarrow> probe" where
  "compaq x env = vers (dec env x (\<lambda>v. v sdiv 10000000)) (dec env x (\<lambda>v. v sdiv 100000 smod 100))
     (dec env x (\<lambda>v. v smod 10000)) (id_only ''Compaq'')"

text \<open>IBM's macro has the same three digits in three of the branches.\<close>

definition ibmcpp :: "string \<Rightarrow> string \<Rightarrow> env \<Rightarrow> probe" where
  "ibmcpp x name env = vers (dec env x (\<lambda>v. v sdiv 100))
     (dec env x (\<lambda>v. v sdiv 10 smod 10)) (dec env x (\<lambda>v. v smod 10)) (id_only name)"

definition xlclang :: "env \<Rightarrow> probe" where
  "xlclang env = (vers (dec env ''__ibmxl_version__'' ident) (dec env ''__ibmxl_release__'' ident)
     (dec env ''__ibmxl_modification__'' ident) (id_only ''XLClang''))
     \<lparr>V_TWEAK := dec env ''__ibmxl_ptf_fix_level__'' ident\<rparr>"

definition nvhpc :: "env \<Rightarrow> probe" where
  "nvhpc env = vers (dec env ''__NVCOMPILER_MAJOR__'' ident) (dec env ''__NVCOMPILER_MINOR__'' ident)
     (dec_if env ''__NVCOMPILER_PATCHLEVEL__'') (id_only ''NVHPC'')"

definition pgi :: "env \<Rightarrow> probe" where
  "pgi env = vers (dec env ''__PGIC__'' ident) (dec env ''__PGIC_MINOR__'' ident)
     (dec_if env ''__PGIC_PATCHLEVEL__'') (id_only ''PGI'')"

definition cray :: "env \<Rightarrow> probe" where
  "cray env = (id_only ''Cray'')
     \<lparr>V_MAJOR := dec env ''_RELEASE_MAJOR'' ident, V_MINOR := dec env ''_RELEASE_MINOR'' ident\<rparr>"

definition ti :: "env \<Rightarrow> probe" where
  "ti env = vers (dec env ''__TI_COMPILER_VERSION__'' (\<lambda>v. v sdiv 1000000))
     (dec env ''__TI_COMPILER_VERSION__'' (\<lambda>v. v sdiv 1000 smod 1000))
     (dec env ''__TI_COMPILER_VERSION__'' (\<lambda>v. v smod 1000)) (id_only ''TI'')"

definition fcc_version :: "env \<Rightarrow> probe \<Rightarrow> probe" where
  "fcc_version env = vers (dec env ''__FCC_major__'' ident) (dec env ''__FCC_minor__'' ident)
     (dec env ''__FCC_patchlevel__'' ident)"

definition fujitsu_clang :: "env \<Rightarrow> probe" where
  "fujitsu_clang env =
     (fcc_version env (id_only ''FujitsuClang''))\<lparr>V_INTERNAL_STR := Some (env ''__clang_version__'')\<rparr>"

definition fujitsu :: "env \<Rightarrow> probe" where
  "fujitsu env =
     (let p = (if dfd env ''__FCC_version__''
               then (id_only ''Fujitsu'')\<lparr>COMPILER_VERSION := Some (env ''__FCC_version__'')\<rparr>
               else if dfd env ''__FCC_major__'' then fcc_version env (id_only ''Fujitsu'')
               else id_only ''Fujitsu'')
      in if dfd env ''__fcc_version'' then p\<lparr>V_INTERNAL := dec env ''__fcc_version'' ident\<rparr>
         else if dfd env ''__FCC_VERSION'' then p\<lparr>V_INTERNAL := dec env ''__FCC_VERSION'' ident\<rparr>
         else p)"

definition ghs :: "env \<Rightarrow> probe" where
  "ghs env =
     (let x = ''__GHS_VERSION_NUMBER''
      in if dfd env x
         then vers (dec env x (\<lambda>v. v sdiv 100)) (dec env x (\<lambda>v. v sdiv 10 smod 10))
                (dec env x (\<lambda>v. v smod 10)) (id_only ''GHS'')
         else id_only ''GHS'')"

definition armcc :: "env \<Rightarrow> probe" where
  "armcc env =
     (let x = ''__ARMCC_VERSION''
      in if 1000000 \<le> cond env x
         then vers (dec env x (\<lambda>v. v sdiv 1000000)) (dec env x (\<lambda>v. v sdiv 10000 smod 100))
                (dec env x (\<lambda>v. v smod 10000)) (id_only ''ARMCC'')
         else vers (dec env x (\<lambda>v. v sdiv 100000)) (dec env x (\<lambda>v. v sdiv 10000 smod 10))
                (dec env x (\<lambda>v. v smod 10000)) (id_only ''ARMCC''))"

definition clang_version :: "env \<Rightarrow> probe \<Rightarrow> probe" where
  "clang_version env = vers (dec env ''__clang_major__'' ident) (dec env ''__clang_minor__'' ident)
     (dec env ''__clang_patchlevel__'' ident)"

definition clang :: "env \<Rightarrow> probe" where
  "clang env = simulate_msvc_version env (clang_version env (simulate_msvc env (id_only ''Clang'')))"

definition apple_clang :: "env \<Rightarrow> probe" where
  "apple_clang env =
     (simulate_msvc_version env (clang_version env (simulate_msvc env (id_only ''AppleClang''))))
     \<lparr>V_TWEAK := dec env ''__apple_build_version__'' ident\<rparr>"

definition arm_clang :: "env \<Rightarrow> probe" where
  "arm_clang env =
     (let x = ''__ARMCOMPILER_VERSION''
      in (vers (dec env x (\<lambda>v. v sdiv 1000000)) (dec env x (\<lambda>v. v sdiv 10000 smod 100))
            (dec env x (\<lambda>v. v smod 10000)) (id_only ''ARMClang''))\<lparr>V_INTERNAL := dec env x ident\<rparr>)"

text \<open>
  \<open>hip\<close> is the header \<open>hip/hip_version.h\<close>, with the macros it defines; \<^term>\<open>None\<close> where
  \<open>__has_include\<close> does not find it or does not exist.
\<close>

definition rocm_clang :: "env \<Rightarrow> env option \<Rightarrow> probe" where
  "rocm_clang env hip =
     (let p = (id_only ''ROCMClang'')
            \<lparr>SIMULATE_ID := (if dfd env ''_MSC_VER'' then Some ''MSVC''
               else if dfd env ''__clang__'' then Some ''Clang''
               else if dfd env ''__GNUC__'' then Some ''GNU'' else None)\<rparr>
      in case hip of
           None \<Rightarrow> p
         | Some h \<Rightarrow>
             if dfd env ''__clang__''
             then vers (dec h ''HIP_VERSION_MAJOR'' ident) (dec h ''HIP_VERSION_MINOR'' ident)
                    (dec h ''HIP_VERSION_PATCH'' ident) p
             else p)"

definition gnu :: "env \<Rightarrow> probe" where
  "gnu env = vers (if dfd env ''__GNUC__'' then dec env ''__GNUC__'' ident else dec env ''__GNUG__'' ident)
     (dec_if env ''__GNUC_MINOR__'') (dec_if env ''__GNUC_PATCHLEVEL__'') (id_only ''GNU'')"

definition msvc :: "env \<Rightarrow> probe" where
  "msvc env = (vers (dec env ''_MSC_VER'' (\<lambda>v. v sdiv 100)) (dec env ''_MSC_VER'' (\<lambda>v. v smod 100))
     (if dfd env ''_MSC_FULL_VER''
      then if 1400 \<le> cond env ''_MSC_VER'' then dec env ''_MSC_FULL_VER'' (\<lambda>v. v smod 100000)
           else dec env ''_MSC_FULL_VER'' (\<lambda>v. v smod 10000)
      else None) (id_only ''MSVC''))\<lparr>V_TWEAK := dec_if env ''_MSC_BUILD''\<rparr>"

definition adsp :: "env \<Rightarrow> probe" where
  "adsp env =
     (let x = ''__VISUALDSPVERSION__''
      in if dfd env x
         then vers (hex env x (\<lambda>v. drop_bit 24 v)) (hex env x (\<lambda>v. drop_bit 16 v AND 0xFF))
                (hex env x (\<lambda>v. drop_bit 8 v AND 0xFF)) (id_only ''ADSP'')
         else id_only ''ADSP'')"

definition iar_cores :: "string list" where
  "iar_cores = [''__ICCAVR__'', ''__ICCRX__'', ''__ICCRH850__'', ''__ICCRL78__'', ''__ICC430__'',
     ''__ICCRISCV__'', ''__ICCV850__'', ''__ICC8051__'', ''__ICCSTM8__'']"

definition iar :: "env \<Rightarrow> probe" where
  "iar env =
     (let x = ''__VER__''
      in if dfd env x \<and> dfd env ''__ICCARM__''
         then (vers (dec env x (\<lambda>v. v sdiv 1000000)) (dec env x (\<lambda>v. (v sdiv 1000) smod 1000))
                 (dec env x (\<lambda>v. v smod 1000)) (id_only ''IAR''))
                \<lparr>V_INTERNAL := dec env ''__IAR_SYSTEMS_ICC__'' ident\<rparr>
         else if dfd env x \<and> list_ex (dfd env) iar_cores
         then (vers (dec env x (\<lambda>v. v sdiv 100)) (dec env x (\<lambda>v. v - v sdiv 100 * 100))
                 (dec env ''__SUBVERSION__'' ident) (id_only ''IAR''))
                \<lparr>V_INTERNAL := dec env ''__IAR_SYSTEMS_ICC__'' ident\<rparr>
         else id_only ''IAR'')"

text \<open>The chain itself, in its order.\<close>

definition identify :: "env \<Rightarrow> env option \<Rightarrow> probe" where
  "identify env hip =
     (let def = dfd env
      in if def ''__COMO__'' then comeau env
         else if def ''__INTEL_COMPILER'' \<or> def ''__ICC'' then intel env
         else if def ''__clang__'' \<and> def ''__INTEL_CLANG_COMPILER'' \<or> def ''__INTEL_LLVM_COMPILER''
           then intel_llvm env
         else if def ''__PATHCC__'' then pathscale env
         else if def ''__BORLANDC__'' \<and> def ''__CODEGEARC_VERSION__'' then embarcadero env
         else if def ''__BORLANDC__'' then borland env
         else if def ''__WATCOMC__'' \<and> cond env ''__WATCOMC__'' < 1200 then watcom env
         else if def ''__WATCOMC__'' then openwatcom env
         else if def ''__SUNPRO_CC'' then sunpro ''__SUNPRO_CC'' env
         else if def ''__HP_aCC'' then hp_acc ''__HP_aCC'' env
         else if def ''__DECCXX'' then compaq ''__DECCXX_VER'' env
         else if def ''__IBMCPP__'' \<and> def ''__COMPILER_VER__'' then ibmcpp ''__IBMCPP__'' ''zOS'' env
         else if def ''__ibmxl__'' \<and> def ''__clang__'' then xlclang env
         else if def ''__IBMCPP__'' \<and> \<not> def ''__COMPILER_VER__'' \<and> 800 \<le> cond env ''__IBMCPP__''
           then ibmcpp ''__IBMCPP__'' ''XL'' env
         else if def ''__IBMCPP__'' \<and> \<not> def ''__COMPILER_VER__'' \<and> cond env ''__IBMCPP__'' < 800
           then ibmcpp ''__IBMCPP__'' ''VisualAge'' env
         else if def ''__NVCOMPILER'' then nvhpc env
         else if def ''__PGI'' then pgi env
         else if def ''_CRAYC'' then cray env
         else if def ''__TI_COMPILER_VERSION__'' then ti env
         else if def ''__CLANG_FUJITSU'' then fujitsu_clang env
         else if def ''__FUJITSU'' then fujitsu env
         else if def ''__ghs__'' then ghs env
         else if def ''__SCO_VERSION__'' then id_only ''SCO''
         else if def ''__ARMCC_VERSION'' \<and> \<not> def ''__clang__'' then armcc env
         else if def ''__clang__'' \<and> def ''__apple_build_version__'' then apple_clang env
         else if def ''__clang__'' \<and> def ''__ARMCOMPILER_VERSION'' then arm_clang env
         else if def ''__clang__'' \<and> hip \<noteq> None then rocm_clang env hip
         else if def ''__clang__'' then clang env
         else if def ''__GNUC__'' \<or> def ''__GNUG__'' then gnu env
         else if def ''_MSC_VER'' then msvc env
         else if def ''__VISUALDSPVERSION__'' \<or> def ''__ADSPBLACKFIN__'' \<or> def ''__ADSPTS__''
             \<or> def ''__ADSP21000__'' then adsp env
         else if def ''__IAR_SYSTEMS_ICC__'' \<or> def ''__IAR_SYSTEMS_ICC'' then iar env
         else if def ''__hpux'' \<or> def ''__hpua'' then id_only ''HP''
         else id_only '''')"

section \<open>The strings\<close>

text \<open>
  A declaration may be absent, ill-formed, or an array of characters with its closing NUL.
\<close>

datatype decl = Absent | Ill_formed | Chars string

fun expand :: "field \<Rightarrow> string option" where
  "expand (Dec v) = map_option DEC v"
| "expand (Hex v) = map_option HEX v"

text \<open>
  The components of a version, each after a dot; a component is used only when all before
  it are defined.
\<close>

fun components :: "field option list \<Rightarrow> string option" where
  "components [] = Some []"
| "components (None # fs) = Some []"
| "components (Some f # fs) =
     Option.bind (expand f) (\<lambda>s. Option.bind (components fs) (\<lambda>t. Some (CHR ''.'' # s @ t)))"

fun version_array :: "string \<Rightarrow> field option list \<Rightarrow> decl" where
  "version_array key (Some f # fs) =
     (case (expand f, components fs) of
        (Some s, Some t) \<Rightarrow> Chars (''INFO:'' @ key @ CHR ''['' # s @ t @ [CHR '']'', NUL])
      | _ \<Rightarrow> Ill_formed)"
| "version_array key _ = Absent"

definition literal :: "string \<Rightarrow> string \<Rightarrow> string" where
  "literal key v = ''INFO:'' @ key @ CHR ''['' # v @ [CHR '']'', NUL]"

fun text_literal :: "string \<Rightarrow> mval option \<Rightarrow> decl" where
  "text_literal key (Some (Text v)) = Chars (literal key v)"
| "text_literal key _ = Ill_formed"

definition info_compiler :: "probe \<Rightarrow> string" where
  "info_compiler p = literal ''compiler'' (COMPILER_ID p)"

definition info_simulate :: "probe \<Rightarrow> decl" where
  "info_simulate p =
     (case SIMULATE_ID p of None \<Rightarrow> Absent | Some s \<Rightarrow> Chars (literal ''simulate'' s))"

definition qnxnto :: "env \<Rightarrow> decl" where
  "qnxnto env = (if dfd env ''__QNXNTO__'' then Chars (literal ''qnxnto'' '''') else Absent)"

definition info_cray :: "env \<Rightarrow> decl" where
  "info_cray env =
     (if dfd env ''__CRAYXT_COMPUTE_LINUX_TARGET''
      then Chars (literal ''compiler_wrapper'' ''CrayPrgEnv'') else Absent)"

definition info_version :: "probe \<Rightarrow> decl" where
  "info_version p =
     (case COMPILER_VERSION p of
        Some m \<Rightarrow> text_literal ''compiler_version'' m
      | None \<Rightarrow> version_array ''compiler_version'' [V_MAJOR p, V_MINOR p, V_PATCH p, V_TWEAK p])"

definition info_version_internal :: "probe \<Rightarrow> decl" where
  "info_version_internal p =
     (case V_INTERNAL p of
        Some f \<Rightarrow> version_array ''compiler_version_internal'' [Some f]
      | None \<Rightarrow>
          (case V_INTERNAL_STR p of
             Some m \<Rightarrow> text_literal ''compiler_version_internal'' m
           | None \<Rightarrow> Absent))"

definition info_simulate_version :: "probe \<Rightarrow> decl" where
  "info_simulate_version p =
     version_array ''simulate_version'' [S_MAJOR p, S_MINOR p, S_PATCH p, S_TWEAK p]"

section \<open>The platform and the architecture\<close>

definition platforms1 :: "(string list \<times> string) list" where
  "platforms1 =
     [([''__linux'', ''__linux__'', ''linux''], ''Linux''),
      ([''__MSYS__''], ''MSYS''),
      ([''__CYGWIN__''], ''Cygwin''),
      ([''__MINGW32__''], ''MinGW''),
      ([''__APPLE__''], ''Darwin''),
      ([''_WIN32'', ''__WIN32__'', ''WIN32''], ''Windows''),
      ([''__FreeBSD__'', ''__FreeBSD''], ''FreeBSD''),
      ([''__NetBSD__'', ''__NetBSD''], ''NetBSD''),
      ([''__OpenBSD__'', ''__OPENBSD''], ''OpenBSD''),
      ([''__sun'', ''sun''], ''SunOS''),
      ([''_AIX'', ''__AIX'', ''__AIX__'', ''__aix'', ''__aix__''], ''AIX''),
      ([''__hpux'', ''__hpux__''], ''HP-UX''),
      ([''__HAIKU__''], ''Haiku''),
      ([''__BeOS'', ''__BEOS__'', ''_BEOS''], ''BeOS''),
      ([''__QNX__'', ''__QNXNTO__''], ''QNX''),
      ([''__tru64'', ''_tru64'', ''__TRU64__''], ''Tru64''),
      ([''__riscos'', ''__riscos__''], ''RISCos''),
      ([''__sinix'', ''__sinix__'', ''__SINIX__''], ''SINIX''),
      ([''__UNIX_SV__''], ''UNIX_SV''),
      ([''__bsdos__''], ''BSDOS''),
      ([''_MPRAS'', ''MPRAS''], ''MP-RAS''),
      ([''__osf'', ''__osf__''], ''OSF1''),
      ([''_SCO_SV'', ''SCO_SV'', ''sco_sv''], ''SCO_SV''),
      ([''__ultrix'', ''__ultrix__'', ''_ULTRIX''], ''ULTRIX''),
      ([''__XENIX__'', ''_XENIX'', ''XENIX''], ''Xenix'')]"

definition watcom_platforms :: "(string list \<times> string) list" where
  "watcom_platforms =
     [([''__LINUX__''], ''Linux''), ([''__DOS__''], ''DOS''), ([''__OS2__''], ''OS2''),
      ([''__WINDOWS__''], ''Windows3x''), ([''__VXWORKS__''], ''VxWorks'')]"

definition platform_id :: "env \<Rightarrow> string" where
  "platform_id env =
     pick env
       (platforms1 @
        [([''__WATCOMC__''], pick env watcom_platforms ''''),
         ([''__INTEGRITY''], pick env [([''INT_178B''], ''Integrity178'')] ''Integrity'')])
       ''''"

definition info_platform :: "env \<Rightarrow> string" where
  "info_platform env = literal ''platform'' (platform_id env)"

text \<open>\<open>STRINGIFY(_M_ARM)\<close>: the macro is a decimal numeral, or not expanded when undefined.\<close>

definition stringify :: "env \<Rightarrow> string \<Rightarrow> string" where
  "stringify env x = (case numv env x of Some v \<Rightarrow> show_int v | None \<Rightarrow> '''')"

definition arch_windows :: "env \<Rightarrow> string" where
  "arch_windows env =
     pick env
       [([''_M_IA64''], ''IA64''), ([''_M_ARM64EC''], ''ARM64EC''), ([''_M_X64'', ''_M_AMD64''], ''x64''),
        ([''_M_IX86''], ''X86''), ([''_M_ARM64''], ''ARM64''),
        ([''_M_ARM''], if cond env ''_M_ARM'' = 4 then ''ARMV4I''
           else if cond env ''_M_ARM'' = 5 then ''ARMV5I'' else ''ARMV'' @ stringify env ''_M_ARM''),
        ([''_M_MIPS''], ''MIPS''), ([''_M_SH''], ''SHx'')]
       ''''"

definition arch_iar :: "(string list \<times> string) list" where
  "arch_iar =
     [([''__ICCARM__''], ''ARM''), ([''__ICCRX__''], ''RX''), ([''__ICCRH850__''], ''RH850''),
      ([''__ICCRL78__''], ''RL78''), ([''__ICCRISCV__''], ''RISCV''), ([''__ICCAVR__''], ''AVR''),
      ([''__ICC430__''], ''MSP430''), ([''__ICCV850__''], ''V850''), ([''__ICC8051__''], ''8051''),
      ([''__ICCSTM8__''], ''STM8'')]"

definition architecture_id :: "env \<Rightarrow> string" where
  "architecture_id env =
     (if dfd env ''_WIN32'' \<and> dfd env ''_MSC_VER'' then arch_windows env
      else pick env
        [([''__WATCOMC__''], pick env [([''_M_I86''], ''I86''), ([''_M_IX86''], ''X86'')] ''''),
         ([''__IAR_SYSTEMS_ICC__'', ''__IAR_SYSTEMS_ICC''], pick env arch_iar ''''),
         ([''__ghs__''], pick env [([''__PPC64__''], ''PPC64''), ([''__ppc__''], ''PPC''),
            ([''__ARM__''], ''ARM''), ([''__x86_64__''], ''x64''), ([''__i386__''], ''X86'')] ''''),
         ([''__TI_COMPILER_VERSION__''], pick env [([''__TI_ARM__''], ''ARM''), ([''__MSP430__''], ''MSP430''),
            ([''__TMS320C28XX__''], ''TMS320C28x''), ([''__TMS320C6X__'', ''_TMS320C6X''], ''TMS320C6x'')] '''')]
        '''')"

definition info_arch :: "env \<Rightarrow> string" where
  "info_arch env = literal ''arch'' (architecture_id env)"

section \<open>The language dialect and \<open>main\<close>\<close>

definition CXX_STD :: "env \<Rightarrow> int" where
  "CXX_STD env =
     (if dfd env ''__INTEL_COMPILER'' \<and> dfd env ''_MSVC_LANG'' \<and> cond env ''_MSVC_LANG'' < 201403
      then if dfd env ''__INTEL_CXX11_MODE__''
           then if dfd env ''__cpp_aggregate_nsdmi'' then 201402 else 201103
           else 199711
      else if dfd env ''_MSC_VER'' \<and> dfd env ''_MSVC_LANG'' then cond env ''_MSVC_LANG''
      else cond env ''__cplusplus'')"

definition dialect :: "int \<Rightarrow> string" where
  "dialect std =
     (if std > 202002 then ''23'' else if std > 201703 then ''20'' else if std \<ge> 201703 then ''17''
      else if std \<ge> 201402 then ''14'' else if std \<ge> 201103 then ''11'' else ''98'')"

definition info_language_dialect_default :: "env \<Rightarrow> string" where
  "info_language_dialect_default env = literal ''dialect_default'' (dialect (CXX_STD env))"

text \<open>
  \<open>main\<close> adds the character at position \<open>argc\<close> of each string, so that the compiler keeps
  them. \<^term>\<open>None\<close>: the program does not compile, or it reads behind the end of a string.
  The test of \<open>info_version\<close> is that of \<open>COMPILER_VERSION_MAJOR\<close>.
\<close>

fun char_at :: "nat \<Rightarrow> decl \<Rightarrow> int option" where
  "char_at n (Chars s) = (if n < length s then Some (sint (of_char (s ! n) :: 8 word)) else None)"
| "char_at n Absent = Some 0"
| "char_at n Ill_formed = None"

fun require_all :: "nat \<Rightarrow> decl list \<Rightarrow> int option" where
  "require_all n [] = Some 0"
| "require_all n (d # ds) =
     Option.bind (char_at n d) (\<lambda>c. map_option (\<lambda>r. c + r) (require_all n ds))"

definition main_probe :: "env \<Rightarrow> env option \<Rightarrow> nat \<Rightarrow> int option" where
  "main_probe env hip argc =
     (let p = identify env hip
      in if \<not> dfd env ''__cplusplus'' \<or> info_version p = Ill_formed \<or> info_version_internal p = Ill_formed
            \<or> info_simulate_version p = Ill_formed
         then None
         else require_all argc
           [Chars (info_compiler p), Chars (info_platform env),
            (if V_MAJOR p \<noteq> None then info_version p else Absent),
            (if V_INTERNAL p \<noteq> None then info_version_internal p else Absent),
            info_simulate p, info_simulate_version p, info_cray env,
            Chars (info_language_dialect_default env)])"


section \<open>Reading the strings back\<close>

lemma char_of_digit: "char_of (48 + int d) = digit_char d"
proof -
  have "char_of (48 + int d) = (char_of (of_nat (48 + d) :: int) :: char)" by simp
  also have "\<dots> = char_of (48 + d)" by (simp only: char_of_nat)
  finally show ?thesis by (simp add: digit_char_def)
qed

lemma sdiv_of_nat: "int a sdiv int b = int (a div b)"
  by (simp add: signed_divide_int_def zdiv_int sgn_if)

lemma smod_of_nat: "int a smod int b = int (a mod b)"
  by (simp add: signed_modulo_int_def zmod_int sgn_if)

lemma DEC_nat:
  "DEC (int m) = map (\<lambda>d. digit_char d)
     [m div 10000000 mod 10, m div 1000000 mod 10, m div 100000 mod 10, m div 10000 mod 10,
      m div 1000 mod 10, m div 100 mod 10, m div 10 mod 10, m mod 10]"
proof -
  have "int m sdiv numeral k = int (m div numeral k)" for k using sdiv_of_nat [of m "numeral k"] by simp
  moreover have "int a smod 10 = int (a mod 10)" for a using smod_of_nat [of a 10] by simp
  ultimately show ?thesis by (simp only: DEC_def char_of_digit list.map)
qed

lemma read_digits_DEC: "read_digits 0 (DEC (int m)) = Some (m mod 10 ^ 8)"
proof -
  have step: "10 * (m div 10 mod 10 ^ k) + m mod 10 = m mod 10 ^ Suc k" for k m :: nat
    using mod_mult2_eq [of m 10 "10 ^ k"] by simp
  have "read_digits 0 (DEC (int m)) = Some (10 * (10 * (10 * (10 * (10 * (10 * (10 * (m div 10000000 mod 10)
     + m div 1000000 mod 10) + m div 100000 mod 10) + m div 10000 mod 10) + m div 1000 mod 10)
     + m div 100 mod 10) + m div 10 mod 10) + m mod 10)"
    by (simp add: DEC_nat)
  also have "\<dots> = Some (m mod 10 ^ 8)"
    using step [of "m div 1000000" 1] step [of "m div 100000" 2] step [of "m div 10000" 3]
      step [of "m div 1000" 4] step [of "m div 100" 5] step [of "m div 10" 6] step [of m 7]
    by (simp add: div_mult2_eq [symmetric])
  finally show ?thesis .
qed

fun hex_value :: "nat \<Rightarrow> string \<Rightarrow> nat" where
  "hex_value acc [] = acc"
| "hex_value acc (c # cs) = hex_value (16 * acc + (of_char c - 48)) cs"

lemma and_15: "k AND 0xF = k mod 16" for k :: int
  using take_bit_eq_mask [of 4 k] by (simp add: take_bit_eq_mod mask_eq_exp_minus_1)

lemma hex_step: "hex_value acc (char_of (48 + k mod 16) # cs) = hex_value (16 * acc + nat (k mod 16)) cs"
  for k :: int
proof -
  have b: "0 \<le> k mod 16" "k mod 16 < 16" by simp_all
  then have "char_of (48 + k mod 16) = (char_of (48 + nat (k mod 16)) :: char)"
    by (metis char_of_nat nat_0_le of_nat_add of_nat_numeral)
  then have "(of_char (char_of (48 + k mod 16) :: char) :: nat) = 48 + nat (k mod 16)" using b by simp
  then show ?thesis by simp
qed

lemma int_nibble: "int (nat (k mod 16)) = k mod 16" for k :: int
  by simp

lemma hex_join: "16 * (n div (16 * q) mod r) + n div q mod 16 = n div q mod (16 * r)"
  if "0 \<le> q" "0 \<le> r" for n q r :: int
  using zmod_zmult2_eq [of r "n div q" 16] zdiv_zmult2_eq [of 16 n q] that by (simp add: mult.commute)

lemma hex_value_HEX: "int (hex_value 0 (HEX n)) = n mod 2 ^ 32"
proof -
  have e0: "16 * (n div 2 ^ 28 mod 16) + n div 2 ^ 24 mod 16 = n div 2 ^ 24 mod 16 ^ 2"
    using hex_join [of "2 ^ 24" "16" n] by simp
  have e1: "16 * (n div 2 ^ 24 mod 16 ^ 2) + n div 2 ^ 20 mod 16 = n div 2 ^ 20 mod 16 ^ 3"
    using hex_join [of "2 ^ 20" "16 ^ 2" n] by simp
  have e2: "16 * (n div 2 ^ 20 mod 16 ^ 3) + n div 2 ^ 16 mod 16 = n div 2 ^ 16 mod 16 ^ 4"
    using hex_join [of "2 ^ 16" "16 ^ 3" n] by simp
  have e3: "16 * (n div 2 ^ 16 mod 16 ^ 4) + n div 2 ^ 12 mod 16 = n div 2 ^ 12 mod 16 ^ 5"
    using hex_join [of "2 ^ 12" "16 ^ 4" n] by simp
  have e4: "16 * (n div 2 ^ 12 mod 16 ^ 5) + n div 2 ^ 8 mod 16 = n div 2 ^ 8 mod 16 ^ 6"
    using hex_join [of "2 ^ 8" "16 ^ 5" n] by simp
  have e5: "16 * (n div 2 ^ 8 mod 16 ^ 6) + n div 2 ^ 4 mod 16 = n div 2 ^ 4 mod 16 ^ 7"
    using hex_join [of "2 ^ 4" "16 ^ 6" n] by simp
  have e6: "16 * (n div 2 ^ 4 mod 16 ^ 7) + n mod 16 = n mod 2 ^ 32"
    using hex_join [of 1 "16 ^ 7" n] by simp
  have "int (hex_value 0 (HEX n)) = 16 * (16 * (16 * (16 * (16 * (16 * (16 * (n div 2 ^ 28 mod 16)
     + n div 2 ^ 24 mod 16) + n div 2 ^ 20 mod 16) + n div 2 ^ 16 mod 16) + n div 2 ^ 12 mod 16)
     + n div 2 ^ 8 mod 16) + n div 2 ^ 4 mod 16) + n mod 16"
    by (simp only: HEX_def and_15 drop_bit_eq_div hex_step hex_value.simps(1) of_nat_add of_nat_mult
        of_nat_numeral int_nibble of_nat_0 mult_zero_right add_0_left)
  also have "\<dots> = n mod 2 ^ 32" by (simp only: e0 e1 e2 e3 e4 e5 e6)
  finally show ?thesis .
qed

lemma id_simps [simp]:
  "COMPILER_ID (id_only s) = s" "COMPILER_ID (vers a b c p) = COMPILER_ID p"
  "COMPILER_ID (simulate_msvc env p) = COMPILER_ID p"
  "COMPILER_ID (simulate_msvc_version env p) = COMPILER_ID p"
  "COMPILER_ID (intel_simulate env p) = COMPILER_ID p"
  "COMPILER_ID (clang_version env p) = COMPILER_ID p" "COMPILER_ID (fcc_version env p) = COMPILER_ID p"
  by (simp_all add: id_only_def vers_def simulate_msvc_def simulate_msvc_version_def intel_simulate_def
      clang_version_def fcc_version_def Let_def)

lemma branch_ids [simp]:
  "COMPILER_ID (comeau env) = ''Comeau''" "COMPILER_ID (intel env) = ''Intel''"
  "COMPILER_ID (intel_llvm env) = ''IntelLLVM''" "COMPILER_ID (pathscale env) = ''PathScale''"
  "COMPILER_ID (embarcadero env) = ''Embarcadero''" "COMPILER_ID (borland env) = ''Borland''"
  "COMPILER_ID (watcom env) = ''Watcom''" "COMPILER_ID (openwatcom env) = ''OpenWatcom''"
  "COMPILER_ID (sunpro x env) = ''SunPro''" "COMPILER_ID (hp_acc x env) = ''HP''"
  "COMPILER_ID (compaq x env) = ''Compaq''" "COMPILER_ID (ibmcpp x s env) = s"
  "COMPILER_ID (xlclang env) = ''XLClang''" "COMPILER_ID (nvhpc env) = ''NVHPC''"
  "COMPILER_ID (pgi env) = ''PGI''" "COMPILER_ID (cray env) = ''Cray''" "COMPILER_ID (ti env) = ''TI''"
  "COMPILER_ID (fujitsu_clang env) = ''FujitsuClang''" "COMPILER_ID (fujitsu env) = ''Fujitsu''"
  "COMPILER_ID (ghs env) = ''GHS''" "COMPILER_ID (armcc env) = ''ARMCC''"
  "COMPILER_ID (apple_clang env) = ''AppleClang''" "COMPILER_ID (arm_clang env) = ''ARMClang''"
  "COMPILER_ID (rocm_clang env hip) = ''ROCMClang''" "COMPILER_ID (clang env) = ''Clang''"
  "COMPILER_ID (gnu env) = ''GNU''" "COMPILER_ID (msvc env) = ''MSVC''"
  "COMPILER_ID (adsp env) = ''ADSP''" "COMPILER_ID (iar env) = ''IAR''"
  by (simp_all add: comeau_def intel_def intel_llvm_def pathscale_def embarcadero_def borland_def watcom_def
      openwatcom_def sunpro_def hp_acc_def compaq_def ibmcpp_def xlclang_def nvhpc_def pgi_def cray_def ti_def
      fujitsu_clang_def fujitsu_def ghs_def armcc_def apple_clang_def arm_clang_def rocm_clang_def clang_def
      gnu_def msvc_def adsp_def iar_def Let_def split: option.splits)

text \<open>The macros that a branch before the one for GNU tests.\<close>

definition earlier_macros :: "string list" where
  "earlier_macros =
     [''__COMO__'', ''__INTEL_COMPILER'', ''__ICC'', ''__clang__'', ''__INTEL_LLVM_COMPILER'', ''__PATHCC__'',
      ''__BORLANDC__'', ''__WATCOMC__'', ''__SUNPRO_CC'', ''__HP_aCC'', ''__DECCXX'', ''__IBMCPP__'',
      ''__NVCOMPILER'', ''__PGI'', ''_CRAYC'', ''__TI_COMPILER_VERSION__'', ''__CLANG_FUJITSU'', ''__FUJITSU'',
      ''__ghs__'', ''__SCO_VERSION__'', ''__ARMCC_VERSION'']"

lemma gnu_if: "COMPILER_ID (if b then p else q) = ''GNU'' \<longleftrightarrow>
    b \<and> COMPILER_ID p = ''GNU'' \<or> \<not> b \<and> COMPILER_ID q = ''GNU''"
  by simp

lemma not_gnu:
  "(COMPILER_ID (comeau env) = ''GNU'') = False"
  "(COMPILER_ID (intel env) = ''GNU'') = False"
  "(COMPILER_ID (intel_llvm env) = ''GNU'') = False"
  "(COMPILER_ID (pathscale env) = ''GNU'') = False"
  "(COMPILER_ID (embarcadero env) = ''GNU'') = False"
  "(COMPILER_ID (borland env) = ''GNU'') = False"
  "(COMPILER_ID (watcom env) = ''GNU'') = False"
  "(COMPILER_ID (openwatcom env) = ''GNU'') = False"
  "(COMPILER_ID (sunpro x env) = ''GNU'') = False"
  "(COMPILER_ID (hp_acc x env) = ''GNU'') = False"
  "(COMPILER_ID (compaq x env) = ''GNU'') = False"
  "(COMPILER_ID (ibmcpp x ''zOS'' env) = ''GNU'') = False"
  "(COMPILER_ID (ibmcpp x ''XL'' env) = ''GNU'') = False"
  "(COMPILER_ID (ibmcpp x ''VisualAge'' env) = ''GNU'') = False"
  "(COMPILER_ID (xlclang env) = ''GNU'') = False"
  "(COMPILER_ID (nvhpc env) = ''GNU'') = False"
  "(COMPILER_ID (pgi env) = ''GNU'') = False"
  "(COMPILER_ID (cray env) = ''GNU'') = False"
  "(COMPILER_ID (ti env) = ''GNU'') = False"
  "(COMPILER_ID (fujitsu_clang env) = ''GNU'') = False"
  "(COMPILER_ID (fujitsu env) = ''GNU'') = False"
  "(COMPILER_ID (ghs env) = ''GNU'') = False"
  "(COMPILER_ID (armcc env) = ''GNU'') = False"
  "(COMPILER_ID (apple_clang env) = ''GNU'') = False"
  "(COMPILER_ID (arm_clang env) = ''GNU'') = False"
  "(COMPILER_ID (rocm_clang env hip) = ''GNU'') = False"
  "(COMPILER_ID (clang env) = ''GNU'') = False"
  "(COMPILER_ID (msvc env) = ''GNU'') = False"
  "(COMPILER_ID (adsp env) = ''GNU'') = False"
  "(COMPILER_ID (iar env) = ''GNU'') = False"
  "(COMPILER_ID (id_only ''SCO'') = ''GNU'') = False"
  "(COMPILER_ID (id_only ''HP'') = ''GNU'') = False"
  "(COMPILER_ID (id_only '''') = ''GNU'') = False"
  by simp_all

lemma gnu_iff:
  "COMPILER_ID (identify env hip) = ''GNU'' \<longleftrightarrow>
     \<not> list_ex (dfd env) earlier_macros \<and> (dfd env ''__GNUC__'' \<or> dfd env ''__GNUG__'')"
proof -
  have "COMPILER_ID (gnu env) = ''GNU''" by simp
  moreover have "cond env ''__IBMCPP__'' < 800 \<longleftrightarrow> \<not> 800 \<le> cond env ''__IBMCPP__''" by linarith
  ultimately show ?thesis
    unfolding identify_def Let_def gnu_if not_gnu earlier_macros_def list_ex_Nil_iff list_ex_Cons_iff
    by argo
qed

lemma identify_gnu: "COMPILER_ID (identify env hip) = ''GNU'' \<Longrightarrow> identify env hip = gnu env"
  unfolding gnu_iff by (simp add: identify_def Let_def earlier_macros_def)

lemma DEC_no_dot: "CHR ''.'' \<notin> set (DEC (int m))"
proof -
  have "digit_char (k mod 10) \<noteq> CHR ''.''" for k by (rule digit_char_neq) simp_all
  then show ?thesis by (auto simp: DEC_nat dest: sym)
qed

text \<open>Lengths, which bound the positions \<open>main\<close> may read.\<close>

lemma length_literal [simp]: "length (literal key v) = length key + length v + 8"
  by (simp add: literal_def)

lemma text_literal_length: "text_literal key m = Chars s \<Longrightarrow> length key + 8 \<le> length s"
  by (cases "(key, m)" rule: text_literal.cases) auto

lemma version_array_length: "version_array key fs = Chars s \<Longrightarrow> length key + 8 \<le> length s"
  by (cases "(key, fs)" rule: version_array.cases) (auto split: option.splits)

definition readable :: "nat \<Rightarrow> decl \<Rightarrow> bool" where
  "readable n d \<longleftrightarrow> (case d of Absent \<Rightarrow> True | Ill_formed \<Rightarrow> False | Chars s \<Rightarrow> n < length s)"

lemma require_all_readable: "list_all (readable n) ds \<Longrightarrow> \<exists>r. require_all n ds = Some r"
proof (induction ds)
  case (Cons d ds)
  then show ?case by (cases d) (auto simp: readable_def)
qed simp

lemma readable_info_version: "info_version p \<noteq> Ill_formed \<Longrightarrow> n < 24 \<Longrightarrow> readable n (info_version p)"
  by (auto simp: readable_def info_version_def split: decl.splits option.splits
      dest: text_literal_length version_array_length)

lemma readable_info_version_internal:
  "info_version_internal p \<noteq> Ill_formed \<Longrightarrow> n < 24 \<Longrightarrow> readable n (info_version_internal p)"
  by (auto simp: readable_def info_version_internal_def split: decl.splits option.splits
      dest!: text_literal_length version_array_length simp del: version_array.simps)

lemma readable_info_simulate_version:
  "info_simulate_version p \<noteq> Ill_formed \<Longrightarrow> n < 24 \<Longrightarrow> readable n (info_simulate_version p)"
  by (auto simp: readable_def info_simulate_version_def split: decl.splits
      dest!: version_array_length simp del: version_array.simps)

section \<open>Properties\<close>

text \<open>
  \<open>DEC\<close> writes a number of at most eight decimal digits as eight characters from which it
  can be read back.
\<close>

lemma DEC_roundtrip:
  assumes "0 \<le> n" and "n < 10 ^ 8"
  shows "length (DEC n) = 8 \<and> read_digits 0 (DEC n) = Some (nat n)"
proof -
  from assms(1) obtain m where m: "n = int m" by (metis nat_0_le)
  with assms(2) have "m mod 10 ^ 8 = m" by simp
  with read_digits_DEC [of m] m show ?thesis by (simp add: DEC_def)
qed

lemma DEC_roundtrip_witness: "read_digits 0 (DEC 202110) = Some 202110"
  using DEC_roundtrip [of 202110] by simp

text \<open>
  \<open>HEX\<close> writes the low 32 bits of every number, negative ones included: the eight
  characters, each \<open>'0'\<close> plus a nibble, determine them.
\<close>

lemma HEX_roundtrip: "length (HEX n) = 8 \<and> int (hex_value 0 (HEX n)) = n mod 2 ^ 32"
  using hex_value_HEX by (simp add: HEX_def)

text \<open>
  The compiler is identified as GNU exactly when it defines \<open>__GNUC__\<close> or \<open>__GNUG__\<close> and no
  macro that an earlier branch tests on its own; so a compiler that poses as GNU (clang,
  Intel) is not mistaken for it.
\<close>

lemma gnu_identified:
  "COMPILER_ID (identify env hip) = ''GNU'' \<longleftrightarrow>
     \<not> list_ex (dfd env) earlier_macros \<and> (dfd env ''__GNUC__'' \<or> dfd env ''__GNUG__'')"
  by (rule gnu_iff)

text \<open>
  For a GNU compiler the version string has the form CMake looks for, and its three
  dot-separated numbers are the values of the three version macros.
\<close>

lemma gnu_version_readable:
  assumes "COMPILER_ID (identify env hip) = ''GNU''"
    and "env ''__GNUC__'' = Some (Num (int a))" and "env ''__GNUC_MINOR__'' = Some (Num (int b))"
    and "env ''__GNUC_PATCHLEVEL__'' = Some (Num (int c))" and "a < 10 ^ 8" and "b < 10 ^ 8" and "c < 10 ^ 8"
  shows "\<exists>s. info_version (identify env hip) = Chars (''INFO:compiler_version['' @ s @ [CHR '']'', NUL])
    \<and> map (read_digits 0) (pieces (CHR ''.'') s) = [Some a, Some b, Some c]"
proof -
  let ?s = "DEC (int a) @ CHR ''.'' # DEC (int b) @ CHR ''.'' # DEC (int c)"
  have "info_version (gnu env) = Chars (''INFO:compiler_version['' @ ?s @ [CHR '']'', NUL])"
    using assms(2-4)
    by (simp add: gnu_def info_version_def vers_def id_only_def dec_def dec_if_def dfd_def numv_def ident_def)
  moreover have "pieces (CHR ''.'') ?s = [DEC (int a), DEC (int b), DEC (int c)]"
    by (simp add: pieces_append pieces_no_sep DEC_no_dot)
  ultimately show ?thesis
    using identify_gnu [OF assms(1)] assms(5-7) by (intro exI [of _ ?s]) (simp add: read_digits_DEC)
qed

definition gcc_env :: env where
  "gcc_env = map_of [(''__GNUC__'', Num 10), (''__GNUC_MINOR__'', Num 2), (''__GNUC_PATCHLEVEL__'', Num 1),
     (''__cplusplus'', Num 201402), (''__linux__'', Num 1)]"

lemma gcc_gnu: "COMPILER_ID (identify gcc_env None) = ''GNU''"
  unfolding gnu_iff by (simp add: earlier_macros_def dfd_def gcc_env_def)

lemma gnu_version_readable_witness:
  "\<exists>s. info_version (identify gcc_env None) = Chars (''INFO:compiler_version['' @ s @ [CHR '']'', NUL])
    \<and> map (read_digits 0) (pieces (CHR ''.'') s) = [Some 10, Some 2, Some 1]"
  by (rule gnu_version_readable) (simp_all add: gcc_gnu, simp_all add: gcc_env_def)

text \<open>
  \<open>main\<close> reads each string at position \<open>argc\<close>: with at most 15 arguments, where the program
  compiles, every such read is within the string, whatever the compiler.
\<close>

lemma main_in_bounds:
  assumes "argc \<le> 15" and "dfd env ''__cplusplus''" and "info_version (identify env hip) \<noteq> Ill_formed"
    and "info_version_internal (identify env hip) \<noteq> Ill_formed"
    and "info_simulate_version (identify env hip) \<noteq> Ill_formed"
  shows "\<exists>r. main_probe env hip argc = Some r"
proof -
  let ?p = "identify env hip"
  from assms(1) have n: "argc < 24" by simp
  note r = readable_info_version [OF assms(3) n] readable_info_version_internal [OF assms(4) n]
    readable_info_simulate_version [OF assms(5) n]
  have "readable argc Absent" "readable argc (Chars (info_compiler ?p))"
    "readable argc (Chars (info_platform env))" "readable argc (info_simulate ?p)"
    "readable argc (info_cray env)" "readable argc (Chars (info_language_dialect_default env))"
    using assms(1)
    by (simp_all add: readable_def info_compiler_def info_platform_def info_simulate_def info_cray_def
        info_language_dialect_default_def split: option.splits)
  with r show ?thesis using assms(2-5) unfolding main_probe_def Let_def
    by (simp only: if_False HOL.simp_thms) (intro require_all_readable, simp)
qed

lemma main_in_bounds_witness: "\<exists>r. main_probe gcc_env None 1 = Some r"
proof -
  obtain s where "info_version (identify gcc_env None) = Chars s"
    unfolding identify_gnu [OF gcc_gnu]
    by (simp add: info_version_def gnu_def vers_def id_only_def dec_def dec_if_def dfd_def numv_def gcc_env_def)
  moreover have "info_version_internal (identify gcc_env None) = Absent" "info_simulate_version (identify gcc_env None) = Absent"
    by (simp_all add: identify_gnu [OF gcc_gnu] info_version_internal_def info_simulate_version_def gnu_def vers_def id_only_def)
  ultimately show ?thesis by - (rule main_in_bounds, simp_all, simp add: dfd_def gcc_env_def)
qed

end
