(* ===== verification/ProbeCopies.thy ===== *)
theory ProbeCopies
  imports CompilerProbe
begin

text \<open>
  The other three compiler identification programs that CMake has left in the build directory
  (\<open>client/cmake-build-debug/CMakeFiles\<close>): \<open>CMakeCCompilerId.c\<close> of CMake 3.21.1, which asks for the C
  compiler, and the programs of CMake 3.20.2 for both languages. They share most branches with
  the program of the theory \<open>CompilerProbe\<close>; each has its own chains.
\<close>

section \<open>Branches that only the C programs have\<close>

definition gnu_c :: "env \<Rightarrow> probe" where
  "gnu_c env = vers (dec env ''__GNUC__'' ident) (dec_if env ''__GNUC_MINOR__'')
     (dec_if env ''__GNUC_PATCHLEVEL__'') (id_only ''GNU'')"

definition sdcc :: "env \<Rightarrow> probe" where
  "sdcc env =
     (if dfd env ''__SDCC_VERSION_MAJOR''
      then vers (dec env ''__SDCC_VERSION_MAJOR'' ident) (dec env ''__SDCC_VERSION_MINOR'' ident)
             (dec env ''__SDCC_VERSION_PATCH'' ident) (id_only ''SDCC'')
      else vers (dec env ''SDCC'' (\<lambda>v. v sdiv 100)) (dec env ''SDCC'' (\<lambda>v. v sdiv 10 smod 10))
             (dec env ''SDCC'' (\<lambda>v. v smod 10)) (id_only ''SDCC''))"

text \<open>A chain is the list of its conditions with what they define; the first that holds counts.\<close>

fun first_of :: "(bool \<times> 'a) list \<Rightarrow> 'a \<Rightarrow> 'a" where
  "first_of [] d = d"
| "first_of ((b, v) # rest) d = (if b then v else first_of rest d)"

section \<open>CMake 3.21.1, C\<close>

definition c_chain1 :: "env \<Rightarrow> (bool \<times> probe) list" where
  "c_chain1 env =
     (let def = dfd env
      in [(def ''__INTEL_COMPILER'' \<or> def ''__ICC'', intel env),
          (def ''__clang__'' \<and> def ''__INTEL_CLANG_COMPILER'' \<or> def ''__INTEL_LLVM_COMPILER'', intel_llvm env),
          (def ''__PATHCC__'', pathscale env),
          (def ''__BORLANDC__'' \<and> def ''__CODEGEARC_VERSION__'', embarcadero env),
          (def ''__BORLANDC__'', borland env),
          (def ''__WATCOMC__'' \<and> cond env ''__WATCOMC__'' < 1200, watcom env),
          (def ''__WATCOMC__'', openwatcom env),
          (def ''__SUNPRO_C'', sunpro ''__SUNPRO_C'' env)])"

definition c_chain2 :: "env \<Rightarrow> (bool \<times> probe) list" where
  "c_chain2 env =
     (let def = dfd env
      in [(def ''__HP_cc'', hp_acc ''__HP_cc'' env),
          (def ''__DECC'', compaq ''__DECC_VER'' env),
          (def ''__IBMC__'' \<and> def ''__COMPILER_VER__'', ibmcpp ''__IBMC__'' ''zOS'' env),
          (def ''__ibmxl__'' \<and> def ''__clang__'', xlclang env),
          (def ''__IBMC__'' \<and> \<not> def ''__COMPILER_VER__'' \<and> 800 \<le> cond env ''__IBMC__'', ibmcpp ''__IBMC__'' ''XL'' env),
          (def ''__IBMC__'' \<and> \<not> def ''__COMPILER_VER__'' \<and> cond env ''__IBMC__'' < 800,
             ibmcpp ''__IBMC__'' ''VisualAge'' env),
          (def ''__NVCOMPILER'', nvhpc env),
          (def ''__PGI'', pgi env),
          (def ''_CRAYC'', cray env),
          (def ''__TI_COMPILER_VERSION__'', ti env),
          (def ''__CLANG_FUJITSU'', fujitsu_clang env),
          (def ''__FUJITSU'', fujitsu env),
          (def ''__ghs__'', ghs env),
          (def ''__TINYC__'', id_only ''TinyCC''),
          (def ''__BCC__'', id_only ''Bruce''),
          (def ''__SCO_VERSION__'', id_only ''SCO''),
          (def ''__ARMCC_VERSION'' \<and> \<not> def ''__clang__'', armcc env)])"

definition c_chain3 :: "env \<Rightarrow> env option \<Rightarrow> (bool \<times> probe) list" where
  "c_chain3 env hip =
     (let def = dfd env
      in [(def ''__clang__'' \<and> def ''__apple_build_version__'', apple_clang env),
          (def ''__clang__'' \<and> def ''__ARMCOMPILER_VERSION'', arm_clang env),
          (def ''__clang__'' \<and> hip \<noteq> None, rocm_clang env hip),
          (def ''__clang__'', clang env),
          (def ''__GNUC__'', gnu_c env),
          (def ''_MSC_VER'', msvc env),
          (def ''__VISUALDSPVERSION__'' \<or> def ''__ADSPBLACKFIN__'' \<or> def ''__ADSPTS__'' \<or> def ''__ADSP21000__'', adsp env),
          (def ''__IAR_SYSTEMS_ICC__'' \<or> def ''__IAR_SYSTEMS_ICC'', iar env),
          (def ''__SDCC_VERSION_MAJOR'' \<or> def ''SDCC'', sdcc env),
          (def ''__hpux'' \<or> def ''__hpua'', id_only ''HP'')])"

definition c_identify :: "env \<Rightarrow> env option \<Rightarrow> probe" where
  "c_identify env hip = first_of (c_chain1 env @ c_chain2 env @ c_chain3 env hip) (id_only '''')"

definition c_simulate_and_cray :: "env \<Rightarrow> probe \<Rightarrow> decl list" where
  "c_simulate_and_cray env p = [Chars (info_compiler p), info_simulate p, qnxnto env, info_cray env]"

definition c_platform_id :: "env \<Rightarrow> string" where
  "c_platform_id env =
     pick env
       (platforms1 @
        [([''__WATCOMC__''], pick env watcom_platforms ''''),
         ([''__INTEGRITY''], pick env [([''INT_178B''], ''Integrity178'')] ''Integrity'')])
       ''''"

definition c_architecture_id :: "env \<Rightarrow> string" where
  "c_architecture_id env =
     (if dfd env ''_WIN32'' \<and> dfd env ''_MSC_VER'' then arch_windows env
      else pick env
        [([''__WATCOMC__''], pick env [([''_M_I86''], ''I86''), ([''_M_IX86''], ''X86'')] ''''),
         ([''__IAR_SYSTEMS_ICC__'', ''__IAR_SYSTEMS_ICC''], pick env arch_iar ''''),
         ([''__ghs__''], pick env [([''__PPC64__''], ''PPC64''), ([''__ppc__''], ''PPC''),
            ([''__ARM__''], ''ARM''), ([''__x86_64__''], ''x64''), ([''__i386__''], ''X86'')] ''''),
         ([''__TI_COMPILER_VERSION__''], pick env [([''__TI_ARM__''], ''ARM''), ([''__MSP430__''], ''MSP430''),
            ([''__TMS320C28XX__''], ''TMS320C28x''), ([''__TMS320C6X__'', ''_TMS320C6X''], ''TMS320C6x'')] '''')]
        '''')"

definition c_versions :: "probe \<Rightarrow> decl list" where
  "c_versions p = [info_version p, info_version_internal p, info_simulate_version p]"

text \<open>An undefined \<open>__STDC_VERSION__\<close> is 0.\<close>

definition C_DIALECT :: "env \<Rightarrow> string" where
  "C_DIALECT env =
     (let v = cond env ''__STDC_VERSION__''
      in if \<not> dfd env ''__STDC__'' \<and> \<not> dfd env ''__clang__''
         then if dfd env ''_MSC_VER'' \<or> dfd env ''__ibmxl__'' \<or> dfd env ''__IBMC__'' then ''90'' else ''''
         else if v > 201710 then ''23'' else if v \<ge> 201710 then ''17'' else if v \<ge> 201000 then ''11''
         else if v \<ge> 199901 then ''99'' else ''90'')"

text \<open>
  \<open>main\<close>. The program for C also reads the architecture. With \<open>__18CXX\<close> it is \<open>void main() {}\<close>,
  which reads nothing and has no result: \<^term>\<open>Some None\<close>. \<^term>\<open>None\<close> as before. The K\&R form
  of the declaration for \<open>__CLASSIC_C__\<close> has the same meaning.
\<close>

definition c_main :: "env \<Rightarrow> env option \<Rightarrow> nat \<Rightarrow> int option option" where
  "c_main env hip argc =
     (let p = c_identify env hip
      in if dfd env ''__cplusplus'' \<or> Ill_formed \<in> set (c_versions p) then None
         else if dfd env ''__18CXX'' then Some None
         else map_option Some (require_all argc
           [Chars (info_compiler p), Chars (literal ''platform'' (c_platform_id env)),
            Chars (literal ''arch'' (c_architecture_id env)),
            (if V_MAJOR p \<noteq> None then info_version p else Absent),
            (if V_INTERNAL p \<noteq> None then info_version_internal p else Absent),
            info_simulate p, info_simulate_version p, info_cray env,
            Chars (literal ''dialect_default'' (C_DIALECT env))]))"

section \<open>CMake 3.20.2, C++\<close>

text \<open>There is no \<open>__has_include\<close>, no ROCMClang, and Fujitsu has a single branch without a version.\<close>

definition old_chain1 :: "env \<Rightarrow> (bool \<times> probe) list" where
  "old_chain1 env =
     (let def = dfd env
      in [(def ''__COMO__'', comeau env),
          (def ''__INTEL_COMPILER'' \<or> def ''__ICC'', intel env),
          (def ''__clang__'' \<and> def ''__INTEL_CLANG_COMPILER'' \<or> def ''__INTEL_LLVM_COMPILER'', intel_llvm env),
          (def ''__PATHCC__'', pathscale env),
          (def ''__BORLANDC__'' \<and> def ''__CODEGEARC_VERSION__'', embarcadero env),
          (def ''__BORLANDC__'', borland env),
          (def ''__WATCOMC__'' \<and> cond env ''__WATCOMC__'' < 1200, watcom env),
          (def ''__WATCOMC__'', openwatcom env),
          (def ''__SUNPRO_CC'', sunpro ''__SUNPRO_CC'' env)])"

definition old_chain2 :: "env \<Rightarrow> (bool \<times> probe) list" where
  "old_chain2 env =
     (let def = dfd env
      in [(def ''__HP_aCC'', hp_acc ''__HP_aCC'' env),
          (def ''__DECCXX'', compaq ''__DECCXX_VER'' env),
          (def ''__IBMCPP__'' \<and> def ''__COMPILER_VER__'', ibmcpp ''__IBMCPP__'' ''zOS'' env),
          (def ''__ibmxl__'' \<and> def ''__clang__'', xlclang env),
          (def ''__IBMCPP__'' \<and> \<not> def ''__COMPILER_VER__'' \<and> 800 \<le> cond env ''__IBMCPP__'',
             ibmcpp ''__IBMCPP__'' ''XL'' env),
          (def ''__IBMCPP__'' \<and> \<not> def ''__COMPILER_VER__'' \<and> cond env ''__IBMCPP__'' < 800,
             ibmcpp ''__IBMCPP__'' ''VisualAge'' env),
          (def ''__NVCOMPILER'', nvhpc env),
          (def ''__PGI'', pgi env),
          (def ''_CRAYC'', cray env),
          (def ''__TI_COMPILER_VERSION__'', ti env),
          (def ''__FUJITSU'' \<or> def ''__FCC_VERSION'' \<or> def ''__fcc_version'', id_only ''Fujitsu''),
          (def ''__ghs__'', ghs env),
          (def ''__SCO_VERSION__'', id_only ''SCO''),
          (def ''__ARMCC_VERSION'' \<and> \<not> def ''__clang__'', armcc env)])"

definition old_chain3 :: "env \<Rightarrow> (bool \<times> probe) list" where
  "old_chain3 env =
     (let def = dfd env
      in [(def ''__clang__'' \<and> def ''__apple_build_version__'', apple_clang env),
          (def ''__clang__'' \<and> def ''__ARMCOMPILER_VERSION'', arm_clang env),
          (def ''__clang__'', clang env),
          (def ''__GNUC__'' \<or> def ''__GNUG__'', gnu env),
          (def ''_MSC_VER'', msvc env),
          (def ''__VISUALDSPVERSION__'' \<or> def ''__ADSPBLACKFIN__'' \<or> def ''__ADSPTS__'' \<or> def ''__ADSP21000__'', adsp env),
          (def ''__IAR_SYSTEMS_ICC__'' \<or> def ''__IAR_SYSTEMS_ICC'', iar env),
          (def ''__hpux'' \<or> def ''__hpua'', id_only ''HP'')])"

definition old_identify :: "env \<Rightarrow> probe" where
  "old_identify env = first_of (old_chain1 env @ old_chain2 env @ old_chain3 env) (id_only '''')"

definition old_simulate_and_cray :: "env \<Rightarrow> probe \<Rightarrow> decl list" where
  "old_simulate_and_cray env p = [Chars (info_compiler p), info_simulate p, qnxnto env, info_cray env]"

text \<open>The platforms, without MSYS.\<close>

definition old_platforms :: "(string list \<times> string) list" where
  "old_platforms =
     [([''__linux'', ''__linux__'', ''linux''], ''Linux''),
      ([''__CYGWIN__''], ''Cygwin''),
      ([''__MINGW32__''], ''MinGW''),
      ([''__APPLE__''], ''Darwin''),
      ([''_WIN32'', ''__WIN32__'', ''WIN32''], ''Windows''),
      ([''__FreeBSD__'', ''__FreeBSD''], ''FreeBSD''),
      ([''__NetBSD__'', ''__NetBSD''], ''NetBSD''),
      ([''__OpenBSD__'', ''__OPENBSD''], ''OpenBSD''),
      ([''__sun'', ''sun''], ''SunOS''),
      ([''_AIX'', ''__AIX'', ''__AIX__'', ''__aix'', ''__aix__''], ''AIX''),
      ([''__hpux'', ''__hpux__''], ''HP-UX''),
      ([''__HAIKU__''], ''Haiku''),
      ([''__BeOS'', ''__BEOS__'', ''_BEOS''], ''BeOS''),
      ([''__QNX__'', ''__QNXNTO__''], ''QNX''),
      ([''__tru64'', ''_tru64'', ''__TRU64__''], ''Tru64''),
      ([''__riscos'', ''__riscos__''], ''RISCos''),
      ([''__sinix'', ''__sinix__'', ''__SINIX__''], ''SINIX''),
      ([''__UNIX_SV__''], ''UNIX_SV''),
      ([''__bsdos__''], ''BSDOS''),
      ([''_MPRAS'', ''MPRAS''], ''MP-RAS''),
      ([''__osf'', ''__osf__''], ''OSF1''),
      ([''_SCO_SV'', ''SCO_SV'', ''sco_sv''], ''SCO_SV''),
      ([''__ultrix'', ''__ultrix__'', ''_ULTRIX''], ''ULTRIX''),
      ([''__XENIX__'', ''_XENIX'', ''XENIX''], ''Xenix'')]"

definition old_platform_id :: "env \<Rightarrow> string" where
  "old_platform_id env =
     pick env
       (old_platforms @
        [([''__WATCOMC__''], pick env watcom_platforms ''''),
         ([''__INTEGRITY''], pick env [([''INT_178B''], ''Integrity178'')] ''Integrity'')])
       ''''"

definition old_architecture_id :: "env \<Rightarrow> string" where
  "old_architecture_id env =
     (if dfd env ''_WIN32'' \<and> dfd env ''_MSC_VER'' then arch_windows env
      else pick env
        [([''__WATCOMC__''], pick env [([''_M_I86''], ''I86''), ([''_M_IX86''], ''X86'')] ''''),
         ([''__IAR_SYSTEMS_ICC__'', ''__IAR_SYSTEMS_ICC''], pick env arch_iar ''''),
         ([''__ghs__''], pick env [([''__PPC64__''], ''PPC64''), ([''__ppc__''], ''PPC''),
            ([''__ARM__''], ''ARM''), ([''__x86_64__''], ''x64''), ([''__i386__''], ''X86'')] ''''),
         ([''__TI_COMPILER_VERSION__''], pick env [([''__TI_ARM__''], ''ARM''), ([''__MSP430__''], ''MSP430''),
            ([''__TMS320C28XX__''], ''TMS320C28x''), ([''__TMS320C6X__'', ''_TMS320C6X''], ''TMS320C6x'')] '''')]
        '''')"

text \<open>No version string of the compiler's own.\<close>

definition old_info_version :: "probe \<Rightarrow> decl" where
  "old_info_version p = version_array ''compiler_version'' [V_MAJOR p, V_MINOR p, V_PATCH p, V_TWEAK p]"

definition old_info_version_internal :: "probe \<Rightarrow> decl" where
  "old_info_version_internal p = version_array ''compiler_version_internal'' [V_INTERNAL p]"

definition old_info_simulate_version :: "probe \<Rightarrow> decl" where
  "old_info_simulate_version p = version_array ''simulate_version'' [S_MAJOR p, S_MINOR p, S_PATCH p, S_TWEAK p]"

definition old_CXX_STD :: "env \<Rightarrow> int" where
  "old_CXX_STD env =
     (if dfd env ''__INTEL_COMPILER'' \<and> dfd env ''_MSVC_LANG'' \<and> cond env ''_MSVC_LANG'' < 201403
      then if dfd env ''__INTEL_CXX11_MODE__''
           then if dfd env ''__cpp_aggregate_nsdmi'' then 201402 else 201103
           else 199711
      else if dfd env ''_MSC_VER'' \<and> dfd env ''_MSVC_LANG'' then cond env ''_MSVC_LANG''
      else cond env ''__cplusplus'')"

definition old_dialect_default :: "env \<Rightarrow> string" where
  "old_dialect_default env =
     literal ''dialect_default''
       (let std = old_CXX_STD env
        in if std > 202002 then ''23'' else if std > 201703 then ''20'' else if std \<ge> 201703 then ''17''
           else if std \<ge> 201402 then ''14'' else if std \<ge> 201103 then ''11'' else ''98'')"

definition old_main :: "env \<Rightarrow> nat \<Rightarrow> int option" where
  "old_main env argc =
     (let p = old_identify env
      in if \<not> dfd env ''__cplusplus'' \<or> old_info_version p = Ill_formed \<or> old_info_version_internal p = Ill_formed
            \<or> old_info_simulate_version p = Ill_formed
         then None
         else require_all argc
           [Chars (info_compiler p), Chars (literal ''platform'' (old_platform_id env)),
            (if V_MAJOR p \<noteq> None then old_info_version p else Absent),
            (if V_INTERNAL p \<noteq> None then old_info_version_internal p else Absent),
            info_simulate p, old_info_simulate_version p, info_cray env, Chars (old_dialect_default env)])"

section \<open>CMake 3.20.2, C\<close>

definition c_old_chain1 :: "env \<Rightarrow> (bool \<times> probe) list" where
  "c_old_chain1 env =
     (let def = dfd env
      in [(def ''__INTEL_COMPILER'' \<or> def ''__ICC'', intel env),
          (def ''__clang__'' \<and> def ''__INTEL_CLANG_COMPILER'' \<or> def ''__INTEL_LLVM_COMPILER'', intel_llvm env),
          (def ''__PATHCC__'', pathscale env),
          (def ''__BORLANDC__'' \<and> def ''__CODEGEARC_VERSION__'', embarcadero env),
          (def ''__BORLANDC__'', borland env),
          (def ''__WATCOMC__'' \<and> cond env ''__WATCOMC__'' < 1200, watcom env),
          (def ''__WATCOMC__'', openwatcom env),
          (def ''__SUNPRO_C'', sunpro ''__SUNPRO_C'' env)])"

definition c_old_chain2 :: "env \<Rightarrow> (bool \<times> probe) list" where
  "c_old_chain2 env =
     (let def = dfd env
      in [(def ''__HP_cc'', hp_acc ''__HP_cc'' env),
          (def ''__DECC'', compaq ''__DECC_VER'' env),
          (def ''__IBMC__'' \<and> def ''__COMPILER_VER__'', ibmcpp ''__IBMC__'' ''zOS'' env),
          (def ''__ibmxl__'' \<and> def ''__clang__'', xlclang env),
          (def ''__IBMC__'' \<and> \<not> def ''__COMPILER_VER__'' \<and> 800 \<le> cond env ''__IBMC__'', ibmcpp ''__IBMC__'' ''XL'' env),
          (def ''__IBMC__'' \<and> \<not> def ''__COMPILER_VER__'' \<and> cond env ''__IBMC__'' < 800,
             ibmcpp ''__IBMC__'' ''VisualAge'' env),
          (def ''__NVCOMPILER'', nvhpc env),
          (def ''__PGI'', pgi env),
          (def ''_CRAYC'', cray env),
          (def ''__TI_COMPILER_VERSION__'', ti env),
          (def ''__FUJITSU'' \<or> def ''__FCC_VERSION'' \<or> def ''__fcc_version'', id_only ''Fujitsu''),
          (def ''__ghs__'', ghs env),
          (def ''__TINYC__'', id_only ''TinyCC''),
          (def ''__BCC__'', id_only ''Bruce''),
          (def ''__SCO_VERSION__'', id_only ''SCO''),
          (def ''__ARMCC_VERSION'' \<and> \<not> def ''__clang__'', armcc env)])"

definition c_old_chain3 :: "env \<Rightarrow> (bool \<times> probe) list" where
  "c_old_chain3 env =
     (let def = dfd env
      in [(def ''__clang__'' \<and> def ''__apple_build_version__'', apple_clang env),
          (def ''__clang__'' \<and> def ''__ARMCOMPILER_VERSION'', arm_clang env),
          (def ''__clang__'', clang env),
          (def ''__GNUC__'', gnu_c env),
          (def ''_MSC_VER'', msvc env),
          (def ''__VISUALDSPVERSION__'' \<or> def ''__ADSPBLACKFIN__'' \<or> def ''__ADSPTS__'' \<or> def ''__ADSP21000__'', adsp env),
          (def ''__IAR_SYSTEMS_ICC__'' \<or> def ''__IAR_SYSTEMS_ICC'', iar env),
          (def ''__SDCC_VERSION_MAJOR'' \<or> def ''SDCC'', sdcc env),
          (def ''__hpux'' \<or> def ''__hpua'', id_only ''HP'')])"

definition c_old_identify :: "env \<Rightarrow> probe" where
  "c_old_identify env = first_of (c_old_chain1 env @ c_old_chain2 env @ c_old_chain3 env) (id_only '''')"

definition c_old_simulate_and_cray :: "env \<Rightarrow> probe \<Rightarrow> decl list" where
  "c_old_simulate_and_cray env p = [Chars (info_compiler p), info_simulate p, qnxnto env, info_cray env]"

definition c_old_platform_id :: "env \<Rightarrow> string" where
  "c_old_platform_id env =
     pick env
       (old_platforms @
        [([''__WATCOMC__''], pick env watcom_platforms ''''),
         ([''__INTEGRITY''], pick env [([''INT_178B''], ''Integrity178'')] ''Integrity'')])
       ''''"

definition c_old_architecture_id :: "env \<Rightarrow> string" where
  "c_old_architecture_id env =
     (if dfd env ''_WIN32'' \<and> dfd env ''_MSC_VER'' then arch_windows env
      else pick env
        [([''__WATCOMC__''], pick env [([''_M_I86''], ''I86''), ([''_M_IX86''], ''X86'')] ''''),
         ([''__IAR_SYSTEMS_ICC__'', ''__IAR_SYSTEMS_ICC''], pick env arch_iar ''''),
         ([''__ghs__''], pick env [([''__PPC64__''], ''PPC64''), ([''__ppc__''], ''PPC''),
            ([''__ARM__''], ''ARM''), ([''__x86_64__''], ''x64''), ([''__i386__''], ''X86'')] ''''),
         ([''__TI_COMPILER_VERSION__''], pick env [([''__TI_ARM__''], ''ARM''), ([''__MSP430__''], ''MSP430''),
            ([''__TMS320C28XX__''], ''TMS320C28x''), ([''__TMS320C6X__'', ''_TMS320C6X''], ''TMS320C6x'')] '''')]
        '''')"

definition c_old_versions :: "probe \<Rightarrow> decl list" where
  "c_old_versions p =
     [version_array ''compiler_version'' [V_MAJOR p, V_MINOR p, V_PATCH p, V_TWEAK p],
      version_array ''compiler_version_internal'' [V_INTERNAL p],
      version_array ''simulate_version'' [S_MAJOR p, S_MINOR p, S_PATCH p, S_TWEAK p]]"

text \<open>Here the first test does not ask for clang, the second does; 17 and 23 are unknown.\<close>

definition old_C_DIALECT :: "env \<Rightarrow> string" where
  "old_C_DIALECT env =
     (let v = cond env ''__STDC_VERSION__''
      in if \<not> dfd env ''__STDC__''
         then if dfd env ''_MSC_VER'' \<and> \<not> dfd env ''__clang__'' \<or> dfd env ''__ibmxl__'' \<or> dfd env ''__IBMC__''
              then ''90'' else ''''
         else if v \<ge> 201000 then ''11'' else if v \<ge> 199901 then ''99'' else ''90'')"

definition c_old_main :: "env \<Rightarrow> nat \<Rightarrow> int option option" where
  "c_old_main env argc =
     (let p = c_old_identify env
      in if dfd env ''__cplusplus'' \<or> Ill_formed \<in> set (c_old_versions p) then None
         else if dfd env ''__18CXX'' then Some None
         else map_option Some (require_all argc
           [Chars (info_compiler p), Chars (literal ''platform'' (c_old_platform_id env)),
            Chars (literal ''arch'' (c_old_architecture_id env)),
            (if V_MAJOR p \<noteq> None then c_old_versions p ! 0 else Absent),
            (if V_INTERNAL p \<noteq> None then c_old_versions p ! 1 else Absent),
            info_simulate p, c_old_versions p ! 2, info_cray env,
            Chars (literal ''dialect_default'' (old_C_DIALECT env))]))"

section \<open>The four programs compared\<close>

text \<open>The macros whose tests CMake 3.21 has added or changed.\<close>

definition changed_macros :: "string list" where
  "changed_macros = [''__CLANG_FUJITSU'', ''__FUJITSU'', ''__FCC_VERSION'', ''__fcc_version'', ''__MSYS__'']"

text \<open>The macros that only one of the two languages tests, or that GNU defines for C++ alone.\<close>

definition language_macros :: "string list" where
  "language_macros =
     [''__COMO__'', ''__SUNPRO_CC'', ''__HP_aCC'', ''__DECCXX'', ''__IBMCPP__'', ''__GNUG__'', ''__SUNPRO_C'',
      ''__HP_cc'', ''__DECC'', ''__IBMC__'', ''__TINYC__'', ''__BCC__'', ''__SDCC_VERSION_MAJOR'', ''SDCC'']"

lemmas chain_defs = c_chain1_def c_chain2_def c_chain3_def old_chain1_def old_chain2_def old_chain3_def
  c_old_chain1_def c_old_chain2_def c_old_chain3_def

lemma first_of_append: "first_of (xs @ ys) d = first_of xs (first_of ys d)"
  by (induction xs) auto

lemma old_identify_eq:
  assumes "\<not> list_ex (dfd env) changed_macros"
  shows "old_identify env = identify env None" and "c_old_identify env = c_identify env None"
proof -
  have n: "dfd env ''__CLANG_FUJITSU'' = False" "dfd env ''__FUJITSU'' = False" "dfd env ''__FCC_VERSION'' = False"
    "dfd env ''__fcc_version'' = False" "((None :: env option) \<noteq> None) = False"
    using assms by (simp_all add: changed_macros_def)
  show "old_identify env = identify env None"
    unfolding old_identify_def identify_def old_chain1_def old_chain2_def old_chain3_def Let_def first_of_append
      first_of.simps n HOL.simp_thms if_False ..
  show "c_old_identify env = c_identify env None"
    unfolding c_old_identify_def c_identify_def chain_defs Let_def first_of_append first_of.simps n HOL.simp_thms if_False ..
qed

lemma c_identify_eq:
  assumes "\<not> list_ex (dfd env) language_macros"
  shows "c_identify env hip = identify env hip"
proof -
  have n: "dfd env ''__COMO__'' = False" "dfd env ''__SUNPRO_CC'' = False" "dfd env ''__HP_aCC'' = False"
    "dfd env ''__DECCXX'' = False" "dfd env ''__IBMCPP__'' = False" "dfd env ''__GNUG__'' = False"
    "dfd env ''__SUNPRO_C'' = False" "dfd env ''__HP_cc'' = False" "dfd env ''__DECC'' = False"
    "dfd env ''__IBMC__'' = False" "dfd env ''__TINYC__'' = False" "dfd env ''__BCC__'' = False"
    "dfd env ''__SDCC_VERSION_MAJOR'' = False" "dfd env ''SDCC'' = False"
    using assms by (simp_all add: language_macros_def)
  have g: "dfd env ''__GNUC__'' \<Longrightarrow> gnu_c env = gnu env" by (simp add: gnu_c_def gnu_def)
  have "(if dfd env ''__GNUC__'' then gnu_c env else p) = (if dfd env ''__GNUC__'' then gnu env else p)" for p
    using g by simp
  note n = n this
  show ?thesis
    unfolding c_identify_def identify_def c_chain1_def c_chain2_def c_chain3_def Let_def first_of_append
      first_of.simps n HOL.simp_thms if_False ..
qed

text \<open>The old chains never define a version string of the compiler's own.\<close>

definition plain :: "probe \<Rightarrow> bool" where
  "plain p \<longleftrightarrow> COMPILER_VERSION p = None \<and> V_INTERNAL_STR p = None"

lemma plain_simps [simp]:
  "plain (id_only s)" "plain (vers a b c p) = plain p" "plain (simulate_msvc env p) = plain p"
  "plain (simulate_msvc_version env p) = plain p" "plain (intel_simulate env p) = plain p"
  "plain (clang_version env p) = plain p" "plain (p\<lparr>V_TWEAK := x\<rparr>) = plain p" "plain (p\<lparr>V_INTERNAL := x\<rparr>) = plain p"
  "plain (p\<lparr>V_MAJOR := y, V_MINOR := z\<rparr>) = plain p"
  by (simp_all add: plain_def id_only_def vers_def simulate_msvc_def simulate_msvc_version_def intel_simulate_def
      clang_version_def Let_def)

lemma plain_branches [simp]:
  "plain (comeau env)" "plain (intel env)" "plain (intel_llvm env)" "plain (pathscale env)" "plain (embarcadero env)"
  "plain (borland env)" "plain (watcom env)" "plain (openwatcom env)" "plain (sunpro x env)" "plain (hp_acc x env)"
  "plain (compaq x env)" "plain (ibmcpp x s env)" "plain (xlclang env)" "plain (nvhpc env)" "plain (pgi env)"
  "plain (cray env)" "plain (ti env)" "plain (ghs env)" "plain (armcc env)" "plain (apple_clang env)"
  "plain (arm_clang env)" "plain (clang env)" "plain (gnu env)" "plain (gnu_c env)" "plain (msvc env)"
  "plain (adsp env)" "plain (iar env)" "plain (sdcc env)"
  by (simp_all add: comeau_def intel_def intel_llvm_def pathscale_def embarcadero_def borland_def watcom_def
      openwatcom_def sunpro_def hp_acc_def compaq_def ibmcpp_def xlclang_def nvhpc_def pgi_def cray_def ti_def
      ghs_def armcc_def apple_clang_def arm_clang_def clang_def gnu_def gnu_c_def msvc_def adsp_def iar_def sdcc_def Let_def)

lemma plain_first_of: "plain d \<Longrightarrow> list_all (\<lambda>x. plain (snd x)) xs \<Longrightarrow> plain (first_of xs d)"
  by (induction xs) auto

lemma plain_old: "plain (old_identify env)" "plain (c_old_identify env)"
  unfolding old_identify_def c_old_identify_def
  by (rule plain_first_of; simp add: chain_defs Let_def)+

lemma internal_eq: "plain p \<Longrightarrow> version_array ''compiler_version_internal'' [V_INTERNAL p] = info_version_internal p"
  by (cases "V_INTERNAL p") (simp_all add: plain_def info_version_internal_def)

lemma old_strings:
  assumes "plain p"
  shows "old_info_version p = info_version p" and "old_info_version_internal p = info_version_internal p"
    and "old_info_simulate_version p = info_simulate_version p" and "c_old_versions p = c_versions p"
  using assms internal_eq [OF assms]
  by (simp_all add: old_info_version_def info_version_def old_info_version_internal_def
      old_info_simulate_version_def info_simulate_version_def c_old_versions_def c_versions_def plain_def)

lemma old_platform_eq:
  "\<not> dfd env ''__MSYS__'' \<Longrightarrow> old_platform_id env = platform_id env \<and> c_old_platform_id env = c_platform_id env"
  by (simp add: old_platform_id_def platform_id_def c_old_platform_id_def c_platform_id_def old_platforms_def platforms1_def)

lemma same_text:
  "c_platform_id env = platform_id env" "c_architecture_id env = architecture_id env"
  "old_architecture_id env = architecture_id env" "c_old_architecture_id env = architecture_id env"
  "old_dialect_default env = info_language_dialect_default env"
  by (simp_all only: c_platform_id_def platform_id_def c_architecture_id_def architecture_id_def
      old_architecture_id_def c_old_architecture_id_def old_dialect_default_def old_CXX_STD_def
      info_language_dialect_default_def dialect_def CXX_STD_def Let_def)

section \<open>Properties\<close>



lemma readable_literal: "n < length key + 8 \<Longrightarrow> readable n (Chars (literal key v))"
  by (simp add: readable_def)

lemma readable_names:
  "n < 16 \<Longrightarrow> readable n (Chars (info_compiler p))" "n < 16 \<Longrightarrow> readable n (info_simulate p)"
  "n < 24 \<Longrightarrow> readable n (info_cray env)"
  by (auto simp: readable_def info_compiler_def info_simulate_def info_cray_def split: option.splits)

lemma readable_versions:
  assumes "Ill_formed \<notin> set (c_versions p)" and "n < 24"
  shows "readable n (info_version p)" and "readable n (info_version_internal p)" and "readable n (info_simulate_version p)"
  using assms readable_info_version [of p n] readable_info_version_internal [of p n] readable_info_simulate_version [of p n]
  by (auto simp: c_versions_def)

text \<open>The strings all four programs read.\<close>

lemma reads_ok:
  assumes "Ill_formed \<notin> set (c_versions p)" and "n < 16"
  shows "\<forall>d\<in>{Absent, Chars (info_compiler p), Chars (literal ''platform'' x), info_version p, info_version_internal p,
      info_simulate p, info_simulate_version p, info_cray env, Chars (literal ''dialect_default'' y)}. readable n d"
proof -
  have "n < 24" using assms(2) by simp
  note v = readable_versions [OF assms(1) this] readable_names(3) [OF this]
  have "readable n Absent" "readable n (Chars (literal ''platform'' x))" "readable n (Chars (literal ''dialect_default'' y))"
    using assms(2) by (simp_all add: readable_def)
  with v readable_names(1,2) [OF assms(2)] show ?thesis by blast
qed

lemma require_all_some: "\<forall>d\<in>set ds. readable n d \<Longrightarrow> require_all n ds \<noteq> None"
  using require_all_readable [of n ds] by (auto simp: list_all_iff)

text \<open>
  C40. \<open>main\<close> reads each string at position \<open>argc\<close>: where a program compiles, every such read is
  within the string, with at most 15 arguments for the two C++ programs and with at most 11 for
  the two C programs, which also read the string of the architecture.
\<close>

theorem probe_mains_in_bounds:
  assumes "argc \<le> 15"
  shows "(dfd env ''__cplusplus'' \<and> Ill_formed \<notin> set (c_versions (identify env hip)) \<longrightarrow> main_probe env hip argc \<noteq> None)
    \<and> (dfd env ''__cplusplus'' \<and> Ill_formed \<notin> set (c_old_versions (old_identify env)) \<longrightarrow> old_main env argc \<noteq> None)
    \<and> (\<not> dfd env ''__cplusplus'' \<and> Ill_formed \<notin> set (c_versions (c_identify env hip)) \<and> argc \<le> 11
         \<longrightarrow> c_main env hip argc \<noteq> None)
    \<and> (\<not> dfd env ''__cplusplus'' \<and> Ill_formed \<notin> set (c_old_versions (c_old_identify env)) \<and> argc \<le> 11
         \<longrightarrow> c_old_main env argc \<noteq> None)"
proof -
  have n: "argc < 16" using assms by simp
  have arch: "argc \<le> 11 \<Longrightarrow> readable argc (Chars (literal ''arch'' x))" for x by (rule readable_literal) simp
  have 1: "main_probe env hip argc \<noteq> None"
    if "dfd env ''__cplusplus''" and w: "Ill_formed \<notin> set (c_versions (identify env hip))"
  proof -
    have "\<not> (\<not> dfd env ''__cplusplus'' \<or> info_version (identify env hip) = Ill_formed
        \<or> info_version_internal (identify env hip) = Ill_formed \<or> info_simulate_version (identify env hip) = Ill_formed)"
      using that by (auto simp: c_versions_def)
    then show ?thesis
      unfolding main_probe_def Let_def info_platform_def info_language_dialect_default_def
      using reads_ok [OF w n] by (simp only: if_False) (rule require_all_some, simp)
  qed
  have 2: "old_main env argc \<noteq> None"
    if "dfd env ''__cplusplus''" and w: "Ill_formed \<notin> set (c_old_versions (old_identify env))"
  proof -
    note st = old_strings [OF plain_old(1) [of env]]
    have "\<not> (\<not> dfd env ''__cplusplus'' \<or> info_version (old_identify env) = Ill_formed
        \<or> info_version_internal (old_identify env) = Ill_formed \<or> info_simulate_version (old_identify env) = Ill_formed)"
      using that unfolding st by (auto simp: c_versions_def)
    then show ?thesis
      unfolding old_main_def Let_def st old_dialect_default_def
      using reads_ok [OF w [unfolded st] n] by (simp only: if_False) (rule require_all_some, simp)
  qed
  have 3: "c_main env hip argc \<noteq> None"
    if "\<not> dfd env ''__cplusplus''" and w: "Ill_formed \<notin> set (c_versions (c_identify env hip))" and "argc \<le> 11"
  proof (cases "dfd env ''__18CXX''")
    case False
    have "\<not> (dfd env ''__cplusplus'' \<or> Ill_formed \<in> set (c_versions (c_identify env hip)))" using that by blast
    with False show ?thesis
      unfolding c_main_def Let_def option.map_disc_iff
      using reads_ok [OF w n] arch [OF that(3)]
      by (simp only: if_False option.map_disc_iff) (rule require_all_some, simp)
  qed (use that in \<open>simp add: c_main_def Let_def\<close>)
  have 4: "c_old_main env argc \<noteq> None"
    if "\<not> dfd env ''__cplusplus''" and w: "Ill_formed \<notin> set (c_old_versions (c_old_identify env))" and "argc \<le> 11"
  proof (cases "dfd env ''__18CXX''")
    case False
    note st = old_strings(4) [OF plain_old(2) [of env]]
    have "\<not> (dfd env ''__cplusplus'' \<or> Ill_formed \<in> set (c_versions (c_old_identify env)))" using that unfolding st by blast
    with False show ?thesis
      unfolding c_old_main_def Let_def st
      using reads_ok [OF w [unfolded st] n] arch [OF that(3)]
      by (simp only: if_False option.map_disc_iff) (rule require_all_some, simp add: c_versions_def)
  qed (use that in \<open>simp add: c_old_main_def Let_def\<close>)
  show ?thesis using 1 2 3 4 by blast
qed

theorem probe_mains_in_bounds_witness: "main_probe gcc_env None 1 \<noteq> None \<and> old_main gcc_env 1 \<noteq> None"
proof -
  have "Ill_formed \<notin> set (c_versions (identify gcc_env None))"
    unfolding identify_gnu [OF gcc_gnu]
    by (simp add: c_versions_def info_version_def info_version_internal_def info_simulate_version_def gnu_def vers_def
        id_only_def dec_def dec_if_def dfd_def numv_def gcc_env_def)
  moreover have "\<not> list_ex (dfd gcc_env) changed_macros" by (simp add: changed_macros_def dfd_def gcc_env_def)
  note old_identify_eq(1) [OF this]
  moreover have "c_old_versions (old_identify gcc_env) = c_versions (old_identify gcc_env)" by (rule old_strings(4) [OF plain_old(1)])
  moreover have "dfd gcc_env ''__cplusplus''" by (simp add: dfd_def gcc_env_def)
  ultimately show ?thesis using probe_mains_in_bounds [of 1 gcc_env None] by simp
qed

end
