(* ===== verification/Traffic.thy ===== *)
theory Traffic
  imports Session
begin

text \<open>
  What the client does to its socket as a whole: its calls read from the stream of bytes that
  arrive and append to the stream of bytes it sends, and nothing else.
\<close>

section \<open>Relations that reads keep\<close>

text \<open>A relation between a socket and a later one that every call of \<open>read_some\<close> meets.\<close>

locale kept_by_reads =
  fixes A :: "('k, 'a) asio" and R :: "'k \<Rightarrow> 'k \<Rightarrow> bool"
  assumes same: "R k k"
    and chain: "R k k1 \<Longrightarrow> R k1 k2 \<Longrightarrow> R k k2"
    and read: "read_some A k n = Some (bs, e, k') \<Longrightarrow> R k k'"
begin

lemma getBytes_loop_kept:
  assumes "getBytes_loop A n got k = Some (got', e, k')"
  shows "R k k'"
proof -
  have "B = A \<longrightarrow> R k (snd (snd r))" if "getBytes_loop B n got k = Some r" for B n got k r
    using that
  proof (rule getBytes_loop.raw_induct [where P = "\<lambda>B n got k r. B = A \<longrightarrow> R k (snd (snd r))", rotated])
    fix f and B :: "('k, 'a) asio" and n got k r
    assume ih: "\<And>B n got k r. f B n got k = Some r \<Longrightarrow> B = A \<longrightarrow> R k (snd (snd r))"
      and eq: "(if length got < n
        then Option.bind (read_some B k (n - length got)) (\<lambda>(bs, err, k').
               case err of None \<Rightarrow> f B n (got @ bs) k' | Some e \<Rightarrow> Some (got @ bs, Some e, k'))
        else Some (got, None, k)) = Some r"
    show "B = A \<longrightarrow> R k (snd (snd r))"
    proof (cases "length got < n")
      case True
      with eq obtain bs e k1 where r: "read_some B k (n - length got) = Some (bs, e, k1)"
        by (auto simp: bind_eq_Some_conv)
      with True eq ih [of B n "got @ bs" k1 r] read [of k "n - length got" bs e k1] show ?thesis
        by (cases e) (auto intro: chain)
    qed (use eq same in auto)
  qed
  with assms show ?thesis by fastforce
qed

lemma getBytes_kept: "getBytes A n h = Some (ok, got, h') \<Longrightarrow> R (socket h) (socket h')"
  by (auto simp: getBytes_def bind_eq_Some_conv complain_def split: option.splits dest!: getBytes_loop_kept)

lemma getFrameAscii_kept:
  assumes "getFrameAscii A d ch fr h = Some (ok, s, h')"
  shows "R (socket h) (socket h')"
proof -
  have "B = A \<longrightarrow> R (socket h) (socket (snd (snd r)))" if "getFrameAscii B d ch fr h = Some r" for B d ch fr h r
    using that
  proof (rule getFrameAscii.raw_induct [where P = "\<lambda>B d c f h r. B = A \<longrightarrow> R (socket h) (socket (snd (snd r)))", rotated])
    fix f and B :: "('k, 'a) asio" and d c fr and h :: "'k handler" and r
    assume ih: "\<And>B d c fr h r. f B d c fr h = Some r \<Longrightarrow> B = A \<longrightarrow> R (socket h) (socket (snd (snd r)))"
      and eq: "Option.bind (getBytes B 1 h) (\<lambda>(_, got, h').
        let ch' = (case got of [] \<Rightarrow> c | x # _ \<Rightarrow> x); frame' = fr @ [ch']
        in if d \<noteq> ch' then f B d ch' frame' h' else Some (True, frame', h')) = Some r"
    from eq obtain ok got h1 where g: "getBytes B 1 h = Some (ok, got, h1)"
      by (auto simp: bind_eq_Some_conv)
    with eq ih have "B = A \<longrightarrow> R (socket h1) (socket (snd (snd r)))" by (auto simp: Let_def same split: if_splits)
    with g show "B = A \<longrightarrow> R (socket h) (socket (snd (snd r)))" by (auto dest!: getBytes_kept intro: chain)
  qed
  with assms show ?thesis by fastforce
qed

lemma notificationDecoder_kept: "notificationDecoder A m h = Some (r, h') \<Longrightarrow> R (socket h) (socket h')"
  by (auto simp: notificationDecoder_def bind_elims say_def split: if_splits
      dest!: getBytes_kept getFrameAscii_kept intro: chain)

lemma readShorts_kept: "readShorts A n ans h = Some (r, h') \<Longrightarrow> R (socket h) (socket h')"
proof (induction n arbitrary: ans h)
  case (Suc n)
  then show ?case
    by (auto simp: readShort_def bind_elims say_def split: if_splits dest!: getBytes_kept intro: chain)
qed (simp add: same)

lemma ackFollow_kept: "ackFollow A m ans h = Some (r, h') \<Longrightarrow> R (socket h) (socket h')"
  by (auto simp: ackFollow_def bind_elims say_def split: if_splits
      dest!: getBytes_kept getFrameAscii_kept intro: chain)

lemma ackDecoder_kept: "ackDecoder A m h = Some (r, h') \<Longrightarrow> R (socket h) (socket h')"
  by (auto simp: ackDecoder_def bind_elims say_def split: if_splits
      dest!: getBytes_kept ackFollow_kept readShorts_kept intro: chain)

lemma errorDecoder_kept: "errorDecoder A h = Some (r, h') \<Longrightarrow> R (socket h) (socket h')"
  by (auto simp: errorDecoder_def bind_elims say_def split: if_splits dest!: getBytes_kept)

lemma finish_kept: "finish A p (r, h) = Some (r', h') \<Longrightarrow> R (socket h) (socket h')"
  by (auto simp: finish_def bind_elims say_def same split: if_splits dest!: getBytes_kept)

lemma decoder_kept: "decoder A m h = Some (r, h') \<Longrightarrow> R (socket h) (socket h')"
  by (auto simp: decoder_def bind_elims say_def split: if_splits
      dest!: getBytes_kept notificationDecoder_kept ackDecoder_kept errorDecoder_kept finish_kept intro: chain)

text \<open>The socket thread does not close the socket: the step that would is never reached.\<close>

lemma sk_step_kept:
  assumes "sk_step A m p h = Some (p', h')" and "p \<noteq> SCloseTest"
  shows "R (socket h) (socket h')"
  using assms by (cases p) (auto simp: same conn_simps split: option.splits prod.splits sum.splits if_splits dest!: decoder_kept)

end

section \<open>Relations that writes keep\<close>

locale kept_by_writes =
  fixes A :: "('k, 'a) asio" and R :: "'k \<Rightarrow> 'k \<Rightarrow> bool"
  assumes same: "R k k"
    and chain: "R k k1 \<Longrightarrow> R k1 k2 \<Longrightarrow> R k k2"
    and written: "write_some A k bs = Some (n, e, k') \<Longrightarrow> R k k'"
begin

lemma sendBytes_loop_kept:
  assumes "sendBytes_loop A bs tmp k = Some (e, k')"
  shows "R k k'"
proof -
  have "B = A \<longrightarrow> R k (snd r)" if "sendBytes_loop B bs tmp k = Some r" for B bs tmp k r
    using that
  proof (rule sendBytes_loop.raw_induct [where P = "\<lambda>B bs tmp k r. B = A \<longrightarrow> R k (snd r)", rotated])
    fix f and B :: "('k, 'a) asio" and bs tmp k r
    assume ih: "\<And>B bs tmp k r. f B bs tmp k = Some r \<Longrightarrow> B = A \<longrightarrow> R k (snd r)"
      and eq: "(if tmp < length bs
        then Option.bind (write_some B k (drop tmp bs)) (\<lambda>(n, err, k').
               case err of None \<Rightarrow> f B bs (tmp + n) k' | Some e \<Rightarrow> Some (Some e, k'))
        else Some (None, k)) = Some r"
    show "B = A \<longrightarrow> R k (snd r)"
    proof (cases "tmp < length bs")
      case True
      with eq obtain n e k1 where w: "write_some B k (drop tmp bs) = Some (n, e, k1)"
        by (auto simp: bind_eq_Some_conv)
      with True eq ih [of B bs "tmp + n" k1 r] written [of k "drop tmp bs" n e k1] show ?thesis
        by (cases e) (auto intro: chain)
    qed (use eq same in auto)
  qed
  with assms show ?thesis by fastforce
qed

lemma sendLine_kept: "sendLine A line h = Some (ok, h') \<Longrightarrow> R (socket h) (socket h')"
  by (auto simp: sendLine_def sendFrameAscii_def sendBytes_def Encoder_eq Let_def bind_eq_Some_conv complain_def
      split: option.splits if_splits dest!: sendBytes_loop_kept)

lemma kb_step_kept: "kb_step A p h i = Some (p', h', i') \<Longrightarrow> R (socket h) (socket h')"
  by (cases p) (auto simp: same conn_simps Let_def split: option.splits prod.splits bool.splits if_splits dest!: sendLine_kept)

end

section \<open>The two streams of the queue socket\<close>

text \<open>Bytes are read from the front of one queue and appended to the other.\<close>

definition streams :: "tcp_sock \<Rightarrow> tcp_sock \<Rightarrow> bool" where
  "streams k k' \<longleftrightarrow> (\<exists>xs. rxq k = xs @ rxq k') \<and> (\<exists>ys. txd k' = txd k @ ys)"

lemma streams_refl: "streams k k"
  by (simp add: streams_def)

lemma streams_trans: "streams k k1 \<Longrightarrow> streams k1 k2 \<Longrightarrow> streams k k2"
  by (auto simp: streams_def)

lemma tcp_read_streams: "tcp_read k n = Some (bs, e, k') \<Longrightarrow> streams k k'"
proof -
  assume r: "tcp_read k n = Some (bs, e, k')"
  have "rxq k = bs @ rxq k'" using r by (auto simp: tcp_read_def Let_def split: if_splits)
  moreover have "txd k' = txd k" using r by (auto simp: tcp_read_def Let_def split: if_splits)
  ultimately show ?thesis by (auto simp: streams_def)
qed

lemma tcp_write_streams: "tcp_write k bs = Some (n, e, k') \<Longrightarrow> streams k k'"
  by (auto simp: tcp_write_def streams_def Let_def split: if_splits)

interpretation tcp_reads: kept_by_reads tcp_asio streams
  by unfold_locales (auto simp: streams_refl intro: streams_trans tcp_read_streams)

interpretation tcp_writes: kept_by_writes tcp_asio streams
  by unfold_locales (auto simp: streams_refl intro: streams_trans tcp_write_streams)

lemma sys_step_streams:
  assumes "sys_step tcp_asio (\<lambda>_ _. False) s t" and "sk_inv (sk s)"
  shows "streams (socket (con s)) (socket (con t))"
  using assms(1)
proof (cases rule: sys_step.cases)
  case (keyboard p h i)
  then show ?thesis by (auto dest: tcp_writes.kb_step_kept)
next
  case (socket m p h)
  with assms(2) show ?thesis by (auto simp: sk_inv_def dest: tcp_reads.sk_step_kept)
next
  case joined
  then show ?thesis by (simp add: close_def tcp_asio_def streams_def)
qed auto

end
