(* ===== verification/World.thy ===== *)
theory World
  imports Traffic Outbox Delivery
begin

text \<open>
  The whole program at work: the server with one thread per client, any number of client
  processes, and the network between them, which transfers bytes in pieces of any size and at
  any time.
\<close>

section \<open>Clients, network and server\<close>

text \<open>
  A client process with its socket, and how many bytes have gone from it to the server
  (\<open>up_n\<close>) and from the server to it (\<open>down_n\<close>, counted from \<open>start_n\<close>, the length of the log
  of its connection id when it connected). \<open>site\<close> is the server.
\<close>

record peer =
  client :: "tcp_sock sys"
  up_n :: nat
  start_n :: nat
  down_n :: nat

record world =
  peers :: "(int \<times> peer) list"
  site :: server

definition World :: world where
  "World = \<lparr>peers = [], site = BaseServer\<rparr>"

definition sock_of :: "peer \<Rightarrow> tcp_sock" where
  "sock_of p = socket (con (client p))"

definition on_sock :: "(tcp_sock \<Rightarrow> tcp_sock) \<Rightarrow> peer \<Rightarrow> peer" where
  "on_sock f p = p\<lparr>client := (client p)\<lparr>con := (con (client p))\<lparr>socket := f (sock_of p)\<rparr>\<rparr>\<rparr>"

definition fresh_sock :: "nat list \<Rightarrow> nat list \<Rightarrow> tcp_sock" where
  "fresh_sock rs ts = \<lparr>rxq = [], rxclosed = False, rxchunks = rs, txd = [], txdown = False, txchunks = ts\<rparr>"

definition new_peer :: "nat list \<Rightarrow> nat list \<Rightarrow> string \<Rightarrow> nat \<Rightarrow> peer" where
  "new_peer rs ts typed n =
     \<lparr>client = main_start tcp_asio (fresh_sock rs ts) (chars typed), up_n = 0, start_n = n, down_n = n\<rparr>"

definition put :: "int \<Rightarrow> peer \<Rightarrow> world \<Rightarrow> world" where
  "put c p w = w\<lparr>peers := AList.update c p (peers w)\<rparr>"

definition out_for :: "world \<Rightarrow> int \<Rightarrow> bytes" where
  "out_for w c = sent_for (shared (site w)) c"

text \<open>
  The steps: a process starts and the server accepts it; a step of a process; the network
  carries bytes to the server, whose thread handles them, or to the client; the server's thread
  has ended and the client sees the end of the stream; a process has ended and the server sees it.
\<close>

inductive wstep :: "jvm \<Rightarrow> world \<Rightarrow> world \<Rightarrow> bool" for J where
  dial: "c = sint (connectionId (site w)) \<Longrightarrow>
    wstep J w ((put c (new_peer rs ts typed (length (out_for w c))) w)\<lparr>site := serve J Accept (site w)\<rparr>)"
| move: "map_of (peers w) c = Some p \<Longrightarrow> sys_step tcp_asio (\<lambda>_ _. False) (client p) s \<Longrightarrow>
    wstep J w (put c (p\<lparr>client := s\<rparr>) w)"
| upload: "map_of (peers w) c = Some p \<Longrightarrow> up_n p + n \<le> length (txd (sock_of p)) \<Longrightarrow>
    wstep J w ((put c (p\<lparr>up_n := up_n p + n\<rparr>) w)
      \<lparr>site := serve J (Bytes c (take n (drop (up_n p) (txd (sock_of p))))) (site w)\<rparr>)"
| download: "map_of (peers w) c = Some p \<Longrightarrow> down_n p + n \<le> length (out_for w c) \<Longrightarrow> \<not> rxclosed (sock_of p) \<Longrightarrow>
    wstep J w (put c ((on_sock (rxq_update (\<lambda>q. q @ take n (drop (down_n p) (out_for w c)))) p)\<lparr>down_n := down_n p + n\<rparr>) w)"
| hangup: "map_of (peers w) c = Some p \<Longrightarrow> ended (site w) c \<Longrightarrow>
    wstep J w (put c (on_sock (rxclosed_update (\<lambda>_. True)) p) w)"
| leave: "map_of (peers w) c = Some p \<Longrightarrow> \<not> running (client p) \<Longrightarrow> up_n p = length (txd (sock_of p)) \<Longrightarrow>
    wstep J w (w\<lparr>site := serve J (Eof c) (site w)\<rparr>)"

abbreviation wsteps :: "jvm \<Rightarrow> world \<Rightarrow> world \<Rightarrow> bool" where
  "wsteps J \<equiv> rtranclp (wstep J)"

section \<open>Two streams per client\<close>

definition peer_ok :: "server \<Rightarrow> int \<Rightarrow> peer \<Rightarrow> bool" where
  "peer_ok S c p \<longleftrightarrow>
     up_n p \<le> length (txd (sock_of p)) \<and> start_n p \<le> down_n p \<and> down_n p \<le> length (sent_for (shared S) c)
   \<and> (\<exists>read. take (down_n p - start_n p) (drop (start_n p) (sent_for (shared S) c)) = read @ rxq (sock_of p))
   \<and> (\<exists>k. map_of (conns S) c = Some k
        \<and> (open_sock k \<longrightarrow> (\<exists>ms. feed decodeNextByte (take (up_n p) (txd (sock_of p))) new_codec = (ms, encdec k))))"

definition world_ok :: "world \<Rightarrow> bool" where
  "world_ok w \<longleftrightarrow> conns_ok (site w)
     \<and> (\<forall>c p. map_of (peers w) c = Some p \<longrightarrow> sk_inv (sk (client p)) \<and> peer_ok (site w) c p)"

lemma sock_simps [simp]:
  "sock_of (p\<lparr>up_n := x\<rparr>) = sock_of p" "sock_of (p\<lparr>down_n := x\<rparr>) = sock_of p" "sock_of (on_sock f p) = f (sock_of p)"
  "sk (client (on_sock f p)) = sk (client p)" "up_n (on_sock f p) = up_n p" "down_n (on_sock f p) = down_n p"
  "start_n (on_sock f p) = start_n p" "sock_of (p\<lparr>client := s\<rparr>) = socket (con s)"
  by (simp_all add: sock_of_def on_sock_def)

lemma put_simps [simp]:
  "map_of (peers (put c p w)) d = (if d = c then Some p else map_of (peers w) d)" "site (put c p w) = site w"
  "peers (w\<lparr>site := S\<rparr>) = peers w" "site (w\<lparr>site := S\<rparr>) = S" "out_for (put c p w) d = out_for w d"
  by (simp_all add: put_def update_conv' out_for_def)

lemma world_ok_put:
  assumes "world_ok w" and "sk_inv (sk (client p))" and "peer_ok (site w) c p"
  shows "world_ok (put c p w)"
  using assms by (simp add: world_ok_def)

text \<open>More in the log of the connection, and the same loop, keep what holds for a client.\<close>

lemma peer_ok_grows:
  assumes "peer_ok S c p" and "sent_for (shared S') c = sent_for (shared S) c @ bs"
    and "\<And>k. map_of (conns S) c = Some k \<Longrightarrow> \<exists>k'. map_of (conns S') c = Some k' \<and> (open_sock k' \<longrightarrow> open_sock k \<and> encdec k' = encdec k)"
  shows "peer_ok S' c p"
proof -
  obtain k where k: "map_of (conns S) c = Some k"
    "open_sock k \<longrightarrow> (\<exists>ms. feed decodeNextByte (take (up_n p) (txd (sock_of p))) new_codec = (ms, encdec k))"
    using assms(1) by (auto simp: peer_ok_def)
  with assms(3) [OF k(1)] have "\<exists>k'. map_of (conns S') c = Some k'
      \<and> (open_sock k' \<longrightarrow> (\<exists>ms. feed decodeNextByte (take (up_n p) (txd (sock_of p))) new_codec = (ms, encdec k')))"
    by auto
  moreover have "take (down_n p - start_n p) (drop (start_n p) (sent_for (shared S') c))
      = take (down_n p - start_n p) (drop (start_n p) (sent_for (shared S) c))"
    using assms(1,2) by (simp add: peer_ok_def)
  ultimately show ?thesis using assms(1,2) by (simp add: peer_ok_def)
qed

lemma serve_others:
  assumes "conns_ok S"
  shows "d \<noteq> sint (connectionId S) \<Longrightarrow> map_of (conns (serve J Accept S)) d = map_of (conns S) d"
    "d \<noteq> c \<Longrightarrow> map_of (conns (serve J (Bytes c bs) S)) d = map_of (conns S) d"
    "d \<noteq> c \<Longrightarrow> map_of (conns (serve J (Eof c) S)) d = map_of (conns S) d"
    "map_of (conns S) c = Some k \<Longrightarrow> map_of (conns (serve J (Eof c) S)) c = Some (k\<lparr>open_sock := False\<rparr>)"
    "map_of (conns (serve J Accept S)) (sint (connectionId S)) = Some (new_conn (sint (connectionId S)))"
  by (auto simp: accept_def Let_def update_conv' split: option.splits prod.splits)

lemma new_peer_simps [simp]:
  "sock_of (new_peer rs ts typed n) = fresh_sock rs ts" "sk (client (new_peer rs ts typed n)) = STest"
  "up_n (new_peer rs ts typed n) = 0" "start_n (new_peer rs ts typed n) = n" "down_n (new_peer rs ts typed n) = n"
  "kb (client (new_peer rs ts typed n)) = KTest" "cin (client (new_peer rs ts typed n)) = chars typed"
  "exit_code (client (new_peer rs ts typed n)) = None"
  by (simp_all add: new_peer_def sock_of_def main_start_def connect_def tcp_asio_def fresh_sock_def connectionHandler_def
      say_def main_host_def Let_def)

lemma peer_ok_dial:
  assumes "conns_ok S" and "c = sint (connectionId S)" and "n = length (sent_for (shared S) c)"
  shows "peer_ok (serve J Accept S) c (new_peer rs ts typed n)"
proof -
  have "sent_for (shared (serve J Accept S)) c = sent_for (shared S) c" by (simp add: accept_def Let_def sent_for_def)
  with assms serve_others(5) [OF assms(1), of J] show ?thesis
    by (simp add: peer_ok_def fresh_sock_def new_conn_def del: serve.simps)
qed

lemma peer_ok_upload:
  assumes "conns_ok S" and p: "peer_ok S c p" and n: "up_n p + n \<le> length (txd (sock_of p))"
  shows "peer_ok (serve J (Bytes c (take n (drop (up_n p) (txd (sock_of p))))) S) c (p\<lparr>up_n := up_n p + n\<rparr>)"
proof -
  let ?bs = "take n (drop (up_n p) (txd (sock_of p)))"
  let ?S = "serve J (Bytes c ?bs) S"
  from p obtain k where k: "map_of (conns S) c = Some k"
    and enc: "open_sock k \<longrightarrow> (\<exists>ms. feed decodeNextByte (take (up_n p) (txd (sock_of p))) new_codec = (ms, encdec k))"
    by (auto simp: peer_ok_def)
  obtain bs where out: "sent_for (shared ?S) c = sent_for (shared S) c @ bs" using sent_for_serve [OF assms(1)] by blast
  have all: "take (up_n p + n) (txd (sock_of p)) = take (up_n p) (txd (sock_of p)) @ ?bs" by (rule take_add)
  have "\<exists>k'. map_of (conns ?S) c = Some k'
      \<and> (open_sock k' \<longrightarrow> (\<exists>ms. feed decodeNextByte (take (up_n p + n) (txd (sock_of p))) new_codec = (ms, encdec k')))"
  proof (cases "open_sock k")
    case True
    obtain ms d where f: "feed decodeNextByte ?bs (encdec k) = (ms, d)" by fastforce
    obtain k' e s' where r: "run_loop J ?bs k (shared S) = (k', e, s')" by (metis prod.exhaust)
    note ok = conns_okD [OF assms(1) k]
    from run_loop_eq [of k ?bs ms d J "shared S"] ok f r have "open_sock k' \<longrightarrow> encdec k' = d"
      by (cases "fst (process_all J c ms (shared S))") auto
    moreover from enc True obtain ms0 where "feed decodeNextByte (take (up_n p) (txd (sock_of p))) new_codec = (ms0, encdec k)" by blast
    then have "\<exists>ms. feed decodeNextByte (take (up_n p + n) (txd (sock_of p))) new_codec = (ms, d)"
      unfolding all by (simp add: feed_append f)
    moreover have "map_of (conns ?S) c = Some k'" using k True r by (simp add: update_conv')
    ultimately show ?thesis by blast
  next
    case False
    with k show ?thesis by simp
  qed
  with p n out show ?thesis by (simp add: peer_ok_def del: serve.simps)
qed

lemma peer_ok_other:
  assumes "conns_ok S" and "peer_ok S d p" and "map_of (conns (serve J ev S)) d = map_of (conns S) d"
  shows "peer_ok (serve J ev S) d p"
proof -
  obtain bs where "sent_for (shared (serve J ev S)) d = sent_for (shared S) d @ bs" using sent_for_serve [OF assms(1)] by blast
  from peer_ok_grows [OF assms(2) this] assms(3) show ?thesis by simp
qed

lemma peer_ok_move:
  assumes "peer_ok S c p" and "streams (sock_of p) (socket (con s))"
  shows "peer_ok S c (p\<lparr>client := s\<rparr>)"
proof -
  from assms(2) obtain xs ys where x: "rxq (sock_of p) = xs @ rxq (socket (con s))" and y: "txd (socket (con s)) = txd (sock_of p) @ ys"
    by (auto simp: streams_def)
  with assms(1) show ?thesis by (auto simp: peer_ok_def) 
qed

lemma take_on: "a \<le> b \<Longrightarrow> take (b + n - a) (drop a xs) = take (b - a) (drop a xs) @ take n (drop b xs)"
proof -
  assume "a \<le> b"
  then have "b + n - a = (b - a) + n" "drop (b - a) (drop a xs) = drop b xs" by simp_all
  then show ?thesis by (simp only: take_add)
qed

lemma world_ok_step:
  assumes "wstep J w w'" and ok: "world_ok w"
  shows "world_ok w'"
  using assms(1)
proof (cases rule: wstep.cases)
  case (dial c rs ts typed)
  have S: "conns_ok (site w)" using ok by (simp add: world_ok_def)
  have "sk_inv (sk (client q)) \<and> peer_ok (serve J Accept (site w)) d q" if "map_of (peers w) d = Some q" "d \<noteq> c" for d q
    using ok that dial(2) peer_ok_other [OF S, of d q J Accept] serve_others(1) [OF S, of d] by (simp add: world_ok_def del: serve.simps)
  with dial conns_ok_serve [OF S] peer_ok_dial [OF S dial(2)] show ?thesis
    by (auto simp: world_ok_def sk_inv_def out_for_def simp del: serve.simps)
next
  case (move c p s)
  from ok move have "sk_inv (sk (client p))" "peer_ok (site w) c p" by (auto simp: world_ok_def)
  with sys_step_streams [OF move(3)] sys_step_sk_inv [OF move(3)] peer_ok_move [of "site w" c p s] world_ok_put [OF ok]
  show ?thesis unfolding move(1) by (simp add: sock_of_def)
next
  case (upload c p n)
  have S: "conns_ok (site w)" using ok by (simp add: world_ok_def)
  let ?ev = "Bytes c (take n (drop (up_n p) (txd (sock_of p))))"
  have "sk_inv (sk (client q)) \<and> peer_ok (serve J ?ev (site w)) d q" if "map_of (peers w) d = Some q" "d \<noteq> c" for d q
    using ok that peer_ok_other [OF S, of d q J ?ev] serve_others(2) [OF S, of d c] by (simp add: world_ok_def del: serve.simps)
  moreover have "sk_inv (sk (client p))" "peer_ok (site w) c p" using ok upload(2) by (auto simp: world_ok_def)
  ultimately show ?thesis unfolding upload(1) using conns_ok_serve [OF S] peer_ok_upload [OF S _ upload(3)]
    by (auto simp: world_ok_def simp del: serve.simps)
next
  case (download c p n)
  then have "sk_inv (sk (client p))" "peer_ok (site w) c p" using ok by (auto simp: world_ok_def)
  then show ?thesis unfolding download(1)
    by (intro world_ok_put [OF ok]) (use download(3) in \<open>auto simp: peer_ok_def out_for_def take_on\<close>)
next
  case (hangup c p)
  then have "sk_inv (sk (client p))" "peer_ok (site w) c p" using ok by (auto simp: world_ok_def)
  then show ?thesis unfolding hangup(1) by (intro world_ok_put [OF ok]) (auto simp: peer_ok_def)
next
  case (leave c p)
  have S: "conns_ok (site w)" using ok by (simp add: world_ok_def)
  have "peer_ok (serve J (Eof c) (site w)) d q" if "map_of (peers w) d = Some q" for d q
  proof (cases "d = c")
    case False
    with ok that peer_ok_other [OF S, of d q J "Eof c"] serve_others(3) [OF S False, of J] show ?thesis
      by (simp add: world_ok_def del: serve.simps)
  next
    case True
    obtain bs where b: "sent_for (shared (serve J (Eof c) (site w))) c = sent_for (shared (site w)) c @ bs" using sent_for_serve [OF S] by blast
    from True ok that have "peer_ok (site w) c q" by (simp add: world_ok_def)
    from peer_ok_grows [OF this b] True serve_others(4) [OF S, of c _ J] show ?thesis by (auto simp del: serve.simps)
  qed
  with ok conns_ok_serve [OF S] show ?thesis unfolding leave(1) by (auto simp: world_ok_def simp del: serve.simps)
qed

lemma world_ok_new: "world_ok World"
  by (simp add: world_ok_def World_def conns_ok_def BaseServer_def)

lemma wsteps_ok: "wsteps J World w \<Longrightarrow> world_ok w"
  by (induction rule: rtranclp_induct) (auto intro: world_ok_new world_ok_step)

lemma wsteps_reached: "wsteps J World w \<Longrightarrow> reached J (site w)"
proof (induction rule: rtranclp_induct)
  case base
  show ?case by (simp add: World_def reached.init)
next
  case (step w w')
  from step(2) show ?case by (cases rule: wstep.cases) (use step(3) in \<open>auto intro: reached.event simp del: serve.simps\<close>)
qed

section \<open>Runs of the world\<close>

lemma update_same: "map_of m c = Some p \<Longrightarrow> AList.update c p m = m"
  by (induction m) auto

lemma put_same: "map_of (peers w) c = Some p \<Longrightarrow> put c p w = w"
  by (simp add: put_def update_same)

lemma put_put [simp]: "put c p (put c q w) = put c p w"
  by (simp add: put_def)

lemma process_steps:
  assumes "sys_steps tcp_asio (\<lambda>_ _. False) (client p) s" and "map_of (peers w) c = Some p"
  shows "wsteps J w (put c (p\<lparr>client := s\<rparr>) w)"
  using assms(1)
proof (induction rule: rtranclp_induct)
  case base
  from assms(2) show ?case by (simp add: put_same)
next
  case (step s t)
  have "wstep J (put c (p\<lparr>client := s\<rparr>) w) (put c ((p\<lparr>client := s\<rparr>)\<lparr>client := t\<rparr>) (put c (p\<lparr>client := s\<rparr>) w))"
    by (rule wstep.move) (use step(2) in simp_all)
  with step(3) show ?case by (simp add: rtranclp.rtrancl_into_rtrancl)
qed

lemma keyboard_run:
  "kb_run A n (kb s) (con s) (cin s) = Some (p, h, i) \<Longrightarrow> running s \<Longrightarrow>
     sys_steps A net s (s\<lparr>kb := p, con := h, cin := i\<rparr>)"
proof (induction n arbitrary: s)
  case (Suc n)
  from Suc.prems(1) obtain p1 h1 i1 where k: "kb_step A (kb s) (con s) (cin s) = Some (p1, h1, i1)"
    and r: "kb_run A n p1 h1 i1 = Some (p, h, i)" by (auto simp: bind_eq_Some_conv)
  let ?s = "s\<lparr>kb := p1, con := h1, cin := i1\<rparr>"
  have "running ?s" using Suc.prems(2) by (simp add: running_def)
  with Suc.IH [of ?s] r have "sys_steps A net ?s (s\<lparr>kb := p, con := h, cin := i\<rparr>)" by simp
  with keyboard_1 [OF Suc.prems(2) k] show ?case by (rule rtranclp_trans)
qed auto

text \<open>Every connection of the server is in its table.\<close>

lemma reached_table: "reached J S \<Longrightarrow> map_of (conns S) c = Some k \<Longrightarrow> c \<in> set (connectionsMap (shared S))"
proof (induction arbitrary: c k rule: reached.induct)
  case (event S ev)
  note ok = conns_ok_reached [OF event.hyps]
  have m: "set (connectionsMap (shared S)) \<subseteq> set (connectionsMap (shared (serve J ev S)))"
  proof (cases ev)
    case Accept
    then show ?thesis by (simp add: accept_def Let_def) blast
  next
    case (Bytes c bs)
    have "extends (shared S) (shared (serve J (Bytes c bs) S))"
    proof (cases "map_of (conns S) c")
      case (Some k)
      have "extends (shared S) (snd (snd (run_loop J bs k (shared S))))"
        by (rule run_loop_inv [where I = "extends (shared S)"]) (simp_all add: extends_process)
      with Some show ?thesis by (auto split: prod.split)
    qed simp
    with Bytes show ?thesis by (simp add: extends_def del: serve.simps)
  qed (simp split: option.split)
  have "map_of (conns S) c \<noteq> None \<or> ev = Accept \<and> c = sint (connectionId S)"
    using event.prems by (cases ev) (auto simp: accept_def Let_def update_conv' split: if_splits option.splits prod.splits)
  then show ?case
  proof
    assume "map_of (conns S) c \<noteq> None"
    with event.IH m show ?thesis by blast
  next
    assume "ev = Accept \<and> c = sint (connectionId S)"
    then show ?thesis by (simp add: accept_def Let_def)
  qed
qed (simp add: BaseServer_def)

end
