(* ===== verification/WorldProps.thy ===== *)
theory WorldProps
  imports World
begin

text \<open>
  What users see of each other: a post typed at one client appears on another's screen, a logout
  ends the session on both sides, and the two byte streams between a client and the server.
\<close>

section \<open>Lines typed, answers shown\<close>

text \<open>
  The keyboard thread is at the head of its loop and \<open>text\<close> is what has been typed and not read;
  all it has sent has reached the server. The socket thread is at the head of its loop and
  \<open>rs\<close> are the replies the server has sent and the client has not shown.
\<close>

definition types :: "peer \<Rightarrow> string \<Rightarrow> bool" where
  "types p text \<longleftrightarrow> running (client p) \<and> kb (client p) = KTest \<and> \<not> terminate (con (client p)) \<and> good (cin (client p))
     \<and> pending_input (cin (client p)) = text \<and> \<not> txdown (sock_of p) \<and> up_n p = length (txd (sock_of p))"

definition owed :: "world \<Rightarrow> int \<Rightarrow> peer \<Rightarrow> bytes" where
  "owed w c p = rxq (sock_of p) @ drop (down_n p) (out_for w c)"

definition shows_next :: "world \<Rightarrow> int \<Rightarrow> peer \<Rightarrow> reply list \<Rightarrow> bool" where
  "shows_next w c p rs \<longleftrightarrow> running (client p) \<and> sk (client p) = STest \<and> \<not> terminate (con (client p)) \<and> \<not> rxclosed (sock_of p)
     \<and> owed w c p = concat (map wire_reply rs) \<and> (\<forall>r\<in>set rs. reply_ok r \<and> r \<noteq> AckOp (CHR ''0'') (CHR ''3''))"

text \<open>Reading keeps the sending side of the socket, writing the receiving side.\<close>

definition tx_same :: "tcp_sock \<Rightarrow> tcp_sock \<Rightarrow> bool" where
  "tx_same k k' \<longleftrightarrow> txd k' = txd k \<and> txdown k' = txdown k"

definition rx_same :: "tcp_sock \<Rightarrow> tcp_sock \<Rightarrow> bool" where
  "rx_same k k' \<longleftrightarrow> rxq k' = rxq k \<and> rxclosed k' = rxclosed k"

interpretation reads_tx: kept_by_reads tcp_asio tx_same
  by unfold_locales (auto simp: tx_same_def tcp_read_def Let_def split: if_splits)

interpretation writes_rx: kept_by_writes tcp_asio rx_same
  by unfold_locales (auto simp: rx_same_def tcp_write_def Let_def split: if_splits)

context kept_by_writes
begin

lemma kb_run_kept: "kb_run A n p h i = Some (p', h', i') \<Longrightarrow> R (socket h) (socket h')"
  by (induction n arbitrary: p h i) (auto simp: same bind_eq_Some_conv dest!: kb_step_kept intro: chain)

end

lemma peer_facts:
  assumes "world_ok w" and "map_of (peers w) c = Some p"
  shows "down_n p \<le> length (out_for w c)" "\<exists>k. map_of (conns (site w)) c = Some k" "peer_ok (site w) c p"
proof -
  have "peer_ok (site w) c p" using assms by (simp add: world_ok_def)
  then show "down_n p \<le> length (out_for w c)" "\<exists>k. map_of (conns (site w)) c = Some k" "peer_ok (site w) c p"
    unfolding peer_ok_def out_for_def by blast+
qed

text \<open>The network carries all that has been sent.\<close>

lemma upload_all:
  assumes "map_of (peers w) c = Some p" and "up_n p \<le> length (txd (sock_of p))"
  shows "wsteps J w ((put c (p\<lparr>up_n := length (txd (sock_of p))\<rparr>) w)
    \<lparr>site := serve J (Bytes c (drop (up_n p) (txd (sock_of p)))) (site w)\<rparr>)"
  using wstep.upload [OF assms(1), of "length (txd (sock_of p)) - up_n p" J] assms(2) by (simp del: serve.simps)

lemma download_all:
  assumes "map_of (peers w) c = Some p" and "down_n p \<le> length (out_for w c)" and "\<not> rxclosed (sock_of p)"
  shows "wsteps J w (put c ((on_sock (rxq_update (\<lambda>_. owed w c p)) p)\<lparr>down_n := length (out_for w c)\<rparr>) w)"
proof -
  have "on_sock (rxq_update (\<lambda>q. q @ drop (down_n p) (out_for w c))) p = on_sock (rxq_update (\<lambda>_. owed w c p)) p"
    by (simp add: on_sock_def owed_def)
  with wstep.download [OF assms(1), of "length (out_for w c) - down_n p" J] assms(2,3) show ?thesis by simp
qed

text \<open>The lines typed are sent and handled.\<close>

lemma types_lines:
  assumes p: "map_of (peers w) c = Some p" "types p (concat (map (\<lambda>c. show_command c @ [NL]) cs) @ rest)" "\<forall>c\<in>set cs. line_ok c"
  obtains p' where "wsteps J w ((put c p' w)\<lparr>site := serve J (Bytes c (wire (map wire_command cs))) (site w)\<rparr>)"
    and "types p' rest" and "rx_same (sock_of p) (sock_of p')" and "down_n p' = down_n p"
    and "sk (client p') = sk (client p)" and "cout (con (client p')) = cout (con (client p))"
proof -
  note t = p(2) [unfolded types_def sock_of_def]
  have "\<exists>k'. kb_run tcp_asio (4 * length cs) KTest (con (client p)) (cin (client p))
      = Some (KTest, (con (client p))\<lparr>socket := k'\<rparr>, (cin (client p))\<lparr>pending_input := rest\<rparr>)
    \<and> \<not> txdown k' \<and> txd k' = txd (socket (con (client p))) @ concat (map (\<lambda>c. wire_command c @ [SEMI]) cs)"
    by (rule asio_up.typed_lines [OF tcp.asio_up_axioms]) (use t p(3) in simp_all)
  then obtain k' where k': "kb_run tcp_asio (4 * length cs) KTest (con (client p)) (cin (client p))
      = Some (KTest, (con (client p))\<lparr>socket := k'\<rparr>, (cin (client p))\<lparr>pending_input := rest\<rparr>)"
    and up: "\<not> txdown k'" and sent: "txd k' = txd (sock_of p) @ wire (map wire_command cs)"
    by (auto simp: sock_of_def wire_def comp_def)
  from writes_rx.kb_run_kept [OF k'] have rx: "rx_same (sock_of p) k'" by (simp add: sock_of_def)
  let ?c1 = "(client p)\<lparr>kb := KTest, con := (con (client p))\<lparr>socket := k'\<rparr>, cin := (cin (client p))\<lparr>pending_input := rest\<rparr>\<rparr>"
  let ?p1 = "p\<lparr>client := ?c1\<rparr>" and ?p2 = "p\<lparr>client := ?c1, up_n := length (txd k')\<rparr>"
  have "sys_steps tcp_asio (\<lambda>_ _. False) (client p) ?c1" by (rule keyboard_run) (use k' t in simp_all)
  then have 1: "wsteps J w (put c ?p1 w)" by (rule process_steps) (rule p(1))
  have n: "up_n p = length (txd (sock_of p))" using p(2) by (simp add: types_def)
  have "wsteps J (put c ?p1 w) ((put c ?p2 w)\<lparr>site := serve J (Bytes c (wire (map wire_command cs))) (site w)\<rparr>)"
    using upload_all [of "put c ?p1 w" c ?p1 J] n sent by (simp del: serve.simps)
  with 1 have "wsteps J w ((put c ?p2 w)\<lparr>site := serve J (Bytes c (wire (map wire_command cs))) (site w)\<rparr>)"
    by (rule rtranclp_trans)
  then show thesis
    by (rule that) (use t up rx in \<open>simp_all add: types_def running_def good_def sock_of_def\<close>)
qed

text \<open>The replies are read and shown.\<close>

lemma answers_shown:
  "running s \<Longrightarrow> sk s = STest \<Longrightarrow> \<not> terminate (con s) \<Longrightarrow> rxq (socket (con s)) = concat (map wire_reply rs) @ rest \<Longrightarrow>
   \<forall>r\<in>set rs. reply_ok r \<and> r \<noteq> AckOp (CHR ''0'') (CHR ''3'') \<Longrightarrow>
   \<exists>h. sys_steps tcp_asio (\<lambda>_ _. False) s (s\<lparr>con := h\<rparr>) \<and> cout h = cout (con s) @ map (render m) rs
     \<and> rxq (socket h) = rest \<and> rxclosed (socket h) = rxclosed (socket (con s)) \<and> \<not> terminate h \<and> tx_same (socket (con s)) (socket h)"
proof (induction rs arbitrary: s)
  case Nil
  then show ?case by (auto intro!: exI [of _ "con s"] simp: tx_same_def)
next
  case (Cons r rs)
  from tcp.decoder_reads [of "con s" r "concat (map wire_reply rs) @ rest" m] Cons.prems(4,5) obtain k'
    where d: "decoder tcp_asio m (con s) = Some (Inr (render m r), effect r ((con s)\<lparr>socket := k'\<rparr>))"
      and k': "rxq k' = concat (map wire_reply rs) @ rest" "rxclosed k' = rxclosed (socket (con s))" by auto
  let ?h = "say (render m r) (effect r ((con s)\<lparr>socket := k'\<rparr>))"
  have eff: "socket ?h = k'" "cout ?h = cout (con s) @ [render m r]" "\<not> terminate ?h"
    using Cons.prems(3,5) by (auto simp: effect_def conn_simps say_def)
  have "socket (effect r ((con s)\<lparr>socket := k'\<rparr>)) = k'" by (simp add: effect_def)
  with reads_tx.decoder_kept [OF d] have tx: "tx_same (socket (con s)) k'" by simp
  note run = shown_answer [OF Cons.prems(1-3) d]
  have "running (s\<lparr>con := ?h\<rparr>)" using Cons.prems(1) by (simp add: running_def)
  from Cons.IH [OF this] eff k' Cons.prems(2,5) obtain h
    where more: "sys_steps tcp_asio (\<lambda>_ _. False) (s\<lparr>con := ?h\<rparr>) (s\<lparr>con := h\<rparr>)"
      and h: "cout h = cout ?h @ map (render m) rs" "rxq (socket h) = rest" "rxclosed (socket h) = rxclosed k'" "\<not> terminate h" "tx_same k' (socket h)"
    by auto
  show ?case
    by (rule exI [of _ h], rule conjI [OF rtranclp_trans [OF run more]]) (use h eff(2) tx k' in \<open>auto simp: tx_same_def\<close>)
qed

lemma shows_replies:
  assumes ok: "world_ok w" and p: "map_of (peers w) c = Some p" and s: "shows_next w c p rs"
  obtains p' where "wsteps J w (put c p' w)" and "shows_next (put c p' w) c p' []"
    and "cout (con (client p')) = cout (con (client p)) @ map (render m) rs"
    and "kb (client p') = kb (client p)" and "cin (client p') = cin (client p)"
    and "tx_same (sock_of p) (sock_of p')" and "up_n p' = up_n p"
proof -
  let ?p1 = "(on_sock (rxq_update (\<lambda>_. owed w c p)) p)\<lparr>down_n := length (out_for w c)\<rparr>"
  have "down_n p \<le> length (out_for w c)" by (rule peer_facts(1) [OF ok p])
  with s have 1: "wsteps J w (put c ?p1 w)" by (intro download_all [OF p]) (simp_all add: shows_next_def)
  have st: "running (client ?p1)" "sk (client ?p1) = STest" "\<not> terminate (con (client ?p1))"
    "rxq (socket (con (client ?p1))) = concat (map wire_reply rs) @ []" "\<forall>r\<in>set rs. reply_ok r \<and> r \<noteq> AckOp (CHR ''0'') (CHR ''3'')"
    using s by (simp_all add: shows_next_def on_sock_def running_def)
  from answers_shown [OF this, of m] obtain h
    where h: "sys_steps tcp_asio (\<lambda>_ _. False) (client ?p1) ((client ?p1)\<lparr>con := h\<rparr>)"
      "cout h = cout (con (client ?p1)) @ map (render m) rs" "rxq (socket h) = []" "rxclosed (socket h) = rxclosed (socket (con (client ?p1)))"
      "\<not> terminate h" "tx_same (socket (con (client ?p1))) (socket h)" by blast
  let ?p2 = "?p1\<lparr>client := (client ?p1)\<lparr>con := h\<rparr>\<rparr>"
  have "wsteps J (put c ?p1 w) (put c ?p2 (put c ?p1 w))" by (rule process_steps [OF h(1)]) simp
  with 1 have run: "wsteps J w (put c ?p2 w)" by (simp add: rtranclp_trans)
  show thesis
    by (rule that [OF run]) (use s st h(2-6) in \<open>simp_all add: shows_next_def owed_def running_def tx_same_def on_sock_def sock_of_def\<close>)
qed

section \<open>A post\<close>

lemma post_for_one:
  assumes "\<And>m. m \<in> set ms \<Longrightarrow> snd m = bs"
  shows "concat (map snd (filter (\<lambda>m. fst m = c) ms)) = concat (replicate (length (filter (\<lambda>m. fst m = c) ms)) bs)"
  using assms by (induction ms) auto

lemma post_sent_wire: "m \<in> set (post_sent s my t rs) \<Longrightarrow> snd m = wire_reply (Notify True (username (the_user s my)) t)"
  by (auto simp: post_sent_def to_wire_def notice_def split: if_splits)

text \<open>What the server does with the post: the follower's connection gets the notification.\<close>

lemma post_served:
  assumes "reached J S" and "map_order (map_values J)" and "idle S c" and "SEMI \<notin> set t"
    and "find (serves c (shared S)) (active J (shared S)) = Some my" and "c' \<noteq> c" and "c' \<in> set (connectionsMap (shared S))"
    and r: "(k, r) \<in> set (UsersMap (shared S))" "my \<in> set (followers (the_user (shared S) r))"
      "isActivated (the_user (shared S) r)" "connId (the_user (shared S) r) = c'"
  obtains n where "0 < n" and "sent_for (shared (serve J (Bytes c (wire [wire_command (Post t)])) S)) c' = sent_for (shared S) c'
    @ concat (map wire_reply (replicate n (Notify True (username (the_user (shared S) my)) t)))"
proof -
  let ?s = "shared S" and ?u = "username (the_user (shared S) my)" and ?m = "wire_command (Post t)"
  let ?ps = "post_sent ?s my t (recipients J my t ?s)" and ?n = "Notify True ?u t"
  have J: "server_jvm J" by (rule server_jvm.intro) (rule assms(2))
  have wf: "wf_srv ?s" by (rule server_jvm.wf_reached [OF J assms(1)])
  from post_effect [OF assms(2) wf assms(5), of t] obtain s'
    where pr: "process J c ?m ?s = (None, s')" and s': "sent_to s' = sent_to ?s @ ?ps @ to_wire ?s c ''1005''" by auto
  have "SEMI \<notin> set (show_command (Post t))" using assms(4) by simp
  then have "\<forall>m\<in>set [?m]. SEMI \<notin> set m" using wire_command_no_semi [of "Post t"] by simp
  moreover have "process_all J c [?m] ?s = (None, s')" using pr by simp
  ultimately have sh: "shared (serve J (Bytes c (wire [?m])) S) = s'" using serve_wire(1) [OF assms(1,3)] by (simp del: serve.simps)
  define n where "n = length (filter (\<lambda>m. fst m = c') ?ps)"
  have "concat (map snd (filter (\<lambda>m. fst m = c') ?ps)) = concat (replicate n (wire_reply ?n))"
    unfolding n_def by (rule post_for_one) (rule post_sent_wire)
  then have "sent_for s' c' = sent_for ?s c' @ concat (map wire_reply (replicate n ?n))"
    using assms(6) by (simp add: sent_for_def s' to_wire_def map_replicate)
  moreover have "r \<in> set (registered J ?s)" using server_jvm.set_registered [OF J wf] r(1) by force
  then have "r \<in> set (recipients J my t ?s)" using r(2) by (simp add: recipients_def follows_def)
  then have "(c', notice ?u t @ [SEMI]) \<in> set ?ps"
    using r(3,4) assms(7) by (auto simp: post_sent_def to_wire_def intro!: bexI [of _ r])
  then have "(c', notice ?u t @ [SEMI]) \<in> set (filter (\<lambda>m. fst m = c') ?ps)" by simp
  then have "0 < n" unfolding n_def by (rule length_pos_if_in_set)
  ultimately show thesis using that sh by simp
qed


text \<open>
  A world for the examples: Ann and Bob have connected, and have typed what registers them, logs
  them in and makes Bob follow Ann; no reply has been shown yet.
\<close>

definition demo_lines :: "int \<Rightarrow> command list" where
  "demo_lines c = (if c = 0 then [Register ''ann'' ''pa'' ''01-01-2000'', Login ''ann'' ''pa'' ''1'']
     else [Register ''bob'' ''pb'' ''02-02-1999'', Login ''bob'' ''pb'' ''1'', Follow ''0'' ''ann''])"

definition typed_in :: "int \<Rightarrow> string \<Rightarrow> string" where
  "typed_in c text = concat (map (\<lambda>c. show_command c @ [NL]) (demo_lines c)) @ text"

definition demo_run :: server where
  "demo_run = serve jvm_demo (Bytes 1 (wire (map wire_command (demo_lines 1))))
     (serve jvm_demo (Bytes 0 (wire (map wire_command (demo_lines 0)))) two_clients)"

lemma demo_run: "shared demo_run = ann_followed" "idle demo_run 0" "idle demo_run 1" "reached jvm_demo demo_run"
proof -
  let ?sc = "[(0, map wire_command (demo_lines 0)), (1, map wire_command (demo_lines 1))]"
  have d: "demo_run = demo_server ?sc" by (simp add: demo_run_def demo_server_def run_def del: serve.simps)
  have ok: "script_ok ?sc" unfolding script_ok_def two_clients(1) demo_lines_def by code_simp
  have "demo_srv ?sc = ann_followed" unfolding demo_srv_def two_clients(1) demo_lines_def by code_simp
  then show "shared demo_run = ann_followed" "idle demo_run 0" "idle demo_run 1" "reached jvm_demo demo_run"
    unfolding d using demo_server [OF ok] demo_reached by simp_all
qed

lemma types_new: "types (new_peer rs ts text n) text"
  by (simp add: types_def sock_of_def new_peer_def main_start_def connect_def tcp_asio_def fresh_sock_def connectionHandler_def
      say_def main_host_def running_def good_def chars_def Let_def)

lemma shows_new: "running (client (new_peer rs ts text n))" "\<not> terminate (con (client (new_peer rs ts text n)))"
  by (simp_all add: new_peer_def main_start_def connect_def tcp_asio_def fresh_sock_def connectionHandler_def
      say_def main_host_def running_def Let_def)

text \<open>What is shown at the start, and the replies both have not seen yet.\<close>

definition hello :: "string list" where
  "hello = cout (con (client (new_peer [] [] [] 0)))"

definition acks :: "int \<Rightarrow> reply list" where
  "acks c = [AckOp (CHR ''0'') (CHR ''1''), AckOp (CHR ''0'') (CHR ''2'')]
     @ (if c = 0 then [] else [AckFollow (CHR ''0'') (CHR ''0'') ''ann'' NUL])"

lemma out_new: "sent_for (shared two_clients) c = []"
  by (simp add: two_clients(1) sent_for_def new_srv_def)

lemma two_dials:
  assumes p: "p = new_peer [] [] a 0" and q: "q = new_peer [] [] b 0"
  shows "wsteps J World \<lparr>peers = [(0, p), (1, q)], site = run J [Accept, Accept] BaseServer\<rparr>"
proof -
  have i: "sint (connectionId BaseServer) = 0" by (simp add: BaseServer_def)
  have i1: "sint (connectionId (serve J Accept BaseServer)) = 1" by (simp add: BaseServer_def accept_def Let_def)
  let ?w1 = "\<lparr>peers = [(0, p)], site = serve J Accept BaseServer\<rparr>"
  have o: "out_for World 0 = []" "out_for ?w1 1 = []"
    by (simp_all add: out_for_def World_def BaseServer_def accept_def Let_def sent_for_def new_srv_def)
  have "wstep J World ?w1"
    using wstep.dial [of 0 World J "[]" "[]" a] i o(1) p by (simp add: put_def World_def del: serve.simps)
  moreover have "wstep J ?w1 \<lparr>peers = [(0, p), (1, q)], site = serve J Accept (serve J Accept BaseServer)\<rparr>"
    using wstep.dial [of 1 ?w1 J "[]" "[]" b] i1 o(2) q by (simp add: put_def del: serve.simps)
  moreover have "run J [Accept, Accept] BaseServer = serve J Accept (serve J Accept BaseServer)" by (simp add: run_def del: serve.simps)
  ultimately show ?thesis by (simp del: serve.simps)
qed

lemma demo_world:
  obtains w p q where "wsteps jvm_demo World w" and "site w = demo_run"
    and "map_of (peers w) 0 = Some p" and "types p ra" and "shows_next w 0 p (acks 0)" and "cout (con (client p)) = hello"
    and "map_of (peers w) 1 = Some q" and "types q rb" and "shows_next w 1 q (acks 1)" and "cout (con (client q)) = hello"
proof -
  let ?p = "new_peer [] [] (typed_in 0 ra) 0" and ?q = "new_peer [] [] (typed_in 1 rb) 0"
  let ?w = "\<lparr>peers = [(0, ?p), (1, ?q)], site = two_clients\<rparr>"
  have 1: "wsteps jvm_demo World ?w" unfolding two_clients_def by (rule two_dials) simp_all
  have ok: "\<forall>x\<in>set (demo_lines c). line_ok x" for c by (simp add: demo_lines_def NL_def)
  have t: "types (new_peer [] [] (typed_in c r) 0) (concat (map (\<lambda>c. show_command c @ [NL]) (demo_lines c)) @ r)" for c r
    using types_new [of "[]" "[]" "typed_in c r" 0] by (simp add: typed_in_def)
  have "map_of (peers ?w) 0 = Some ?p" by simp
  from types_lines [OF this t ok, of jvm_demo] obtain p
    where 2: "wsteps jvm_demo ?w ((put 0 p ?w)\<lparr>site := serve jvm_demo (Bytes 0 (wire (map wire_command (demo_lines 0)))) two_clients\<rparr>)"
      and p: "types p ra" "rx_same (sock_of ?p) (sock_of p)" "down_n p = 0" "sk (client p) = STest" "cout (con (client p)) = cout (con (client ?p))"
    by (auto simp del: serve.simps)
  let ?w1 = "(put 0 p ?w)\<lparr>site := serve jvm_demo (Bytes 0 (wire (map wire_command (demo_lines 0)))) two_clients\<rparr>"
  have "map_of (peers ?w1) 1 = Some ?q" by (simp del: serve.simps)
  from types_lines [OF this t ok, of jvm_demo] obtain q
    where 3: "wsteps jvm_demo ?w1 ((put 1 q ?w1)\<lparr>site := demo_run\<rparr>)"
      and q: "types q rb" "rx_same (sock_of ?q) (sock_of q)" "down_n q = 0" "sk (client q) = STest" "cout (con (client q)) = cout (con (client ?q))"
    by (auto simp: demo_run_def simp del: serve.simps)
  let ?w2 = "(put 1 q ?w1)\<lparr>site := demo_run\<rparr>"
  have out: "out_for ?w2 c = sent_for ann_followed c" for c by (simp add: out_for_def demo_run(1))
  have s: "sent_for ann_followed 0 = concat (map wire_reply (acks 0))" "sent_for ann_followed 1 = concat (map wire_reply (acks 1))"
    by (simp_all add: sent_for_def ann_followed_def ann_bob_def acks_def)
  have "shows_next ?w2 0 p (acks 0)" "shows_next ?w2 1 q (acks 1)"
    using p q s unfolding shows_next_def owed_def out
    by (auto simp: types_def rx_same_def fresh_sock_def acks_def simp del: serve.simps)
  moreover have "cout (con (client p)) = hello" "cout (con (client q)) = hello"
    using p(5) q(5) by (simp_all add: hello_def new_peer_def main_start_def connect_def tcp_asio_def fresh_sock_def connectionHandler_def say_def main_host_def Let_def)
  moreover have "map_of (peers ?w2) 0 = Some p" "map_of (peers ?w2) 1 = Some q" "site ?w2 = demo_run" by simp_all
  ultimately show thesis using that p(1) q(1) rtranclp_trans [OF 1 rtranclp_trans [OF 2 3]] by blast
qed


section \<open>A logout\<close>

lemma tx_same_trans: "tx_same k k1 \<Longrightarrow> tx_same k1 k2 \<Longrightarrow> tx_same k k2"
  by (simp add: tx_same_def)

text \<open>A client that waits for the reply to LOGOUT shows what is before it, then it, and exits.\<close>

lemma acknowledged_exit:
  assumes s: "running s" "sk s = STest" "kb s = KSpin" "\<not> terminate (con s)"
    and rx: "rxq (socket (con s)) = concat (map wire_reply rs) @ wire_reply (AckOp (CHR ''0'') (CHR ''3''))"
    and ok: "\<forall>r\<in>set rs. reply_ok r \<and> r \<noteq> AckOp (CHR ''0'') (CHR ''3'')"
  shows "\<exists>t. sys_steps tcp_asio (\<lambda>_ _. False) s t \<and> exit_code t = Some 0 \<and> cin t = cin s
    \<and> cout (con t) = cout (con s) @ map (render m) (rs @ [AckOp (CHR ''0'') (CHR ''3'')])
    \<and> txd (socket (con t)) = txd (socket (con s))"
proof -
  let ?r = "AckOp (CHR ''0'') (CHR ''3'')"
  from answers_shown [OF s(1,2,4) rx ok, of m] obtain h where 1: "sys_steps tcp_asio (\<lambda>_ _. False) s (s\<lparr>con := h\<rparr>)"
    and h: "cout h = cout (con s) @ map (render m) rs" "rxq (socket h) = wire_reply ?r" "\<not> terminate h" "tx_same (socket (con s)) (socket h)"
    by blast
  let ?s = "s\<lparr>con := h\<rparr>"
  from tcp.decoder_reads [of h ?r "[]" m] h(2) obtain k'
    where d: "decoder tcp_asio m h = Some (Inr (render m ?r), effect ?r (h\<lparr>socket := k'\<rparr>))" by auto
  let ?h = "say (render m ?r) (effect ?r (h\<lparr>socket := k'\<rparr>))"
  have "sys_steps tcp_asio (\<lambda>_ _. False) ?s (?s\<lparr>con := ?h\<rparr>)"
    using shown_answer [of ?s tcp_asio m ?r k' "\<lambda>_ _. False"] s h(3) d by (simp add: running_def)
  then have 2: "sys_steps tcp_asio (\<lambda>_ _. False) ?s (s\<lparr>con := ?h\<rparr>)" by simp
  have "socket (effect ?r (h\<lparr>socket := k'\<rparr>)) = k'" by (simp add: effect_def)
  with reads_tx.decoder_kept [OF d] have tx: "tx_same (socket h) k'" by simp
  have "running (s\<lparr>con := ?h\<rparr>)" "sk (s\<lparr>con := ?h\<rparr>) = STest" "kb (s\<lparr>con := ?h\<rparr>) = KSpin" "terminate (con (s\<lparr>con := ?h\<rparr>))"
    using s by (simp_all add: running_def effect_def conn_simps)
  from exit_run [OF this, of tcp_asio "\<lambda>_ _. False"] obtain t
    where 3: "sys_steps tcp_asio (\<lambda>_ _. False) (s\<lparr>con := ?h\<rparr>) t" "exit_code t = Some 0" "cin t = cin s"
      and t: "con t = snd (close tcp_asio (resetLogout ?h))" by auto
  have "cout (con t) = cout h @ [render m ?r]" "txd (socket (con t)) = txd k'"
    by (simp_all add: t close_def tcp_asio_def resetLogout_def say_def effect_def Let_def)
  with h tx have "cout (con t) = cout (con s) @ map (render m) (rs @ [?r])" "txd (socket (con t)) = txd (socket (con s))"
    by (simp_all add: tx_same_def)
  with rtranclp_trans [OF 1 rtranclp_trans [OF 2 3(1)]] 3 show ?thesis by blast
qed

text \<open>The line LOGOUT is read and sent.\<close>

lemma types_logout:
  assumes p: "types p (''LOGOUT'' @ NL # rest)"
  obtains h where "sys_steps tcp_asio (\<lambda>_ _. False) (client p)
      ((client p)\<lparr>kb := KSpin, con := h, cin := (cin (client p))\<lparr>pending_input := rest\<rparr>\<rparr>)"
    and "txd (socket h) = txd (sock_of p) @ wire [wire_command Logout]" and "rx_same (sock_of p) (socket h)"
    and "terminate h = terminate (con (client p))" and "cout h = cout (con (client p))"
proof -
  note t = p [unfolded types_def sock_of_def]
  let ?i = "(cin (client p))\<lparr>pending_input := rest\<rparr>"
  let ?s = "(client p)\<lparr>kb := KSend ''LOGOUT'', con := con (client p), cin := ?i\<rparr>"
  have "cin_getline bufsize (cin (client p)) = (''LOGOUT'' @ [NUL], ?i)"
    using t getline_spec [of "cin (client p)" "''LOGOUT''" 1023 rest] by (simp add: bufsize_def NL_def)
  moreover have "cstr (''LOGOUT'' @ [NUL]) = ''LOGOUT''" by (rule cstr_snoc) simp
  moreover have "2 = Suc (Suc 0)" by simp
  ultimately have "kb_run tcp_asio 2 (kb (client p)) (con (client p)) (cin (client p)) = Some (KSend ''LOGOUT'', con (client p), ?i)"
    using t by (simp only: kb_run.simps) (simp add: conn_simps)
  from keyboard_run [OF this] t have 1: "sys_steps tcp_asio (\<lambda>_ _. False) (client p) ?s" by simp
  have "running ?s" "kb ?s = KSend ''LOGOUT''" "\<not> txdown (socket (con ?s))" using t by (simp_all add: running_def)
  from tcp.logout_sent [OF this, of "\<lambda>_ _. False"] obtain h
    where 2: "sys_steps tcp_asio (\<lambda>_ _. False) ?s (?s\<lparr>kb := KSpin, con := h\<rparr>)"
      and h: "txd (socket h) = txd (socket (con (client p))) @ ''03;''" "rxq (socket h) = rxq (socket (con (client p)))"
        "rxclosed (socket h) = rxclosed (socket (con (client p)))" "terminate h = terminate (con (client p))" "cout h = cout (con (client p))"
    by auto
  have "?s\<lparr>kb := KSpin, con := h\<rparr> = (client p)\<lparr>kb := KSpin, con := h, cin := ?i\<rparr>" by (cases "client p") simp
  with 2 have "sys_steps tcp_asio (\<lambda>_ _. False) ?s ((client p)\<lparr>kb := KSpin, con := h, cin := ?i\<rparr>)" by (simp only:)
  from rtranclp_trans [OF 1 this] show thesis
    by (rule that) (use h in \<open>simp_all add: sock_of_def wire_def rx_same_def\<close>)
qed

text \<open>The process has ended and all it sent has arrived.\<close>

lemma leaves:
  assumes "world_ok w" and p: "map_of (peers w) c = Some p" "\<not> running (client p)" "up_n p = length (txd (sock_of p))"
  shows "\<exists>w'. wstep J w w' \<and> shared (site w') = shared (site w) \<and> peers w' = peers w \<and> ended (site w') c"
proof -
  let ?w = "w\<lparr>site := serve J (Eof c) (site w)\<rparr>"
  from peer_facts(2) [OF assms(1) p(1)] obtain k where k: "map_of (conns (site w)) c = Some k" by blast
  have "conns_ok (site w)" using assms(1) by (simp add: world_ok_def)
  from serve_others(4) [OF this k, of J] have "ended (site ?w) c" by (simp add: ended_def)
  moreover have "shared (site ?w) = shared (site w)" by (simp split: option.split)
  ultimately show ?thesis using wstep.leave [OF p, of J] by (intro exI [of _ ?w]) simp
qed

text \<open>What the server does with it.\<close>

lemma logout_served:
  assumes "reached J S" and "map_order (map_values J)" and "idle S c"
    and "find (serves c (shared S)) (active J (shared S)) = Some my" and "c \<in> set (connectionsMap (shared S))"
  shows "\<not> isActivated (the_user (shared (serve J (Bytes c (wire [wire_command Logout])) S)) my)"
    and "sent_for (shared (serve J (Bytes c (wire [wire_command Logout])) S)) c
      = sent_for (shared S) c @ wire_reply (AckOp (CHR ''0'') (CHR ''3''))"
proof -
  let ?s = "shared S" and ?s' = "(upd my deActivate (shared S))\<lparr>sent_to := sent_to (shared S) @ to_wire (shared S) c ''1003''\<rparr>"
  have J: "server_jvm J" by (rule server_jvm.intro) (rule assms(2))
  have my: "my < length (heap ?s)"
    using server_jvm.found_active [OF J server_jvm.wf_reached [OF J assms(1)] assms(4)] by blast
  have "process_all J c [wire_command Logout] ?s = (None, ?s')"
    using assms(4) by (simp add: process_def do_logout_def send_plain to_wire_def)
  moreover have "\<forall>m\<in>set [wire_command Logout]. SEMI \<notin> set m" by simp
  ultimately have sh: "shared (serve J (Bytes c (wire [wire_command Logout])) S) = ?s'"
    using serve_wire(1) [OF assms(1,3)] by blast
  show "\<not> isActivated (the_user (shared (serve J (Bytes c (wire [wire_command Logout])) S)) my)"
    unfolding sh using my by (simp add: the_user_upd_cases user_defs)
  show "sent_for (shared (serve J (Bytes c (wire [wire_command Logout])) S)) c
      = sent_for (shared S) c @ wire_reply (AckOp (CHR ''0'') (CHR ''3''))"
    unfolding sh using assms(5) by (simp add: sent_for_def to_wire_def)
qed

text \<open>The line goes to the server, the acknowledgement comes back, and the process ends.\<close>

lemma logout_run:
  fixes m :: stack
  assumes wok: "world_ok w" and p: "map_of (peers w) c = Some p" "types p (''LOGOUT'' @ NL # rest)" "shows_next w c p rs"
    and served: "sent_for (shared (serve J (Bytes c (wire [wire_command Logout])) (site w))) c
      = out_for w c @ wire_reply (AckOp (CHR ''0'') (CHR ''3''))"
  obtains w' p' where "wsteps J w w'" "map_of (peers w') c = Some p'" "site w' = serve J (Bytes c (wire [wire_command Logout])) (site w)"
    and "exit_code (client p') = Some 0" "pending_input (cin (client p')) = rest" "up_n p' = length (txd (sock_of p'))"
    and "cout (con (client p')) = cout (con (client p)) @ map (render m) (rs @ [AckOp (CHR ''0'') (CHR ''3'')])"
proof -
  let ?S = "serve J (Bytes c (wire [wire_command Logout])) (site w)" and ?r = "AckOp (CHR ''0'') (CHR ''3'')"
  from types_logout [OF p(2)] obtain h where
    k: "sys_steps tcp_asio (\<lambda>_ _. False) (client p) ((client p)\<lparr>kb := KSpin, con := h, cin := (cin (client p))\<lparr>pending_input := rest\<rparr>\<rparr>)"
    and h: "txd (socket h) = txd (sock_of p) @ wire [wire_command Logout]" "rx_same (sock_of p) (socket h)"
      "terminate h = terminate (con (client p))" "cout h = cout (con (client p))" .
  let ?c1 = "(client p)\<lparr>kb := KSpin, con := h, cin := (cin (client p))\<lparr>pending_input := rest\<rparr>\<rparr>"
  let ?p1 = "p\<lparr>client := ?c1\<rparr>" and ?p2 = "p\<lparr>client := ?c1, up_n := length (txd (socket h))\<rparr>"
  let ?w2 = "(put c ?p2 w)\<lparr>site := ?S\<rparr>"
  have 1: "wsteps J w (put c ?p1 w)" by (rule process_steps [OF k p(1)])
  have n: "up_n p = length (txd (sock_of p))" using p(2) by (simp add: types_def)
  have 2: "wsteps J (put c ?p1 w) ?w2"
    using upload_all [of "put c ?p1 w" c ?p1 J] n h(1) by (simp del: serve.simps wire_command.simps)
  \<comment> \<open>the acknowledgement comes back\<close>
  have m2: "map_of (peers ?w2) c = Some ?p2" by simp
  have "out_for ?w2 c = out_for w c @ wire_reply ?r" using served by (simp add: out_for_def del: serve.simps)
  moreover have "down_n p \<le> length (out_for w c)" by (rule peer_facts(1) [OF wok p(1)])
  ultimately have owed: "owed ?w2 c ?p2 = concat (map wire_reply rs) @ wire_reply ?r" and d: "down_n ?p2 \<le> length (out_for ?w2 c)"
    using p(3) h(2) by (simp_all add: owed_def shows_next_def rx_same_def sock_of_def del: serve.simps)
  let ?p3 = "(on_sock (rxq_update (\<lambda>_. owed ?w2 c ?p2)) ?p2)\<lparr>down_n := length (out_for ?w2 c)\<rparr>"
  have "\<not> rxclosed (sock_of ?p2)" using p(3) h(2) by (simp add: shows_next_def rx_same_def)
  note 3 = download_all [OF m2 d this, of J]
  have "running (client ?p3)" "sk (client ?p3) = STest" "kb (client ?p3) = KSpin" "\<not> terminate (con (client ?p3))"
    "rxq (socket (con (client ?p3))) = concat (map wire_reply rs) @ wire_reply ?r" "\<forall>r\<in>set rs. reply_ok r \<and> r \<noteq> ?r"
    using p(3) h(3) owed by (simp_all add: shows_next_def on_sock_def running_def)
  from acknowledged_exit [OF this, of m] obtain t where t: "sys_steps tcp_asio (\<lambda>_ _. False) (client ?p3) t" "exit_code t = Some 0"
    "cin t = cin (client ?p3)" "cout (con t) = cout (con (client ?p3)) @ map (render m) (rs @ [?r])"
    "txd (socket (con t)) = txd (socket (con (client ?p3)))" by blast
  let ?p4 = "?p3\<lparr>client := t\<rparr>" and ?w3 = "put c ?p3 ?w2"
  have 4: "wsteps J ?w3 (put c ?p4 ?w3)" by (rule process_steps [OF t(1)]) simp
  have e: "exit_code (client ?p4) = Some 0" "pending_input (cin (client ?p4)) = rest" "up_n ?p4 = length (txd (sock_of ?p4))"
    "cout (con (client ?p4)) = cout (con (client p)) @ map (render m) (rs @ [?r])"
    using t h(4) by (simp_all add: on_sock_def)
  have w: "wsteps J w (put c ?p4 ?w3)" by (rule rtranclp_trans [OF 1 rtranclp_trans [OF 2 rtranclp_trans [OF 3 4]]])
  have m: "map_of (peers (put c ?p4 ?w3)) c = Some ?p4" "site (put c ?p4 ?w3) = ?S" by (simp_all only: put_simps if_True refl)
  from w m e show thesis by (rule that)
qed

lemma logout_ends:
  assumes "wsteps J World w" and "map_order (map_values J)"
    and p: "map_of (peers w) c = Some p" "types p (''LOGOUT'' @ NL # rest)" "shows_next w c p rs" "idle (site w) c"
    and my: "find (serves c (shared (site w))) (active J (shared (site w))) = Some my"
  shows "\<exists>w' p'. wsteps J w w' \<and> \<not> isActivated (the_user (shared (site w')) my) \<and> ended (site w') c
    \<and> map_of (peers w') c = Some p' \<and> exit_code (client p') = Some 0 \<and> pending_input (cin (client p')) = rest
    \<and> cout (con (client p')) = cout (con (client p)) @ map (render m) (rs @ [AckOp (CHR ''0'') (CHR ''3'')])"
proof -
  let ?S = "serve J (Bytes c (wire [wire_command Logout])) (site w)" and ?r = "AckOp (CHR ''0'') (CHR ''3'')"
  have reached: "reached J (site w)" by (rule wsteps_reached [OF assms(1)])
  have wok: "world_ok w" by (rule wsteps_ok [OF assms(1)])
  have "c \<in> set (connectionsMap (shared (site w)))" using peer_facts(2) [OF wok p(1)] reached_table [OF reached] by blast
  note served = logout_served [OF reached assms(2) p(4) my this]
  obtain w4 p4 where w4: "wsteps J w w4" "map_of (peers w4) c = Some p4" "site w4 = ?S"
    and p4: "exit_code (client p4) = Some 0" "pending_input (cin (client p4)) = rest" "up_n p4 = length (txd (sock_of p4))"
      "cout (con (client p4)) = cout (con (client p)) @ map (render m) (rs @ [?r])"
    using logout_run [OF wok p(1-3), of J m] served(2) by (auto simp: out_for_def simp del: serve.simps)
  have "world_ok w4" by (rule wsteps_ok [OF rtranclp_trans [OF assms(1) w4(1)]])
  from leaves [OF this w4(2) _ p4(3), of J] p4(1) obtain w5 where
    w5: "wstep J w4 w5" "shared (site w5) = shared (site w4)" "peers w5 = peers w4" "ended (site w5) c" by (auto simp: running_def)
  have "\<not> isActivated (the_user (shared (site w5)) my)" unfolding w5(2) w4(3) by (rule served(1))
  moreover have "map_of (peers w5) c = Some p4" unfolding w5(3) by (rule w4(2))
  ultimately show ?thesis using rtranclp.rtrancl_into_rtrancl [OF w4(1) w5(1)] w5(4) p4(1,2,4) by blast
qed

text \<open>
  C2. The whole program: a user who is logged in types LOGOUT. From any state the program can be
  in, the processes and the network can go on so that the server marks him as logged out and its
  thread for him ends, while his client shows the replies still due and then the
  acknowledgement, leaves what is typed ahead unread and exits with code 0.
\<close>

theorem logout_on_both_sides:
  assumes "wsteps J World w" and "map_order (map_values J)"
    and p: "map_of (peers w) c = Some p" "types p (''LOGOUT'' @ NL # rest)" "shows_next w c p rs" "idle (site w) c"
    and my: "find (serves c (shared (site w))) (active J (shared (site w))) = Some my"
  shows "\<exists>w' p'. wsteps J w w' \<and> \<not> isActivated (the_user (shared (site w')) my) \<and> ended (site w') c
    \<and> map_of (peers w') c = Some p' \<and> exit_code (client p') = Some 0 \<and> pending_input (cin (client p')) = rest
    \<and> cout (con (client p')) = cout (con (client p)) @ map (render m) (rs @ [AckOp (CHR ''0'') (CHR ''3'')])"
  by (rule logout_ends [OF assms])

theorem logout_on_both_sides_witness:
  "\<exists>w p. wsteps jvm_demo World w \<and> \<not> isActivated (the_user (shared (site w)) 0) \<and> ended (site w) 0
    \<and> map_of (peers w) 0 = Some p \<and> exit_code (client p) = Some 0 \<and> pending_input (cin (client p)) = ''STAT''
    \<and> cout (con (client p)) = hello @ map (render clean_stack) (acks 0 @ [AckOp (CHR ''0'') (CHR ''3'')])"
proof -
  obtain w p where w: "wsteps jvm_demo World w" "site w = demo_run"
    and p: "map_of (peers w) 0 = Some p" "types p (''LOGOUT'' @ NL # ''STAT'')" "shows_next w 0 p (acks 0)" "cout (con (client p)) = hello"
    by (rule demo_world)
  have i: "idle (site w) 0" using w(2) demo_run by simp
  have "find (serves 0 ann_followed) (active jvm_demo ann_followed) = Some 0" by code_simp
  then have f: "find (serves 0 (shared (site w))) (active jvm_demo (shared (site w))) = Some 0" by (simp add: w(2) demo_run(1))
  from logout_on_both_sides [OF w(1) jvm_demo_order p(1-3) i f, of clean_stack] w(1) p(4) show ?thesis
    by (metis rtranclp_trans)
qed

section \<open>What is always true of the streams\<close>

text \<open>The bytes the network has given a client since it connected.\<close>

definition downloaded :: "server \<Rightarrow> int \<Rightarrow> peer \<Rightarrow> bytes" where
  "downloaded S c p = take (down_n p - start_n p) (drop (start_n p) (sent_for (shared S) c))"



text \<open>
  The bytes a client has received only get more, and a step changes its flags and threads only by
  a step of the process.
\<close>

definition same_threads :: "tcp_sock sys \<Rightarrow> tcp_sock sys \<Rightarrow> bool" where
  "same_threads s t \<longleftrightarrow> terminate (con t) = terminate (con s) \<and> sk t = sk s \<and> exit_code t = exit_code s"

definition goes_on :: "world \<Rightarrow> world \<Rightarrow> int \<Rightarrow> peer \<Rightarrow> peer \<Rightarrow> bool" where
  "goes_on w w' c p q \<longleftrightarrow> (\<exists>bs. downloaded (site w') c q = downloaded (site w) c p @ bs)
     \<and> (sys_step tcp_asio (\<lambda>_ _. False) (client p) (client q) \<or> same_threads (client p) (client q))"

lemma downloaded_serve:
  assumes "conns_ok S" and "peer_ok S c p"
  shows "downloaded (serve J ev S) c p = downloaded S c p"
proof -
  obtain bs where "sent_for (shared (serve J ev S)) c = sent_for (shared S) c @ bs" using sent_for_serve [OF assms(1)] by blast
  moreover have "down_n p \<le> length (sent_for (shared S) c)" using assms(2) by (simp add: peer_ok_def)
  ultimately show ?thesis by (simp add: downloaded_def)
qed

lemma goes_on_same:
  assumes "world_ok w" and "map_of (peers w) c = Some p" and "site w' = site w \<or> (\<exists>ev. site w' = serve J ev (site w))"
    and "down_n q = down_n p" "start_n q = start_n p" "client q = client p"
  shows "goes_on w w' c p q"
proof -
  have "downloaded (site w') c q = downloaded (site w') c p" using assms(4,5) by (simp add: downloaded_def)
  also have "\<dots> = downloaded (site w) c p"
    using assms(3) downloaded_serve [of "site w" c p J] peer_facts(3) [OF assms(1,2)] assms(1) by (auto simp: world_ok_def)
  finally show ?thesis using assms(6) by (simp add: goes_on_def same_threads_def)
qed

lemma wstep_peer:
  assumes "wstep J w w'" and ok: "world_ok w" and q: "map_of (peers w') d = Some q"
  obtains rs ts typed n where "q = new_peer rs ts typed n" | p where "map_of (peers w) d = Some p" "goes_on w w' d p q"
  using assms(1)
proof (cases rule: wstep.cases)
  case (dial c rs ts typed)
  show ?thesis
  proof (cases "d = c")
    case True
    with q dial that(1) show ?thesis by (auto simp del: serve.simps)
  next
    case False
    with q dial that(2) goes_on_same [OF ok, of d q w' J q] show ?thesis by (auto simp del: serve.simps)
  qed
next
  case (move c p s)
  show ?thesis
  proof (cases "d = c")
    case True
    with q move have "q = p\<lparr>client := s\<rparr>" by simp
    with True move that(2) show ?thesis by (auto simp: goes_on_def downloaded_def)
  next
    case False
    with q move that(2) goes_on_same [OF ok, of d q w' J q] show ?thesis by auto
  qed
next
  case (upload c p n)
  show ?thesis
  proof (cases "d = c")
    case True
    have "goes_on w w' d p q"
      by (rule goes_on_same [OF ok _ disjI2 [OF exI]]) (use True q upload in \<open>auto simp del: serve.simps\<close>)
    with True upload(2) that(2) show ?thesis by blast
  next
    case False
    with q upload that(2) goes_on_same [OF ok, of d q w' J q] show ?thesis by (auto simp del: serve.simps)
  qed
next
  case (download c p n)
  show ?thesis
  proof (cases "d = c")
    case True
    with download have "start_n p \<le> down_n p" using peer_facts(3) [OF ok, of d p] by (simp add: peer_ok_def)
    moreover have "q = (on_sock (rxq_update (\<lambda>b. b @ take n (drop (down_n p) (out_for w c)))) p)\<lparr>down_n := down_n p + n\<rparr>"
      using True q download by simp
    ultimately have "goes_on w w' d p q"
      using download(1) by (auto simp: goes_on_def same_threads_def downloaded_def take_on on_sock_def)
    with that(2) True download(2) show ?thesis by blast
  next
    case False
    with q download that(2) goes_on_same [OF ok, of d q w' J q] show ?thesis by auto
  qed
next
  case (hangup c p)
  show ?thesis
  proof (cases "d = c")
    case True
    with q hangup have "q = on_sock (rxclosed_update (\<lambda>_. True)) p" by simp
    with True hangup that(2) show ?thesis by (auto simp: goes_on_def downloaded_def same_threads_def on_sock_def)
  next
    case False
    with q hangup that(2) goes_on_same [OF ok, of d q w' J q] show ?thesis by auto
  qed
next
  case (leave c p)
  with q that(2) goes_on_same [OF ok, of d q w' J q] show ?thesis by (auto simp del: serve.simps)
qed

text \<open>A process that ends, or is about to, has received the acknowledgement of a logout.\<close>

definition leaving :: "tcp_sock sys \<Rightarrow> bool" where
  "leaving s \<longleftrightarrow> terminate (con s) \<or> sk s = SDone \<or> exit_code s \<noteq> None"

lemma leaving_step:
  assumes "sys_step tcp_asio (\<lambda>_ _. False) s t" and "sk_inv (sk s)" and "leaving t" and "\<not> leaving s"
  shows "\<exists>rest. rxq (socket (con s)) = ''1003'' @ rest"
proof -
  have "terminate (con t)"
    using assms(1)
  proof (cases rule: sys_step.cases)
    case (socket m p h)
    with assms(2-4) show ?thesis
      by (cases "sk s") (auto simp: leaving_def sk_inv_def conn_simps split: option.splits prod.splits sum.splits if_splits)
  qed (use assms(3,4) in \<open>auto simp: leaving_def dest: kb_step_terminate\<close>)
  with term_needs_ack [OF tcp.asio_in_axioms assms(1)] assms(4) show ?thesis by (simp add: leaving_def)
qed

lemma leaving_acked:
  "wsteps J World w \<Longrightarrow> map_of (peers w) c = Some p \<Longrightarrow> leaving (client p) \<Longrightarrow> sublist ''1003'' (downloaded (site w) c p)"
proof (induction arbitrary: p rule: rtranclp_induct)
  case base
  then show ?case by (simp add: World_def)
next
  case (step w w')
  have ok: "world_ok w" by (rule wsteps_ok [OF step(1)])
  from step(2) ok step(4) show ?case
  proof (cases rule: wstep_peer)
    case (1 rs ts typed n)
    with step(5) show ?thesis
      by (simp add: leaving_def) (simp add: new_peer_def main_start_def connect_def tcp_asio_def fresh_sock_def connectionHandler_def say_def main_host_def Let_def)
  next
    case (2 q)
    then obtain bs where more: "downloaded (site w') c p = downloaded (site w) c q @ bs" by (auto simp: goes_on_def)
    have "sublist ''1003'' (downloaded (site w) c q)"
    proof (cases "leaving (client q)")
      case True
      from step.IH [OF 2(1) True] show ?thesis .
    next
      case False
      with step(5) 2 have "sys_step tcp_asio (\<lambda>_ _. False) (client q) (client p)" by (auto simp: goes_on_def same_threads_def leaving_def)
      moreover have "sk_inv (sk (client q))" using ok 2(1) by (simp add: world_ok_def)
      ultimately obtain rest where "rxq (sock_of q) = ''1003'' @ rest" using leaving_step step(5) False by (auto simp: sock_of_def)
      moreover obtain read where "downloaded (site w) c q = read @ rxq (sock_of q)"
        using peer_facts(3) [OF ok 2(1)] unfolding peer_ok_def downloaded_def by blast
      ultimately show ?thesis by (auto simp: sublist_def)
    qed
    then show ?thesis unfolding more sublist_def by (metis append.assoc)
  qed
qed

text \<open>
  C16. A client process exits with code 0 only after the server has sent to its connection bytes
  with \<open>1003\<close> in them, however the steps of the processes, the threads and the network interleave.
\<close>

theorem exit_means_acknowledged:
  assumes "wsteps J World w" and "map_of (peers w) c = Some p" and "exit_code (client p) = Some 0"
  shows "sublist ''1003'' (downloaded (site w) c p)"
  using leaving_acked [OF assms(1,2)] assms(3) by (simp add: leaving_def)

theorem exit_means_acknowledged_witness:
  "\<exists>w p. wsteps jvm_demo World w \<and> map_of (peers w) 0 = Some p \<and> exit_code (client p) = Some 0
    \<and> sublist ''1003'' (downloaded (site w) 0 p)"
proof -
  obtain w p where w: "wsteps jvm_demo World w" "site w = demo_run"
    and p: "map_of (peers w) 0 = Some p" "types p (''LOGOUT'' @ NL # [])" "shows_next w 0 p (acks 0)"
    by (rule demo_world)
  have "idle (site w) 0" "find (serves 0 (shared (site w))) (active jvm_demo (shared (site w))) = Some 0"
    unfolding w(2) demo_run(1) by (rule demo_run, code_simp)
  from logout_ends [OF w(1) jvm_demo_order p this, of clean_stack] obtain w' p'
    where w': "wsteps jvm_demo w w'" "map_of (peers w') 0 = Some p'" "exit_code (client p') = Some 0" by blast
  from rtranclp_trans [OF w(1) w'(1)] have "wsteps jvm_demo World w'" .
  from this w'(2,3) exit_means_acknowledged [OF this w'(2,3)] show ?thesis by blast
qed

end
