(* ===== verification/Framework.thy ===== *)
theory Framework
  imports ServerLoop
begin

unbundle bit_operations_syntax

text \<open>
  The rest of the server framework, which the repository ships with its examples: the blocking
  handler \<open>srv/BlockingConnectionHandler.java\<close>, the echo protocol \<open>impl/echo\<close>, and the remote command
  invocation of \<open>impl/rci\<close> with its codec of length-prefixed objects. Java's serialization is
  the parameters \<open>ser\<close> and \<open>deser\<close>; \<open>None\<close> is an exception of theirs.
\<close>

section \<open>The codec of objects\<close>

text \<open>
  Four bytes of length, high byte first, then the object. \<open>lengthBuffer\<close> has the bytes that have
  been put; it is not cleared when the length is negative.
\<close>

datatype oexn = BufferOverflow | NegativeArraySize | IndexOutOfBounds | IllegalArgument | Disconnected

record object_codec =
  lengthBuffer :: bytes
  objectBytes :: "bytes option"
  objectBytesIndex :: nat

definition ObjectEncoderDecoder :: object_codec where
  "ObjectEncoderDecoder = \<lparr>lengthBuffer = [], objectBytes = None, objectBytesIndex = 0\<rparr>"

definition putInt :: "int32 \<Rightarrow> bytes" where
  "putInt n = map byte_char [ucast (drop_bit 24 n), ucast (drop_bit 16 n), ucast (drop_bit 8 n), ucast n]"

definition getInt :: "bytes \<Rightarrow> int32" where
  "getInt bs = push_bit 24 (ucast (of_char (bs ! 0) :: 8 word)) OR push_bit 16 (ucast (of_char (bs ! 1) :: 8 word))
     OR push_bit 8 (ucast (of_char (bs ! 2) :: 8 word)) OR ucast (of_char (bs ! 3) :: 8 word)"

definition object_decodeNextByte ::
  "(bytes \<Rightarrow> 'o option) \<Rightarrow> char \<Rightarrow> object_codec \<Rightarrow> (oexn + 'o option) \<times> object_codec" where
  "object_decodeNextByte deser nextByte s =
     (case objectBytes s of
        None \<Rightarrow>
          if 4 \<le> length (lengthBuffer s) then (Inl BufferOverflow, s)
          else let l = lengthBuffer s @ [nextByte]
               in if length l < 4 then (Inr None, s\<lparr>lengthBuffer := l\<rparr>)
                  else if getInt l <s 0 then (Inl NegativeArraySize, s\<lparr>lengthBuffer := l\<rparr>)
                  else (Inr None, s\<lparr>lengthBuffer := [], objectBytes := Some (replicate (unat (getInt l)) NUL), objectBytesIndex := 0\<rparr>)
      | Some a \<Rightarrow>
          if length a \<le> objectBytesIndex s then (Inl IndexOutOfBounds, s)
          else let a = a[objectBytesIndex s := nextByte];
                   s1 = s\<lparr>objectBytes := Some a, objectBytesIndex := objectBytesIndex s + 1\<rparr>
               in if objectBytesIndex s1 = length a
                  then (case deser a of
                          None \<Rightarrow> (Inl IllegalArgument, s1)
                        | Some result \<Rightarrow> (Inr (Some result), s1\<lparr>objectBytes := None\<rparr>))
                  else (Inr None, s1))"

definition object_encode :: "('o \<Rightarrow> bytes option) \<Rightarrow> 'o \<Rightarrow> oexn + bytes" where
  "object_encode ser message =
     (case ser message of
        None \<Rightarrow> Inl IllegalArgument
      | Some object \<Rightarrow>
          let result = replicate 4 NUL @ object
          in Inr (putInt (of_nat (length result - 4)) @ drop 4 result))"

text \<open>What the codec reports for a stream: objects and exceptions, in order.\<close>

fun feed_objects :: "(bytes \<Rightarrow> 'o option) \<Rightarrow> bytes \<Rightarrow> object_codec \<Rightarrow> (oexn + 'o) list \<times> object_codec" where
  "feed_objects deser [] s = ([], s)"
| "feed_objects deser (b # bs) s =
     (let (r, s1) = object_decodeNextByte deser b s; (os, s2) = feed_objects deser bs s1
      in (case r of Inl e \<Rightarrow> Inl e # os | Inr None \<Rightarrow> os | Inr (Some x) \<Rightarrow> Inr x # os, s2))"

lemma feed_objects_append:
  "feed_objects deser (xs @ ys) s =
     (let (os, s1) = feed_objects deser xs s; (ps, s2) = feed_objects deser ys s1 in (os @ ps, s2))"
  by (induction xs arbitrary: s) (auto simp: Let_def split: prod.splits sum.splits option.splits)

lemma getInt_putInt [simp]: "getInt (putInt n) = n"
proof (rule bit_word_eqI)
  fix i :: nat
  assume i: "i < LENGTH(32)"
  consider "i < 8" | "8 \<le> i" "i < 16" | "16 \<le> i" "i < 24" | "24 \<le> i" by linarith
  then show "bit (getInt (putInt n)) i = bit n i"
    by cases (use i in \<open>auto simp: getInt_def putInt_def bit_simps\<close>)
qed

lemma length_putInt [simp]: "length (putInt n) = 4"
  by (simp add: putInt_def)

text \<open>Between two objects.\<close>

definition between :: "object_codec \<Rightarrow> bool" where
  "between s \<longleftrightarrow> lengthBuffer s = [] \<and> objectBytes s = None"

lemma between_new: "between ObjectEncoderDecoder"
  by (simp add: between_def ObjectEncoderDecoder_def)

lemma feed_length:
  assumes "between s" and "\<not> n <s 0"
  shows "feed_objects deser (putInt n) s = ([], s\<lparr>objectBytes := Some (replicate (unat n) NUL), objectBytesIndex := 0\<rparr>)"
proof -
  obtain a b c d where q: "putInt n = [a, b, c, d]" by (simp add: putInt_def)
  have "getInt [a, b, c, d] = n" using getInt_putInt [of n] by (simp only: q)
  with assms show ?thesis by (simp add: q between_def object_decodeNextByte_def)
qed

text \<open>The bytes of an object but the last leave nothing, the last delivers it.\<close>

lemma feed_object:
  "objectBytes s = Some (take i bs @ replicate (length bs - i) NUL) \<Longrightarrow> objectBytesIndex s = i \<Longrightarrow> i < length bs \<Longrightarrow>
   lengthBuffer s = [] \<Longrightarrow> deser bs = Some x \<Longrightarrow>
   \<exists>s0 s'. feed_objects deser (drop i (butlast bs)) s = ([], s0) \<and> object_decodeNextByte deser (last bs) s0 = (Inr (Some x), s')
     \<and> between s'"
proof (induction "length bs - i" arbitrary: i s)
  case (Suc n)
  let ?a = "take (Suc i) bs @ replicate (length bs - Suc i) NUL"
  have "replicate (length bs - i) NUL = NUL # replicate (length bs - Suc i) NUL" using Suc.prems(3) by (simp flip: replicate_Suc add: Suc_diff_Suc)
  then have a: "(take i bs @ replicate (length bs - i) NUL)[i := bs ! i] = ?a"
    using Suc.prems(3) by (simp add: list_update_append take_Suc_conv_app_nth)
  let ?s = "s\<lparr>objectBytes := Some ?a, objectBytesIndex := Suc i\<rparr>"
  show ?case
  proof (cases "Suc i = length bs")
    case True
    then have "object_decodeNextByte deser (bs ! i) s = (Inr (Some x), ?s\<lparr>objectBytes := None\<rparr>)"
      using Suc.prems a by (simp add: object_decodeNextByte_def)
    moreover have "last bs = bs ! i" using True by (metis diff_Suc_1 last_conv_nth list.size(3) nat.distinct(1))
    moreover have "drop i (butlast bs) = []" using True by simp
    ultimately show ?thesis using Suc.prems(4) by (simp add: between_def)
  next
    case False
    with Suc.prems(3) have i: "i \<noteq> length bs - Suc 0" "i < length (butlast bs)" by simp_all
    then have "object_decodeNextByte deser (bs ! i) s = (Inr None, ?s)"
      using Suc.prems a by (simp add: object_decodeNextByte_def Let_def)
    moreover have "drop i (butlast bs) = bs ! i # drop (Suc i) (butlast bs)"
      using i(2) by (simp add: nth_butlast flip: Cons_nth_drop_Suc)
    moreover have "\<exists>s0 s'. feed_objects deser (drop (Suc i) (butlast bs)) ?s = ([], s0)
        \<and> object_decodeNextByte deser (last bs) s0 = (Inr (Some x), s') \<and> between s'"
      by (rule Suc.hyps(1)) (use False Suc in simp_all)
    ultimately show ?thesis by auto
  qed
qed simp

definition fits :: "('o \<Rightarrow> bytes option) \<Rightarrow> (bytes \<Rightarrow> 'o option) \<Rightarrow> 'o \<Rightarrow> bool" where
  "fits ser deser x \<longleftrightarrow> (\<exists>bs. ser x = Some bs \<and> deser bs = Some x \<and> bs \<noteq> [] \<and> length bs < 2 ^ 31)"

lemma object_frame:
  assumes "fits ser deser x" and "between s"
  obtains f b s0 s' where "object_encode ser x = Inr (f @ [b])" and "feed_objects deser f s = ([], s0)"
    and "object_decodeNextByte deser b s0 = (Inr (Some x), s')" and "between s'"
proof -
  from assms(1) obtain bs where bs: "ser x = Some bs" "deser bs = Some x" "bs \<noteq> []" "length bs < 2 ^ 31" by (auto simp: fits_def)
  let ?n = "of_nat (length bs) :: int32"
  have u: "unat ?n = length bs" using bs(4) by (simp add: unsigned_of_nat take_bit_nat_eq_self)
  have "sint ?n = int (length bs)" using bs(4) by (simp add: signed_of_nat signed_take_bit_int_eq_self)
  then have "\<not> ?n <s 0" by (simp add: word_sless_alt)
  note l = feed_length [OF assms(2) this, of deser]
  let ?s = "s\<lparr>objectBytes := Some (replicate (unat ?n) NUL), objectBytesIndex := 0\<rparr>"
  have "\<exists>s0 s'. feed_objects deser (drop 0 (butlast bs)) ?s = ([], s0) \<and> object_decodeNextByte deser (last bs) s0 = (Inr (Some x), s')
      \<and> between s'"
    by (rule feed_object) (use bs u assms(2) in \<open>simp_all add: between_def\<close>)
  then obtain s0 s' where "feed_objects deser (putInt ?n @ butlast bs) s = ([], s0)"
    "object_decodeNextByte deser (last bs) s0 = (Inr (Some x), s')" "between s'"
    using l by (auto simp: feed_objects_append)
  moreover have "object_encode ser x = Inr ((putInt ?n @ butlast bs) @ [last bs])" using bs(3) by (simp add: object_encode_def bs(1) Let_def)
  ultimately show thesis using that by blast
qed

lemma feed_frame:
  assumes "fits ser deser x" and "between s"
  obtains f s' where "object_encode ser x = Inr f" and "feed_objects deser f s = ([Inr x], s')" and "between s'"
proof -
  from assms obtain f b s0 s' where f: "object_encode ser x = Inr (f @ [b])" "feed_objects deser f s = ([], s0)"
    "object_decodeNextByte deser b s0 = (Inr (Some x), s')" "between s'" by (rule object_frame)
  from f(2,3) have "feed_objects deser (f @ [b]) s = ([Inr x], s')" by (simp add: feed_objects_append)
  with f(1,4) that show thesis by blast
qed

text \<open>
  The codec of objects is a round trip: the encoded forms of any objects that Java can
  serialize, fed byte by byte, deliver these objects in order, and the codec is between two objects
  again.
\<close>

lemma objects_roundtrip:
  assumes "\<forall>x\<in>set xs. fits ser deser x" and "map (object_encode ser) xs = map Inr fs"
  shows "\<exists>s. feed_objects deser (concat fs) ObjectEncoderDecoder = (map Inr xs, s) \<and> between s"
proof -
  have "\<exists>s'. feed_objects deser (concat fs) s = (map Inr xs, s') \<and> between s'" if "between s" for s
    using assms that
  proof (induction xs arbitrary: fs s)
    case (Cons x xs)
    then obtain f gs where fs: "fs = f # gs" "object_encode ser x = Inr f" "map (object_encode ser) xs = map Inr gs" by auto
    from Cons.prems(1) have "fits ser deser x" by simp
    from feed_frame [OF this Cons.prems(3)] fs(2) obtain s1 where s1: "feed_objects deser f s = ([Inr x], s1)" "between s1" by auto
    from Cons.IH [OF _ fs(3) s1(2)] Cons.prems(1) s1(1) show ?case by (auto simp: fs(1) feed_objects_append)
  qed simp
  then show ?thesis using between_new by blast
qed

text \<open>After an exception the codec throws at every byte.\<close>

definition dead :: "object_codec \<Rightarrow> bool" where
  "dead s \<longleftrightarrow> (case objectBytes s of None \<Rightarrow> length (lengthBuffer s) = 4 | Some a \<Rightarrow> length a \<le> objectBytesIndex s)"

lemma dead_throws: "dead s \<Longrightarrow> \<exists>e. object_decodeNextByte deser b s = (Inl e, s)"
  by (auto simp: dead_def object_decodeNextByte_def split: option.splits)

lemma feed_dead: "dead s \<Longrightarrow> \<exists>es. feed_objects deser bs s = (map Inl es, s) \<and> length es = length bs"
proof (induction bs)
  case (Cons b bs)
  then obtain es where "feed_objects deser bs s = (map Inl es, s)" "length es = length bs" by blast
  moreover obtain e where "object_decodeNextByte deser b s = (Inl e, s)" using dead_throws [OF Cons.prems] by blast
  ultimately show ?case by (intro exI [of _ "e # es"]) simp
qed simp

lemma step_dead:
  assumes "object_decodeNextByte deser b s = (r, s')" and "length (lengthBuffer s) \<le> 4"
  shows "length (lengthBuffer s') \<le> 4" and "r = Inl e \<Longrightarrow> dead s'"
  using assms by (auto simp: object_decodeNextByte_def dead_def Let_def split: option.splits if_splits)

text \<open>
  An exception of the codec of objects, for a length that is negative, an object of length
  zero or bytes that are no object, is final: whatever has been read before, every byte that
  follows throws again and no object is delivered any more.
\<close>

lemma object_codec_dies:
  assumes "feed_objects deser bs ObjectEncoderDecoder = (os, s)" and "Inl e \<in> set os"
  shows "\<exists>es. fst (feed_objects deser rest s) = map Inl es \<and> length es = length rest"
proof -
  have dead: "Inl e \<in> set os \<Longrightarrow> dead s'" if "feed_objects deser bs s = (os, s')" "length (lengthBuffer s) \<le> 4 " for bs s os s'
    using that
  proof (induction bs arbitrary: s os)
    case (Cons b bs)
    obtain r s1 where r: "object_decodeNextByte deser b s = (r, s1)" by fastforce
    obtain ps where p: "feed_objects deser bs s1 = (ps, s')" using Cons.prems(2) r by (auto split: prod.splits)
    note l = step_dead [OF r Cons.prems(3)]
    have "dead s'" if "dead s1" using feed_dead [OF that, of deser bs] p that by auto
    with Cons.IH [OF _ p l(1)] l(2) Cons.prems(1,2) r p show ?case by (auto split: sum.splits option.splits)
  qed simp
  have "dead s" by (rule dead [OF assms(1) _ assms(2)]) (simp add: ObjectEncoderDecoder_def)
  from feed_dead [OF this, of deser rest] show ?thesis by auto
qed

section \<open>Remote command invocation\<close>

text \<open>
  \<open>execute\<close> is the method of the command; the exception is that of the cast when the object is no
  command, or one that \<open>execute\<close> throws. \<open>receive\<close> of the client reads until the codec delivers.
\<close>

definition rci_process :: "('o \<Rightarrow> 'a \<Rightarrow> 'e + 'o) \<Rightarrow> 'a \<Rightarrow> 'o \<Rightarrow> 'e + 'o" where
  "rci_process execute arg msg = execute msg arg"

fun receive :: "(bytes \<Rightarrow> 'o option) \<Rightarrow> bytes \<Rightarrow> object_codec \<Rightarrow> (oexn + 'o) \<times> object_codec \<times> bytes" where
  "receive deser [] s = (Inl Disconnected, s, [])"
| "receive deser (b # bs) s =
     (case object_decodeNextByte deser b s of
        (Inl e, s1) \<Rightarrow> (Inl e, s1, bs)
      | (Inr (Some msg), s1) \<Rightarrow> (Inr msg, s1, bs)
      | (Inr None, s1) \<Rightarrow> receive deser bs s1)"

lemma receive_nothing: "feed_objects deser xs s = ([], s1) \<Longrightarrow> receive deser (xs @ ys) s = receive deser ys s1"
  by (induction xs arbitrary: s) (auto split: prod.splits sum.splits option.splits)

text \<open>
  C38. A remote command works: what the client sends for a command reaches the server as this
  command, and what the server sends for the result of \<open>execute\<close> is what \<open>receive\<close> of the client
  returns, leaving the bytes behind it, for any objects that Java can serialize.
\<close>

theorem remote_command:
  assumes "fits ser deser cmd" and "rci_process execute arg cmd = Inr result" and "fits ser deser result"
    and "between server" and "between client"
  shows "\<exists>request answer server' client'. object_encode ser cmd = Inr request
    \<and> feed_objects deser request server = ([Inr cmd], server') \<and> between server'
    \<and> map_sum id (object_encode ser) (rci_process execute arg cmd) = Inr (Inr answer)
    \<and> receive deser (answer @ rest) client = (Inr result, client', rest) \<and> between client'"
proof -
  from assms(1,4) obtain f s' where f: "object_encode ser cmd = Inr f" "feed_objects deser f server = ([Inr cmd], s')" "between s'"
    by (rule feed_frame)
  from assms(3,5) obtain g b c0 c' where g: "object_encode ser result = Inr (g @ [b])" "feed_objects deser g client = ([], c0)"
    "object_decodeNextByte deser b c0 = (Inr (Some result), c')" "between c'" by (rule object_frame)
  have "receive deser ((g @ [b]) @ rest) client = (Inr result, c', rest)" using g(3) by (simp add: receive_nothing [OF g(2)])
  with f g(1,4) assms(2) show ?thesis by auto
qed

theorem remote_command_witness:
  "\<exists>request answer s c. object_encode Some ''ab'' = Inr request
    \<and> feed_objects Some request ObjectEncoderDecoder = ([Inr ''ab''], s)
    \<and> object_encode Some ''ab!'' = Inr answer
    \<and> receive Some (answer @ ''x'') ObjectEncoderDecoder = (Inr ''ab!'', c, ''x'')"
proof -
  have "fits Some Some ''ab''" "fits Some Some ''ab!''" by (simp_all add: fits_def)
  from remote_command [OF this(1) _ this(2) between_new between_new, of "\<lambda>x y. Inr (x @ y) :: oexn + bytes" "''!''" "''x''"]
  show ?thesis by (simp add: rci_process_def) blast
qed

section \<open>Echo\<close>

text \<open>The last two characters, or what there is of them; on ASCII text a character is a byte.\<close>

definition createEcho :: "string \<Rightarrow> string" where
  "createEcho message =
     (let echoPart = drop (length message - 2) message
      in message @ '' .. '' @ echoPart @ '' .. '' @ echoPart @ '' ..'')"

definition echo_process :: "string \<Rightarrow> bool \<Rightarrow> string \<times> bool" where
  "echo_process msg shouldTerminate = (createEcho msg, msg = ''bye'')"

text \<open>
  The line codec and the protocol together: the answers to the bytes of a client, encoded as the
  lines of the handler would that are commented out. A client reads them with the same codec.
\<close>

definition echo_answers :: "bytes \<Rightarrow> bytes" where
  "echo_answers bs = concat (map (\<lambda>m. line_encode (fst (echo_process m False))) (fst (feed line_decodeNextByte bs new_codec)))"

lemma echo_session:
  assumes "\<forall>m\<in>set ms. CHR 0x0A \<notin> set m"
  shows "fst (feed line_decodeNextByte (echo_answers (concat (map line_encode ms))) new_codec) = map createEcho ms"
proof -
  have "echo_answers (concat (map line_encode ms)) = concat (map line_encode (map createEcho ms))"
    by (simp add: echo_answers_def line_codec_roundtrip [OF assms] echo_process_def comp_def)
  moreover have "\<forall>m\<in>set (map createEcho ms). CHR 0x0A \<notin> set m" using assms by (auto simp: createEcho_def Let_def dest: in_set_dropD)
  ultimately show ?thesis by (simp only: line_codec_roundtrip)
qed

section \<open>The blocking handler\<close>

text \<open>
  \<open>run\<close>, for any codec and any protocol with its state: the exception that ends it, if one does,
  and whether the loop has ended.
\<close>

fun blocking_run ::
  "('d \<times> 'p \<Rightarrow> bool) \<Rightarrow> (char \<Rightarrow> 'd \<Rightarrow> 'm option \<times> 'd) \<Rightarrow> ('m \<Rightarrow> 'p \<Rightarrow> 'e option \<times> 'p) \<Rightarrow> bool \<Rightarrow> bytes \<Rightarrow> 'd \<times> 'p
     \<Rightarrow> bool \<times> 'e option \<times> 'd \<times> 'p" where
  "blocking_run terminated decode proc conn [] (d, p) = (True, None, d, p)"
| "blocking_run terminated decode proc conn (b # bs) (d, p) =
     (if \<not> terminated (d, p) \<and> conn
      then (case decode b d of
              (None, d1) \<Rightarrow> blocking_run terminated decode proc conn bs (d1, p)
            | (Some nextMessage, d1) \<Rightarrow>
                (case proc nextMessage p of
                   (None, p1) \<Rightarrow> blocking_run terminated decode proc conn bs (d1, p1)
                 | (Some e, p1) \<Rightarrow> (False, Some e, d1, p1)))
      else (False, None, d, p))"

text \<open>
  With the codec and the protocol of the program the handler of the framework does exactly
  what \<open>ConnectionHandlerImpl.run\<close> does with the same bytes: the same shared state, the same codec,
  the same exception.
\<close>

lemma blocking_handler_same:
  "run_loop J bs k s =
     (let (open1, e, d, s') = blocking_run (\<lambda>_. done_flag k) decodeNextByte (process J (connId_of k)) (connected k) bs (encdec k, s)
      in (k\<lparr>encdec := d, open_sock := open1 \<and> open_sock k\<rparr>, e, s'))"
proof (induction J bs k s rule: run_loop.induct)
  case (2 J b bs k s)
  then show ?case by (auto split: prod.splits option.splits)
qed simp

end
