(* ===== verification/Races.thy ===== *)
theory Races
  imports Delivery
begin

text \<open>
  Requests that run at the same time. \<open>process\<close> takes no lock, so the requests of different
  connections interleave; here REGISTER, LOGIN, LOGOUT, FOLLOW and BLOCK are the steps between which the
  shared maps and the users change. The other requests, which only add to the waiting posts, the counter
  of posts and what is sent, are one step each.
\<close>

section \<open>The steps of a request\<close>

text \<open>
  Where a thread is in the request it processes: before it; about to enter a new user in the map; about to
  enter a user in the map of the active ones, to mark him, to give him the connection, to
  acknowledge, to deliver what has waited; about to mark a user as logged out; about to change the
  queue of the users one follows, then the counter, and to reply with the rest of the message; about to block
  a user, to stop following him, to make him stop following; about to send a reply; at the end. The
  search in a map and the tests on what it has found are one step.
\<close>

datatype job =
    Begin
  | RegPut "string list"
  | LogPut "string list" nat
  | LogActivate nat
  | LogConn nat
  | LogSend nat
  | LogPosts nat
  | OutMark nat
  | FolAdd nat nat string
  | FolInc nat string
  | FolDrop nat nat string
  | FolDec nat string
  | BlkAdd nat nat
  | BlkMine nat nat
  | BlkHis nat nat
  | Say string
  | Ended "jexn option"

definition end_with :: "outcome \<Rightarrow> (job \<times> srv) option" where
  "end_with r = (let (e, s) = r in Some (Ended e, s))"

definition begin_register :: "jvm \<Rightarrow> string \<Rightarrow> srv \<Rightarrow> job" where
  "begin_register J message s =
     (let args = java_split NUL message
      in if length args < 3 then Ended (Some ArrayIndexOutOfBounds)
         else if list_ex (name_contains (args ! 0) s) (registered J s) then Say ''1101''
         else RegPut args)"

definition begin_login :: "jvm \<Rightarrow> string \<Rightarrow> srv \<Rightarrow> job" where
  "begin_login J message s =
     (let args = java_split NUL message
      in if length args < 3 then Ended (Some ArrayIndexOutOfBounds)
         else case find (name_contains (args ! 0) s) (registered J s) of
                None \<Rightarrow> Say ''1102''
              | Some r \<Rightarrow>
                  if password (the_user s r) = args ! 1 \<and> args ! 2 = ''1'' \<and> \<not> isActivated (the_user s r)
                  then LogPut args r else Say ''1102'')"

definition begin_logout :: "jvm \<Rightarrow> int \<Rightarrow> srv \<Rightarrow> job" where
  "begin_logout J c s = (case find (serves c s) (active J s) of Some r \<Rightarrow> OutMark r | None \<Rightarrow> Say ''1103'')"

definition begin_follow :: "jvm \<Rightarrow> int \<Rightarrow> string \<Rightarrow> srv \<Rightarrow> job" where
  "begin_follow J c message s =
     (if message = [] then Ended (Some StringIndexOutOfBounds)
      else let action = take 1 message; message = drop 1 message
      in case find (named_in message s) (registered J s) of
           None \<Rightarrow> Say ''1104''
         | Some other \<Rightarrow>
             (case find (serves c s) (active J s) of
                None \<Rightarrow> Ended None
              | Some my \<Rightarrow>
                  if isActivated (the_user s my)
                  then if action = ''0'' \<and> other \<notin> set (followers (the_user s my))
                          \<and> my \<notin> set (blockingUsers (the_user s other)) then FolAdd my other message
                       else if action = ''1'' \<and> other \<in> set (followers (the_user s my)) then FolDrop my other message
                       else Say ''1104''
                  else Ended None))"

definition begin_block :: "jvm \<Rightarrow> int \<Rightarrow> string \<Rightarrow> srv \<Rightarrow> job" where
  "begin_block J c message s =
     (case (find (serves c s) (active J s), find (named_in message s) (registered J s)) of
        (Some my, Some other) \<Rightarrow>
          if other \<notin> set (blockingUsers (the_user s my))
          then if message = [] then Ended (Some StringIndexOutOfBounds) else BlkAdd my other
          else Say ''1112''
      | _ \<Rightarrow> Say ''1112'')"

definition drop_if_follows :: "nat \<Rightarrow> nat \<Rightarrow> srv \<Rightarrow> srv" where
  "drop_if_follows r q s = (if q \<in> set (followers (the_user s r)) then upd r (removeFollower q) s else s)"

fun job_step :: "jvm \<Rightarrow> int \<Rightarrow> string \<Rightarrow> job \<Rightarrow> srv \<Rightarrow> (job \<times> srv) option" where
  "job_step J c m Begin s =
     (if take 2 m = ''01'' then Some (begin_register J (drop 2 m) s, s)
      else if take 2 m = ''02'' then Some (begin_login J (drop 2 m) s, s)
      else if take 2 m = ''03'' then Some (begin_logout J c s, s)
      else if take 2 m = ''04'' then Some (begin_follow J c (drop 2 m) s, s)
      else if take 2 m = ''12'' then Some (begin_block J c (drop 2 m) s, s)
      else end_with (process J c m s))"
| "job_step J c m (RegPut args) s =
     Some (Say ''1001'', s\<lparr>heap := heap s @ [User (args ! 0) (args ! 1) (args ! 2)],
                            UsersMap := AList.update (args ! 0) (length (heap s)) (UsersMap s)\<rparr>)"
| "job_step J c m (LogPut args r) s =
     Some (LogActivate r, s\<lparr>ActiveUsersMap := AList.update (args ! 0) r (ActiveUsersMap s)\<rparr>)"
| "job_step J c m (LogActivate r) s = Some (LogConn r, upd r activate s)"
| "job_step J c m (LogConn r) s = Some (LogSend r, upd r (setConnId c) s)"
| "job_step J c m (LogSend r) s =
     (case send c ''1002'' s of (None, s1) \<Rightarrow> Some (LogPosts r, s1) | (Some e, s1) \<Rightarrow> Some (Ended (Some e), s1))"
| "job_step J c m (LogPosts r) s = end_with (send_awaiting r [] 0 (awaitingPosts (the_user s r)) s)"
| "job_step J c m (OutMark r) s = Some (Say ''1003'', upd r deActivate s)"
| "job_step J c m (FolAdd my other msg) s = Some (FolInc my msg, upd my (addFollower other) s)"
| "job_step J c m (FolInc my msg) s = Some (Say (''100400'' @ msg @ [NUL]), upd my incrementFollowing s)"
| "job_step J c m (FolDrop my other msg) s = Some (FolDec my msg, upd my (removeFollower other) s)"
| "job_step J c m (FolDec my msg) s = Some (Say (''100401'' @ msg @ [NUL]), upd my decreaseFollowing s)"
| "job_step J c m (BlkAdd my other) s = Some (BlkMine my other, upd my (addBlocking other) s)"
| "job_step J c m (BlkMine my other) s = Some (BlkHis my other, drop_if_follows my other s)"
| "job_step J c m (BlkHis my other) s = Some (Say ''1012'', drop_if_follows other my s)"
| "job_step J c m (Say msg) s = end_with (send c msg s)"
| "job_step J c m (Ended e) s = None"

lemmas begin_defs = begin_register_def begin_login_def begin_logout_def begin_follow_def begin_block_def

text \<open>A request that nobody interrupts.\<close>

fun alone :: "jvm \<Rightarrow> int \<Rightarrow> string \<Rightarrow> nat \<Rightarrow> job \<Rightarrow> srv \<Rightarrow> job \<times> srv" where
  "alone J c m 0 j s = (j, s)"
| "alone J c m (Suc n) j s =
     (case job_step J c m j s of None \<Rightarrow> (j, s) | Some (j1, s1) \<Rightarrow> alone J c m n j1 s1)"

text \<open>Threads with the connection and the message of each; one of them makes a step.\<close>

type_synonym threads = "(int \<times> string \<times> job) list"

inductive interleave :: "jvm \<Rightarrow> threads \<times> srv \<Rightarrow> threads \<times> srv \<Rightarrow> bool" for J where
  step: "i < length ts \<Longrightarrow> ts ! i = (c, m, j) \<Longrightarrow> job_step J c m j s = Some (j', s') \<Longrightarrow>
    interleave J (ts, s) (ts[i := (c, m, j')], s')"

abbreviation interleaved :: "jvm \<Rightarrow> threads \<times> srv \<Rightarrow> threads \<times> srv \<Rightarrow> bool" where
  "interleaved J \<equiv> rtranclp (interleave J)"

definition requests :: "(int \<times> string) list \<Rightarrow> threads" where
  "requests rs = map (\<lambda>(c, m). (c, m, Begin)) rs"

lemma upd_upd: "upd r g (upd r f s) = upd r (g \<circ> f) s"
  by (cases "r < length (heap s)") (simp_all add: upd_def list_update_beyond not_less)

lemma alone_handlers:
  "take 2 m = ''01'' \<Longrightarrow> alone J c m 6 Begin s = (let (e, s') = do_register J c (drop 2 m) s in (Ended e, s'))"
  "take 2 m = ''02'' \<Longrightarrow> alone J c m 6 Begin s = (let (e, s') = do_login J c (drop 2 m) s in (Ended e, s'))"
  "take 2 m = ''03'' \<Longrightarrow> alone J c m 6 Begin s = (let (e, s') = do_logout J c s in (Ended e, s'))"
  "take 2 m = ''04'' \<Longrightarrow> alone J c m 6 Begin s = (let (e, s') = do_follow J c (drop 2 m) s in (Ended e, s'))"
  "take 2 m = ''12'' \<Longrightarrow> alone J c m 6 Begin s = (let (e, s') = do_block J c (drop 2 m) s in (Ended e, s'))"
proof -
  have six: "6 = Suc (Suc (Suc (Suc (Suc (Suc 0)))))" by simp
  show "take 2 m = ''01'' \<Longrightarrow> alone J c m 6 Begin s = (let (e, s') = do_register J c (drop 2 m) s in (Ended e, s'))"
    unfolding six by (auto simp: do_register_def begin_register_def end_with_def Let_def split: prod.splits)
  show "take 2 m = ''02'' \<Longrightarrow> alone J c m 6 Begin s = (let (e, s') = do_login J c (drop 2 m) s in (Ended e, s'))"
    unfolding six by (auto simp: do_login_def begin_login_def end_with_def Let_def upd_upd then_do_def split: prod.splits option.splits)
  show "take 2 m = ''03'' \<Longrightarrow> alone J c m 6 Begin s = (let (e, s') = do_logout J c s in (Ended e, s'))"
    unfolding six by (auto simp: do_logout_def begin_logout_def end_with_def Let_def split: prod.splits option.splits)
  show "take 2 m = ''04'' \<Longrightarrow> alone J c m 6 Begin s = (let (e, s') = do_follow J c (drop 2 m) s in (Ended e, s'))"
    unfolding six by (simp add: do_follow_def begin_follow_def end_with_def Let_def upd_upd split: prod.splits option.splits)
  show "take 2 m = ''12'' \<Longrightarrow> alone J c m 6 Begin s = (let (e, s') = do_block J c (drop 2 m) s in (Ended e, s'))"
    unfolding six by (simp add: do_block_def begin_block_def drop_if_follows_def end_with_def Let_def split: prod.splits option.splits)
qed


section \<open>Names and passwords\<close>

text \<open>Whatever runs, no user changes his name or password and none goes away.\<close>

definition idents :: "srv \<Rightarrow> (string \<times> string) list" where
  "idents s = map (\<lambda>u. (username u, password u)) (heap s)"

definition grows :: "srv \<Rightarrow> srv \<Rightarrow> bool" where
  "grows s0 s \<longleftrightarrow> prefix (idents s0) (idents s)"

lemma grows_same [simp]: "grows s s"
  by (simp add: grows_def)

lemma grows_trans: "grows s s1 \<Longrightarrow> grows s1 s2 \<Longrightarrow> grows s s2"
  by (auto simp: grows_def)

lemma growsD:
  assumes "grows s0 s" and "r < length (heap s0)"
  shows "r < length (heap s)" "username (the_user s r) = username (the_user s0 r)" "password (the_user s r) = password (the_user s0 r)"
proof -
  from assms(1) obtain xs where x: "idents s = idents s0 @ xs" by (auto simp: grows_def prefix_def)
  then have "length (idents s0) \<le> length (idents s)" by simp
  with assms(2) show l: "r < length (heap s)" by (simp add: idents_def)
  from x assms(2) have "idents s ! r = idents s0 ! r" by (simp add: nth_append idents_def)
  with l assms(2) show "username (the_user s r) = username (the_user s0 r)" "password (the_user s r) = password (the_user s0 r)"
    by (simp_all add: idents_def the_user_def)
qed

lemma idents_upd: "(\<And>u. username (f u) = username u \<and> password (f u) = password u) \<Longrightarrow> idents (upd r f s) = idents s"
  by (cases "r < length (heap s)")
     (simp_all add: idents_def upd_def map_update list_update_same_conv list_update_beyond not_less)

lemma grows_frame [simp]:
  "grows s0 s \<Longrightarrow> grows s0 (incrementPostIPost s)" "grows s0 s \<Longrightarrow> grows s0 (snd (send c msg s))"
  "grows s0 s \<Longrightarrow> grows s0 (s\<lparr>ActiveUsersMap := x3\<rparr>)" "grows s0 s \<Longrightarrow> grows s0 (s\<lparr>UsersMap := x4\<rparr>)"
  "grows s0 s \<Longrightarrow> grows s0 (s\<lparr>heap := heap s @ us, UsersMap := x2\<rparr>)"
  by (simp_all add: grows_def idents_def)

lemma grows_upd [simp]:
  assumes "grows s0 s"
  shows "grows s0 (upd r activate s)" "grows s0 (upd r deActivate s)" "grows s0 (upd r (setConnId c) s)"
    "grows s0 (upd r (setConnId c \<circ> activate) s)" "grows s0 (upd r (addAwaiting p) s)" "grows s0 (upd r (addBlocking q) s)"
    "grows s0 (upd r (removeFollower q) s)" "grows s0 (upd r (incrementFollowing \<circ> addFollower q) s)"
    "grows s0 (upd r (decreaseFollowing \<circ> removeFollower q) s)" "grows s0 (upd r (addFollower q) s)"
    "grows s0 (upd r incrementFollowing s)" "grows s0 (upd r decreaseFollowing s)"
  using assms unfolding grows_def by (subst idents_upd, simp add: user_defs, assumption)+

lemma grows_then_do [simp]:
  "grows s0 (snd p) \<Longrightarrow> (\<And>s. grows s0 s \<Longrightarrow> grows s0 (snd (f s))) \<Longrightarrow> grows s0 (snd (then_do p f))"
  by (rule then_do_invI [where I = "grows s0"])

lemma grows_loops [simp]:
  "grows s0 s \<Longrightarrow> grows s0 (snd (deliver_post my message rs s))"
  "grows s0 s \<Longrightarrow> grows s0 (snd (send_awaiting r n lim posts s))"
  "grows s0 s \<Longrightarrow> grows s0 (snd (send_stats J c my rs s))"
  by (induction rs arbitrary: s, auto, induction posts arbitrary: s n lim, auto split: prod.splits,
      induction rs arbitrary: s, auto split: sum.splits)

lemma grows_handlers:
  "grows s0 s \<Longrightarrow> grows s0 (snd (do_register J c message s))"
  "grows s0 s \<Longrightarrow> grows s0 (snd (do_login J c message s))"
  "grows s0 s \<Longrightarrow> grows s0 (snd (do_logout J c s))"
  "grows s0 s \<Longrightarrow> grows s0 (snd (do_follow J c message s))"
  "grows s0 s \<Longrightarrow> grows s0 (snd (do_post J c message s))"
  "grows s0 s \<Longrightarrow> grows s0 (snd (do_pm J c message s))"
  "grows s0 s \<Longrightarrow> grows s0 (snd (do_logstat J c s))"
  "grows s0 s \<Longrightarrow> grows s0 (snd (do_stat J c message s))"
  "grows s0 s \<Longrightarrow> grows s0 (snd (do_block J c message s))"
  by (auto simp: do_register_def do_login_def do_logout_def do_follow_def do_post_def do_pm_def
      do_logstat_def do_stat_def do_block_def Let_def split: option.split list.split)

lemma grows_process: "grows s0 s \<Longrightarrow> grows s0 (snd (process J c message s))"
  by (simp add: process_def Let_def grows_handlers)

lemma grows_results:
  "process J c m s = (e, s') \<Longrightarrow> grows s s'" "send c msg s = (e, s') \<Longrightarrow> grows s s'"
  "send_awaiting r n lim posts s = (e, s') \<Longrightarrow> grows s s'"
  using grows_process [OF grows_same, of s J c m] grows_frame(2) [OF grows_same, of s c msg]
    grows_loops(2) [OF grows_same, of s r n lim posts] by (auto simp: prod_eq_iff)

lemma grows_drop [simp]: "grows s0 s \<Longrightarrow> grows s0 (drop_if_follows r q s)"
  by (simp add: drop_if_follows_def)

lemma job_step_grows: "job_step J c m j s = Some (j', s') \<Longrightarrow> grows s s'"
  by (cases j) (auto simp: end_with_def Let_def split: if_splits option.splits prod.splits dest: grows_results)

section \<open>The requests that are one step\<close>

text \<open>They change neither the maps nor the names, the queues of followers and the blocked users.\<close>

definition same_links :: "srv \<Rightarrow> srv \<Rightarrow> bool" where
  "same_links s0 s \<longleftrightarrow> links s = links s0 \<and> UsersMap s = UsersMap s0 \<and> ActiveUsersMap s = ActiveUsersMap s0"

lemma same_links_frame [simp]:
  "same_links s s" "same_links s0 s \<Longrightarrow> same_links s0 (snd (send c msg s))" "same_links s0 s \<Longrightarrow> same_links s0 (incrementPostIPost s)"
  "same_links s0 s \<Longrightarrow> same_links s0 (upd r (addAwaiting p) s)"
  by (simp_all add: same_links_def links_upd user_defs)

lemma same_links_then_do [simp]:
  "same_links s0 (snd p) \<Longrightarrow> (\<And>s. same_links s0 s \<Longrightarrow> same_links s0 (snd (f s))) \<Longrightarrow> same_links s0 (snd (then_do p f))"
  by (rule then_do_invI [where I = "same_links s0"])

lemma same_links_loops [simp]:
  "same_links s0 s \<Longrightarrow> same_links s0 (snd (deliver_post my message rs s))"
  "same_links s0 s \<Longrightarrow> same_links s0 (snd (send_awaiting r n lim posts s))"
  "same_links s0 s \<Longrightarrow> same_links s0 (snd (send_stats J c my rs s))"
  by (induction rs arbitrary: s, auto, induction posts arbitrary: s n lim, auto split: prod.splits,
      induction rs arbitrary: s, auto split: sum.splits)

lemma same_links_process:
  assumes "take 2 m \<notin> {''01'', ''02'', ''03'', ''04'', ''12''}"
  shows "same_links s (snd (process J c m s))"
  using assms by (auto simp: process_def Let_def do_post_def do_pm_def do_logstat_def do_stat_def split: option.splits list.splits)

lemma refs_same: "same_links s s' \<Longrightarrow> refs_ok s \<Longrightarrow> refs_ok s'"
  by (auto simp: same_links_def intro: refs_links)

lemma refs_results:
  "refs_ok s \<Longrightarrow> send c msg s = (e, s') \<Longrightarrow> refs_ok s'" "refs_ok s \<Longrightarrow> send_awaiting r n lim posts s = (e, s') \<Longrightarrow> refs_ok s'"
  "take 2 m \<notin> {''01'', ''02'', ''03'', ''04'', ''12''} \<Longrightarrow> refs_ok s \<Longrightarrow> process J c m s = (e, s') \<Longrightarrow> refs_ok s'"
  using refs_same same_links_frame(1,2) same_links_loops(2) same_links_process by (metis snd_conv)+

section \<open>What holds under every interleaving\<close>

text \<open>A LOGIN message with a part of the user's name, his password and the captcha.\<close>

definition credentials :: "string \<Rightarrow> user \<Rightarrow> bool" where
  "credentials m u \<longleftrightarrow>
     (let args = java_split NUL (drop 2 m)
      in take 2 m = ''02'' \<and> 3 \<le> length args \<and> sublist (args ! 0) (username u) \<and> password u = args ! 1 \<and> args ! 2 = ''1'')"

text \<open>
  A thread between two steps of a LOGIN has seen them; a thread about to enter a user in a queue has
  found him.
\<close>

definition thread_ok :: "srv \<Rightarrow> string \<Rightarrow> job \<Rightarrow> bool" where
  "thread_ok s m j =
     (case j of
        LogPut _ r \<Rightarrow> r < length (heap s) \<and> credentials m (the_user s r)
      | LogActivate r \<Rightarrow> r < length (heap s) \<and> credentials m (the_user s r)
      | FolAdd _ other _ \<Rightarrow> other < length (heap s)
      | BlkAdd _ other \<Rightarrow> other < length (heap s)
      | _ \<Rightarrow> True)"

lemma thread_ok_grows: "thread_ok s m j \<Longrightarrow> grows s s' \<Longrightarrow> thread_ok s' m j"
  by (cases j) (auto simp: thread_ok_def credentials_def Let_def growsD)

lemma refs_upd:
  assumes "refs_ok s" and "\<And>u. username (f u) = username u" and "X \<subseteq> {..<length (heap s)}"
    and "\<And>u. set (followers (f u)) \<union> set (blockingUsers (f u)) \<subseteq> set (followers u) \<union> set (blockingUsers u) \<union> X"
  shows "refs_ok (upd r f s)"
proof (cases "r < length (heap s)")
  case True
  have "set (followers (f (the_user s r))) \<union> set (blockingUsers (f (the_user s r))) \<subseteq> {..<length (heap s)}"
    using assms(4) [of "the_user s r"] refs_okD(6) [OF assms(1) True] assms(3) by blast
  then show ?thesis by (intro refs_ok_upd [OF assms(1) True]) (simp_all add: assms(2))
next
  case False
  then show ?thesis using assms(1) by (simp add: upd_def list_update_beyond)
qed

lemma refs_user_ops:
  assumes "refs_ok s"
  shows "refs_ok (upd r activate s)" "refs_ok (upd r deActivate s)" "refs_ok (upd r (setConnId c) s)"
    "refs_ok (upd r incrementFollowing s)" "refs_ok (upd r decreaseFollowing s)" "refs_ok (drop_if_follows r q s)"
    "refs_ok (upd r (removeFollower q) s)"
    "q < length (heap s) \<Longrightarrow> refs_ok (upd r (addFollower q) s)" "q < length (heap s) \<Longrightarrow> refs_ok (upd r (addBlocking q) s)"
proof -
  show "refs_ok (upd r activate s)" "refs_ok (upd r deActivate s)" "refs_ok (upd r (setConnId c) s)"
    "refs_ok (upd r incrementFollowing s)" "refs_ok (upd r decreaseFollowing s)"
    by (rule refs_links [OF assms], simp_all add: links_upd user_defs)+
  show rm: "refs_ok (upd r (removeFollower q) s)"
    by (rule refs_upd [OF assms, where X = "{}"]) (auto simp: user_defs dest: set_remove1_subset [THEN subsetD])
  then show "refs_ok (drop_if_follows r q s)" using assms by (simp add: drop_if_follows_def)
  show "refs_ok (upd r (addFollower q) s)" "refs_ok (upd r (addBlocking q) s)" if "q < length (heap s)"
    by (rule refs_upd [OF assms, where X = "{q}"], use that in \<open>auto simp: user_defs\<close>)+
qed

context server_jvm
begin

lemma begin_ok:
  assumes "refs_ok s"
  shows "take 2 m = ''02'' \<Longrightarrow> thread_ok s m (begin_login J (drop 2 m) s)" "thread_ok s m (begin_register J msg s)"
    "thread_ok s m (begin_logout J c s)" "thread_ok s m (begin_follow J c msg s)" "thread_ok s m (begin_block J c msg s)"
proof -
  note found = refs_found [OF assms]
  show "thread_ok s m (begin_login J (drop 2 m) s)" if "take 2 m = ''02''"
    using that found(1) [of "name_contains (java_split NUL (drop 2 m) ! 0) s"]
    by (auto simp: begin_login_def Let_def thread_ok_def credentials_def name_contains_def split: option.split)
  show "thread_ok s m (begin_register J msg s)" "thread_ok s m (begin_logout J c s)"
    by (simp_all add: begin_register_def begin_logout_def Let_def thread_ok_def split: option.split)
  show "thread_ok s m (begin_follow J c msg s)" "thread_ok s m (begin_block J c msg s)"
    using found(1) [of "named_in msg s"] found(1) [of "named_in (drop 1 msg) s"]
    by (simp_all add: begin_follow_def begin_block_def Let_def thread_ok_def split: option.split)
qed

lemma job_step_thread:
  assumes "job_step J c m j s = Some (j', s')" and "refs_ok s" and "thread_ok s m j"
  shows "thread_ok s' m j'"
proof (cases j)
  case Begin
  with assms(1,2) show ?thesis
    by (auto simp: end_with_def Let_def thread_ok_def [of _ _ "Ended _"] intro: begin_ok split: if_splits prod.splits)
next
  case (LogPut args r)
  with assms show ?thesis by (auto simp: thread_ok_def)
qed (use assms in \<open>auto simp: thread_ok_def end_with_def Let_def split: option.splits prod.splits\<close>)

lemma job_step_refs:
  assumes "job_step J c m j s = Some (j', s')" and "refs_ok s" and "thread_ok s m j"
  shows "refs_ok s'"
proof (cases j)
  case Begin
  with assms(1,2) refs_results(3) [OF _ assms(2), of m J c _ s'] show ?thesis
    by (auto simp: end_with_def Let_def split: if_splits prod.splits)
next
  case (RegPut args)
  with assms(1) refs_register [OF assms(2)] show ?thesis by auto
next
  case (LogPut args r)
  with assms(1,3) refs_enter_active [OF assms(2)] show ?thesis by (auto simp: thread_ok_def)
qed (use assms refs_user_ops [OF assms(2)] refs_results(1,2) [OF assms(2)] in
    \<open>auto simp: thread_ok_def end_with_def Let_def split: option.splits prod.splits\<close>)

end

lemma logins_results:
  "send c msg s = (e, s') \<Longrightarrow> logins s' = logins s" "send_awaiting r n lim posts s = (e, s') \<Longrightarrow> logins s' = logins s"
  using logins_frame(1) [of c msg s] logins_send_awaiting [OF refl, of r n lim posts s] by (metis snd_conv)+

text \<open>Only the step that marks a user logs one in.\<close>

definition logged :: "srv \<Rightarrow> nat \<Rightarrow> bool" where
  "logged s r \<longleftrightarrow> r < length (heap s) \<and> isActivated (the_user s r)"

lemma logged_logins: "logged s r \<longleftrightarrow> r < length (logins s) \<and> fst (logins s ! r)"
  by (auto simp: logged_def logins_nth)

lemma logged_same: "logins s' = logins s \<Longrightarrow> logged s' r = logged s r"
  by (simp only: logged_logins)

lemma logged_ops [simp]:
  "logged (upd q (setConnId c) s) r = logged s r" "logged (upd q (addFollower p) s) r = logged s r"
  "logged (upd q (removeFollower p) s) r = logged s r" "logged (upd q (addBlocking p) s) r = logged s r"
  "logged (upd q incrementFollowing s) r = logged s r" "logged (upd q decreaseFollowing s) r = logged s r"
  "logged (drop_if_follows q p s) r = logged s r" "logged (s\<lparr>ActiveUsersMap := am\<rparr>) r = logged s r"
  "logged (upd q deActivate s) r \<longleftrightarrow> logged s r \<and> r \<noteq> q"
  by (auto simp: logged_def drop_if_follows_def the_user_upd_cases user_defs)

lemma job_step_logged:
  assumes "job_step J c m j s = Some (j', s')" and "logged s' r" and "\<not> logged s r"
  shows "j = LogActivate r"
proof -
  have eq: "logins s' \<noteq> logins s" using assms(2,3) logged_same by blast
  show ?thesis
  proof (cases j)
    case Begin
    with assms(1) eq have 1: "take 2 m \<notin> {''01'', ''02'', ''03''}" "s' = snd (process J c m s)"
      by (auto simp: end_with_def Let_def split: if_splits prod.splits)
    with eq have "logins (snd (process J c m s)) \<noteq> logins s" by simp
    then show ?thesis
    proof (cases rule: logins_process)
      case register
      with 1 assms(2,3) show ?thesis by (auto simp: logged_logins nth_append split: if_splits)
    qed (use 1 in simp_all)
  next
    case (RegPut args)
    with assms show ?thesis by (auto simp: logged_def the_user_def nth_append User_def split: if_splits)
  next
    case (LogActivate q)
    with assms show ?thesis by (cases "q = r") (auto simp: logged_def the_user_upd_cases)
  qed (use assms eq in \<open>auto simp: end_with_def Let_def split: option.splits prod.splits dest: logins_results\<close>)
qed

text \<open>The connections and messages of the threads stay; what has been seen stays true.\<close>

definition inter_ok :: "(int \<times> string) list \<Rightarrow> srv \<Rightarrow> threads \<times> srv \<Rightarrow> bool" where
  "inter_ok rs s0 p \<longleftrightarrow>
     (let (ts, s) = p
      in refs_ok s \<and> map (\<lambda>(c, m, j). (c, m)) ts = rs \<and> (\<forall>(c, m, j)\<in>set ts. thread_ok s m j)
       \<and> (\<forall>r. logged s r \<longrightarrow> logged s0 r \<or> (\<exists>(c, m)\<in>set rs. credentials m (the_user s r))))"

lemma inter_ok_step:
  assumes J: "map_order (map_values J)" and "interleave J p p'" and ok: "inter_ok rs s0 p"
  shows "inter_ok rs s0 p'"
  using assms(2)
proof (cases rule: interleave.cases)
  case (step i ts c m j s j' s')
  note ok = ok [unfolded inter_ok_def step(1) Let_def prod.case]
  have in_ts: "(c, m, j) \<in> set ts" using step(3,4) by (metis nth_mem)
  with ok have t: "refs_ok s" "thread_ok s m j" by auto
  have g: "grows s s'" by (rule job_step_grows [OF step(5)])
  note J = server_jvm.intro [OF J]
  have "refs_ok s'" by (rule server_jvm.job_step_refs [OF J step(5) t])
  moreover have "map (\<lambda>(c, m, j). (c, m)) (ts[i := (c, m, j')]) = rs"
    using ok step(3,4) by (auto simp: map_update list_update_same_conv nth_map)
  moreover have "thread_ok s' m' k" if "(c', m', k) \<in> set (ts[i := (c, m, j')])" for c' m' k
  proof -
    from that set_update_subset_insert [of ts i "(c, m, j')"] have "(c', m', k) \<in> set ts \<or> m' = m \<and> k = j'" by auto
    with ok server_jvm.job_step_thread [OF J step(5) t] thread_ok_grows [OF _ g] show ?thesis by auto
  qed
  moreover have "logged s0 r \<or> (\<exists>(c, m)\<in>set rs. credentials m (the_user s' r))" if r: "logged s' r" for r
  proof (cases "logged s r")
    case True
    then have "r < length (heap s)" by (simp add: logged_def)
    moreover from True ok have "logged s0 r \<or> (\<exists>(c, m)\<in>set rs. credentials m (the_user s r))" by blast
    ultimately show ?thesis using growsD [OF g] by (auto simp: credentials_def Let_def)
  next
    case False
    with job_step_logged [OF step(5) r] t(2) have "r < length (heap s)" "credentials m (the_user s r)"
      by (auto simp: thread_ok_def)
    then have "credentials m (the_user s' r)" using growsD [OF g] by (simp add: credentials_def Let_def)
    moreover have "(c, m) \<in> set rs" using ok in_ts by force
    ultimately show ?thesis by blast
  qed
  ultimately show ?thesis unfolding step(2) inter_ok_def Let_def prod.case by blast
qed

end
