(* ===== verification/RaceProps.thy ===== *)
theory RaceProps
  imports Races Outbox
begin

text \<open>
  What can go wrong when requests run at the same time: every run here is one of the
  interleavings of \<open>Races\<close>.
\<close>

section \<open>Two registrations of one name\<close>

text \<open>A step of the first or of the second of two threads.\<close>

lemma two_threads:
  assumes "interleaved J ([(c1, m1, j'), (c2, m2, k')], s') p"
  shows "job_step J c1 m1 j s = Some (j', s') \<Longrightarrow> k = k' \<Longrightarrow> interleaved J ([(c1, m1, j), (c2, m2, k)], s) p"
    and "job_step J c2 m2 k s = Some (k', s') \<Longrightarrow> j = j' \<Longrightarrow> interleaved J ([(c1, m1, j), (c2, m2, k)], s) p"
proof -
  assume "job_step J c1 m1 j s = Some (j', s')" "k = k'"
  then have "interleave J ([(c1, m1, j), (c2, m2, k)], s) ([(c1, m1, j'), (c2, m2, k')], s')"
    using interleave.step [of 0 "[(c1, m1, j), (c2, m2, k)]" c1 m1 j J s j' s'] by simp
  then show "interleaved J ([(c1, m1, j), (c2, m2, k)], s) p" using assms by (rule converse_rtranclp_into_rtranclp)
next
  assume "job_step J c2 m2 k s = Some (k', s')" "j = j'"
  then have "interleave J ([(c1, m1, j), (c2, m2, k)], s) ([(c1, m1, j'), (c2, m2, k')], s')"
    using interleave.step [of 1 "[(c1, m1, j), (c2, m2, k)]" c2 m2 k J s k' s'] by simp
  then show "interleaved J ([(c1, m1, j), (c2, m2, k)], s) p" using assms by (rule converse_rtranclp_into_rtranclp)
qed

text \<open>The state after both have been entered: the second takes the place of the first.\<close>

definition registered_twice :: "string \<Rightarrow> user \<Rightarrow> user \<Rightarrow> srv \<Rightarrow> srv" where
  "registered_twice u x y s = s\<lparr>heap := heap s @ [x, y],
     UsersMap := AList.update u (Suc (length (heap s))) (UsersMap s)\<rparr>"

lemma found_second:
  assumes J: "map_order (map_values J)" and wf: "wf_srv s"
    and u: "\<forall>r\<in>set (registered J s). \<not> sublist u (username (the_user s r))"
  shows "find (name_contains u (registered_twice u (User u p1 b1) (User u p2 b2) s))
      (registered J (registered_twice u (User u p1 b1) (User u p2 b2) s)) = Some (Suc (length (heap s)))"
proof -
  let ?n = "length (heap s)" and ?t = "registered_twice u (User u p1 b1) (User u p2 b2) s"
  note J = server_jvm.intro [OF J]
  have wft: "wf_srv ?t"
    using wf_register [OF wf_register [OF wf, of u p1 b1], of u p2 b2] by (simp add: registered_twice_def)
  have "map_of (UsersMap ?t) u = Some (Suc ?n)" by (simp add: registered_twice_def update_conv')
  then have mem: "Suc ?n \<in> set (registered J ?t)"
    unfolding server_jvm.set_registered [OF J wft] by (metis image_eqI map_of_SomeD snd_conv)
  have has: "name_contains u ?t (Suc ?n)"
    by (simp add: name_contains_def the_user_def registered_twice_def nth_append User_def)
  have only: "r = Suc ?n" if r: "r \<in> set (registered J ?t)" "name_contains u ?t r" for r
  proof -
    from r(1) obtain k where "(k, r) \<in> set (UsersMap ?t)" unfolding server_jvm.set_registered [OF J wft] by auto
    then have m: "map_of (UsersMap ?t) k = Some r"
      by (rule map_of_is_SomeI [OF refs_okD(1) [OF wft [unfolded wf_srv_def, THEN conjunct1]]])
    show ?thesis
    proof (cases "k = u")
      case True
      with m show ?thesis by (simp add: registered_twice_def update_conv')
    next
      case False
      with m have "(k, r) \<in> set (UsersMap s)" by (simp add: registered_twice_def update_conv' map_of_SomeD)
      then have "r \<in> set (registered J s)" "r < ?n"
        using server_jvm.set_registered [OF J wf] refs_okD(3) wf by (force simp: wf_srv_def)+
      with u r(2) show ?thesis by (simp add: name_contains_def the_user_def registered_twice_def nth_append)
    qed
  qed
  obtain r where "find (name_contains u ?t) (registered J ?t) = Some r"
    using mem has by (metis find_None_iff not_None_eq)
  with only show ?thesis using find_Some_iff by (metis nth_mem)
qed

lemma register_args:
  assumes "NUL \<notin> set u" and "NUL \<notin> set p" and "NUL \<notin> set b" and "b \<noteq> []"
  shows "java_split NUL (u @ NUL # p @ NUL # b @ [NUL]) = [u, p, b]"
proof -
  have "pieces NUL (u @ NUL # p @ NUL # b @ [NUL]) = [u, p, b, []]" using assms(1-3) by (simp add: pieces_append)
  then show ?thesis using assms(4) by (simp add: java_split_def)
qed

text \<open>
  C22. Nothing makes the test of REGISTER and the entry in the map one step: two clients that register
  the same new name at the same time can both be acknowledged. The second entry takes the place of the
  first, and the first client cannot log in with the password it has registered.
\<close>

theorem register_race:
  assumes "map_order (map_values J)" and "wf_srv s" and "c1 \<in> set (connectionsMap s)" and "c2 \<in> set (connectionsMap s)"
    and "\<forall>w\<in>{u, p1, b1, p2, b2}. NUL \<notin> set w" and "b1 \<noteq> []" and "b2 \<noteq> []" and "p1 \<noteq> p2"
    and "\<forall>r\<in>set (registered J s). \<not> sublist u (username (the_user s r))"
  shows "\<exists>ts t. interleaved J (requests [(c1, ''01'' @ u @ NUL # p1 @ NUL # b1 @ [NUL]), (c2, ''01'' @ u @ NUL # p2 @ NUL # b2 @ [NUL])], s) (ts, t)
    \<and> (\<forall>(c, m, j)\<in>set ts. j = Ended None) \<and> sent_to t = sent_to s @ [(c1, ''1001;''), (c2, ''1001;'')]
    \<and> map_option (the_user t) (map_of (UsersMap t) u) = Some (User u p2 b2)
    \<and> (\<forall>c. process J c (''02'' @ u @ NUL # p1 @ NUL # ''1'') t = send c ''1102'' t)"
proof -
  let ?m1 = "''01'' @ u @ NUL # p1 @ NUL # b1 @ [NUL]" and ?m2 = "''01'' @ u @ NUL # p2 @ NUL # b2 @ [NUL]"
  let ?both = "registered_twice u (User u p1 b1) (User u p2 b2) s"
  let ?t = "?both\<lparr>sent_to := sent_to s @ [(c1, ''1001;''), (c2, ''1001;'')]\<rparr>"
  have args: "java_split NUL (u @ NUL # p1 @ NUL # b1 @ [NUL]) = [u, p1, b1]"
    "java_split NUL (u @ NUL # p2 @ NUL # b2 @ [NUL]) = [u, p2, b2]" using assms(5-7) by (simp_all add: register_args)
  have fresh: "\<not> list_ex (name_contains u s) (registered J s)" using assms(9) by (auto simp: list_ex_iff name_contains_def)
  have 1: "job_step J c1 ?m1 Begin s = Some (RegPut [u, p1, b1], s)" "job_step J c2 ?m2 Begin s = Some (RegPut [u, p2, b2], s)"
    using fresh by (simp_all add: begin_register_def args)
  have 2: "job_step J c1 ?m1 (RegPut [u, p1, b1]) s
      = Some (Say ''1001'', s\<lparr>heap := heap s @ [User u p1 b1], UsersMap := AList.update u (length (heap s)) (UsersMap s)\<rparr>)"
    "job_step J c2 ?m2 (RegPut [u, p2, b2]) (s\<lparr>heap := heap s @ [User u p1 b1], UsersMap := AList.update u (length (heap s)) (UsersMap s)\<rparr>)
      = Some (Say ''1001'', ?both)"
    by (simp_all add: registered_twice_def)
  have 3: "job_step J c1 ?m1 (Say ''1001'') ?both = Some (Ended None, ?both\<lparr>sent_to := sent_to s @ [(c1, ''1001;'')]\<rparr>)"
    "job_step J c2 ?m2 (Say ''1001'') (?both\<lparr>sent_to := sent_to s @ [(c1, ''1001;'')]\<rparr>) = Some (Ended None, ?t)"
    using assms(3,4) by (simp_all add: send_plain to_wire_def end_with_def registered_twice_def)
  let ?ts = "\<lambda>j k. [(c1, ?m1, j), (c2, ?m2, k)]"
  have run: "interleaved J (?ts Begin Begin, s) (?ts (Ended None) (Ended None), ?t)"
    by (rule two_threads(1) [OF _ 1(1) refl], rule two_threads(2) [OF _ 1(2) refl], rule two_threads(1) [OF _ 2(1) refl],
        rule two_threads(2) [OF _ 2(2) refl], rule two_threads(1) [OF _ 3(1) refl], rule two_threads(2) [OF _ 3(2) refl],
        rule rtranclp.rtrancl_refl)
  have user: "the_user ?t (Suc (length (heap s))) = User u p2 b2" by (simp add: the_user_def registered_twice_def nth_append)
  have "process J c (''02'' @ u @ NUL # p1 @ NUL # ''1'') ?t = send c ''1102'' ?t" for c
  proof -
    have "java_split NUL (u @ NUL # p1 @ NUL # ''1'') = [u, p1, ''1'']"
      using java_split_join [of "[u, p1, ''1'']" NUL] assms(5) by simp
    moreover have "find (name_contains u ?t) (registered J ?t) = Some (Suc (length (heap s)))"
      using found_second [OF assms(1,2,9), of p1 b1 p2 b2] by (simp add: registered_def name_contains_def [abs_def] the_user_def)
    ultimately show ?thesis using assms(8) user by (simp add: process_def do_login_def User_def)
  qed
  moreover have "map_option (the_user ?t) (map_of (UsersMap ?t) u) = Some (User u p2 b2)"
    using user by (simp add: registered_twice_def update_conv')
  ultimately show ?thesis using run by (intro exI [of _ "?ts (Ended None) (Ended None)"] exI [of _ ?t]) (simp add: requests_def)
qed

theorem register_race_witness:
  "\<exists>ts t. interleaved jvm_demo (requests [(0, ''01ann'' @ NUL # ''pa'' @ NUL # ''01-01-2000'' @ [NUL]), (1, ''01ann'' @ NUL # ''pb'' @ NUL # ''02-02-1999'' @ [NUL])],
      shared two_clients) (ts, t)
    \<and> sent_to t = [(0, ''1001;''), (1, ''1001;'')] \<and> process jvm_demo 0 (''02ann'' @ NUL # ''pa'' @ NUL # ''1'') t = send 0 ''1102'' t"
proof -
  have "reached jvm_demo two_clients" unfolding two_clients_def by (intro reached_run reached.init)
  then have wf: "wf_srv (shared two_clients)" by (rule server_jvm.wf_reached [OF server_jvm.intro [OF jvm_demo_order]])
  have "connectionsMap (shared two_clients) = [1, 0]" "registered jvm_demo (shared two_clients) = []" "sent_to (shared two_clients) = []"
    unfolding two_clients(1) by code_simp+
  with register_race [OF jvm_demo_order wf, of 0 1 "''ann''" "''pa''" "''01-01-2000''" "''pb''" "''02-02-1999''"] show ?thesis by auto
qed

section \<open>Two logins of one user\<close>

lemma login_args:
  assumes "NUL \<notin> set u" and "NUL \<notin> set p"
  shows "java_split NUL (u @ NUL # p @ NUL # ''1'') = [u, p, ''1'']"
  using java_split_join [of "[u, p, ''1'']" NUL] assms by simp

text \<open>The state after both.\<close>

definition logged_twice :: "int \<Rightarrow> int \<Rightarrow> string \<Rightarrow> nat \<Rightarrow> srv \<Rightarrow> srv" where
  "logged_twice c1 c2 u r s = upd r (setConnId c2) (upd r (setConnId c1) (upd r activate (upd r activate
     (s\<lparr>ActiveUsersMap := AList.update u r (ActiveUsersMap s)\<rparr>))))"

lemma logged_twice:
  "r < length (heap s) \<Longrightarrow> the_user (logged_twice c1 c2 u r s) q
     = (if q = r then (the_user s r)\<lparr>isActivated := True, connId := c2\<rparr> else the_user s q)"
  "ActiveUsersMap (logged_twice c1 c2 u r s) = AList.update u r (ActiveUsersMap s)"
  "connectionsMap (logged_twice c1 c2 u r s) = connectionsMap s" "sent_to (logged_twice c1 c2 u r s) = sent_to s"
  "length (heap (logged_twice c1 c2 u r s)) = length (heap s)"
  by (auto simp: logged_twice_def the_user_upd_cases user_defs)

lemma both_log_in:
  assumes f: "find (name_contains u s) (registered J s) = Some r" and r: "r < length (heap s)"
    and c: "c1 \<in> set (connectionsMap s)" "c2 \<in> set (connectionsMap s)" and n: "NUL \<notin> set u" "NUL \<notin> set (password (the_user s r))"
    and i: "\<not> isActivated (the_user s r)" and w: "awaitingPosts (the_user s r) = []"
  defines "m \<equiv> ''02'' @ u @ NUL # password (the_user s r) @ NUL # ''1''"
  shows "interleaved J (requests [(c1, m), (c2, m)], s)
    ([(c1, m, Ended None), (c2, m, Ended None)], (logged_twice c1 c2 u r s)\<lparr>sent_to := sent_to s @ [(c1, ''1002;''), (c2, ''1002;'')]\<rparr>)"
proof -
  let ?args = "[u, password (the_user s r), ''1'']"
  let ?a = "s\<lparr>ActiveUsersMap := AList.update u r (ActiveUsersMap s)\<rparr>"
  let ?b = "upd r activate (upd r activate ?a)" and ?d = "logged_twice c1 c2 u r s"
  let ?x = "?d\<lparr>sent_to := sent_to s @ [(c1, ''1002;'')]\<rparr>" and ?y = "?d\<lparr>sent_to := sent_to s @ [(c1, ''1002;''), (c2, ''1002;'')]\<rparr>"
  have 1: "job_step J c m Begin s = Some (LogPut ?args r, s)" for c
    using f i by (simp add: begin_login_def m_def login_args [OF n])
  have 2: "job_step J c m (LogPut ?args r) s = Some (LogActivate r, ?a)" "job_step J c m (LogPut ?args r) ?a = Some (LogActivate r, ?a)" for c
    by simp_all
  have 3: "job_step J c1 m (LogActivate r) ?a = Some (LogConn r, upd r activate ?a)"
    "job_step J c2 m (LogActivate r) (upd r activate ?a) = Some (LogConn r, ?b)" by simp_all
  have 4: "job_step J c1 m (LogConn r) ?b = Some (LogSend r, upd r (setConnId c1) ?b)"
    "job_step J c2 m (LogConn r) (upd r (setConnId c1) ?b) = Some (LogSend r, ?d)" by (simp_all add: logged_twice_def)
  have 5: "job_step J c1 m (LogSend r) ?d = Some (LogPosts r, ?x)" "job_step J c2 m (LogSend r) ?x = Some (LogPosts r, ?y)"
    using c by (simp_all add: send_plain to_wire_def logged_twice)
  have 6: "job_step J c m (LogPosts r) ?y = Some (Ended None, ?y)" for c
    using w by (simp add: end_with_def logged_twice(1) [OF r])
  show ?thesis unfolding requests_def list.map prod.case
    by (rule two_threads(1) [OF _ 1 refl], rule two_threads(2) [OF _ 1 refl], rule two_threads(1) [OF _ 2(1) refl],
        rule two_threads(2) [OF _ 2(2) refl], rule two_threads(1) [OF _ 3(1) refl], rule two_threads(2) [OF _ 3(2) refl],
        rule two_threads(1) [OF _ 4(1) refl], rule two_threads(2) [OF _ 4(2) refl], rule two_threads(1) [OF _ 5(1) refl],
        rule two_threads(2) [OF _ 5(2) refl], rule two_threads(1) [OF _ 6 refl], rule two_threads(2) [OF _ 6 refl],
        rule rtranclp.rtrancl_refl)
qed

text \<open>
  C23. A user can be logged in twice at once: two clients that send his LOGIN at the same time can
  both be acknowledged, although the code refuses a LOGIN of a user who is logged in. The
  connection that is set last is his; the other client, which has been told that it is logged in, cannot
  even log out.
\<close>

theorem login_race:
  assumes "map_order (map_values J)" and "wf_srv s"
    and "find (name_contains u s) (registered J s) = Some r" and "\<not> isActivated (the_user s r)"
    and "awaitingPosts (the_user s r) = []" and "NUL \<notin> set u" and "NUL \<notin> set (password (the_user s r))"
    and "c1 \<in> set (connectionsMap s)" and "c2 \<in> set (connectionsMap s)" and "c1 \<noteq> c2"
    and "\<forall>q\<in>set (active J s). connId (the_user s q) \<noteq> c1"
  defines "m \<equiv> ''02'' @ u @ NUL # password (the_user s r) @ NUL # ''1''"
  shows "\<exists>t. interleaved J (requests [(c1, m), (c2, m)], s) ([(c1, m, Ended None), (c2, m, Ended None)], t)
    \<and> sent_to t = sent_to s @ [(c1, ''1002;''), (c2, ''1002;'')]
    \<and> logged t r \<and> connId (the_user t r) = c2 \<and> process J c1 ''03'' t = send c1 ''1103'' t"
proof -
  let ?d = "logged_twice c1 c2 u r s"
  let ?t = "?d\<lparr>sent_to := sent_to s @ [(c1, ''1002;''), (c2, ''1002;'')]\<rparr>"
  note J = server_jvm.intro [OF assms(1)]
  have r: "r < length (heap s)" using server_jvm.found_registered [OF J assms(2,3)] by blast
  have run: "interleaved J (requests [(c1, m), (c2, m)], s) ([(c1, m, Ended None), (c2, m, Ended None)], ?t)"
    unfolding m_def by (rule both_log_in [OF assms(3) r assms(8,9,6,7,4,5)])
  have d: "distinct (map fst (ActiveUsersMap s))" using assms(2) refs_okD(2) by (simp add: wf_srv_def)
  have "connId (the_user ?t q) \<noteq> c1" if "q \<in> set (active J ?t)" for q
  proof -
    have "q \<in> snd ` set (AList.update u r (ActiveUsersMap s))"
      using that map_order.set_vals [OF assms(1) AList.distinct_update [OF d]] by (simp add: active_def logged_twice)
    with set_update [of u r "ActiveUsersMap s"] have "q = r \<or> q \<in> snd ` set (ActiveUsersMap s)" by auto
    then have "q = r \<or> q \<in> set (active J s)" using map_order.set_vals [OF assms(1) d] by (simp add: active_def)
    then show ?thesis using assms(10,11) by (auto simp: logged_twice(1) [OF r])
  qed
  then have "find (serves c1 ?t) (active J ?t) = None" by (auto simp: find_None_iff serves_def)
  then have "process J c1 ''03'' ?t = send c1 ''1103'' ?t" by (simp add: process_def do_logout_def)
  moreover have "logged ?t r" "connId (the_user ?t r) = c2"
    using r by (simp_all add: logged_def logged_twice(1) [OF r] logged_twice(5) del: length_0_conv length_greater_0_conv)
  ultimately show ?thesis using run by (intro exI [of _ ?t]) simp
qed

text \<open>Ann has registered and is not logged in.\<close>

definition ann_registered :: srv where
  "ann_registered = demo_srv [(0, [''01ann'' @ NUL # ''pa'' @ NUL # ''01-01-2000''])]"

lemma ann_registered:
  "wf_srv ann_registered" "find (name_contains ''ann'' ann_registered) (registered jvm_demo ann_registered) = Some 0"
  "the_user ann_registered 0 = User ''ann'' ''pa'' ''01-01-2000''" "connectionsMap ann_registered = [1, 0]"
  "active jvm_demo ann_registered = []" "length (heap ann_registered) = 1"
proof -
  let ?sc = "[(0, [''01ann'' @ NUL # ''pa'' @ NUL # ''01-01-2000''])]"
  have "script_ok ?sc" unfolding script_ok_def two_clients(1) by code_simp
  with server_jvm.wf_reached [OF server_jvm.intro [OF jvm_demo_order] demo_reached [of ?sc]] show "wf_srv ann_registered"
    by (simp add: demo_server(1) ann_registered_def)
  show "find (name_contains ''ann'' ann_registered) (registered jvm_demo ann_registered) = Some 0"
    "the_user ann_registered 0 = User ''ann'' ''pa'' ''01-01-2000''" "connectionsMap ann_registered = [1, 0]"
    "active jvm_demo ann_registered = []" "length (heap ann_registered) = 1"
    unfolding ann_registered_def demo_srv_def two_clients(1) by code_simp+
qed

theorem login_race_witness:
  "\<exists>ts t. interleaved jvm_demo (requests [(0, ''02ann'' @ NUL # ''pa'' @ NUL # ''1''), (1, ''02ann'' @ NUL # ''pa'' @ NUL # ''1'')], ann_registered) (ts, t)
    \<and> sent_to t = sent_to ann_registered @ [(0, ''1002;''), (1, ''1002;'')] \<and> connId (the_user t 0) = 1"
  using login_race [OF jvm_demo_order ann_registered(1,2), of 0 1] by (auto simp: ann_registered(3-5) User_def)

section \<open>What no interleaving breaks\<close>

text \<open>
  C6. Whatever requests run at the same time and however their steps interleave, no reference
  between users dangles, no key of a map occurs twice and every registered user is found under
  his name; and nobody becomes logged in unless one of the requests is a LOGIN with a part of his
  name, his password and the captcha.
\<close>

theorem interleaving_safe:
  assumes "map_order (map_values J)" and "refs_ok s" and "interleaved J (requests rs, s) (ts, s')"
  shows "refs_ok s' \<and> (\<forall>r. logged s' r \<and> \<not> logged s r \<longrightarrow> (\<exists>(c, m)\<in>set rs. credentials m (the_user s' r)))"
proof -
  have "inter_ok rs s (requests rs, s)"
    using assms(2) by (auto simp: inter_ok_def requests_def thread_ok_def comp_def case_prod_beta)
  with assms(3) have "inter_ok rs s (ts, s')"
    by (induction rule: rtranclp_induct) (use inter_ok_step [OF assms(1)] in blast)+
  then show ?thesis by (auto simp: inter_ok_def)
qed

theorem interleaving_safe_witness:
  "\<exists>ts t. interleaved jvm_demo (requests [(0, ''02ann'' @ NUL # ''pa'' @ NUL # ''1''), (1, ''02ann'' @ NUL # ''pa'' @ NUL # ''1'')], ann_registered) (ts, t)
    \<and> refs_ok t \<and> logged t 0 \<and> credentials (''02ann'' @ NUL # ''pa'' @ NUL # ''1'') (the_user t 0)"
proof -
  let ?m = "''02ann'' @ NUL # ''pa'' @ NUL # ''1''" and ?t = "(logged_twice 0 1 ''ann'' 0 ann_registered)
    \<lparr>sent_to := sent_to ann_registered @ [(0, ''1002;''), (1, ''1002;'')]\<rparr>"
  have run: "interleaved jvm_demo (requests [(0, ?m), (1, ?m)], ann_registered) ([(0, ?m, Ended None), (1, ?m, Ended None)], ?t)"
    using both_log_in [OF ann_registered(2), of 0 1] by (simp add: ann_registered(3,4,6) User_def)
  have "logged ?t 0" "\<not> logged ann_registered 0"
    by (simp_all add: logged_def ann_registered(3,6) logged_twice(1,5) User_def del: length_greater_0_conv length_0_conv)
  have "refs_ok ann_registered" using ann_registered(1) by (simp add: wf_srv_def)
  note safe = interleaving_safe [OF jvm_demo_order this run]
  with \<open>logged ?t 0\<close> \<open>\<not> logged ann_registered 0\<close> have "refs_ok ?t \<and> logged ?t 0 \<and> credentials ?m (the_user ?t 0)" by simp
  with run show ?thesis by blast
qed

section \<open>The user is marked before he has the connection\<close>

text \<open>The state between \<open>activate\<close> and \<open>setConnId\<close>.\<close>

definition half_in :: "string \<Rightarrow> nat \<Rightarrow> srv \<Rightarrow> srv" where
  "half_in u r s = upd r activate (s\<lparr>ActiveUsersMap := AList.update u r (ActiveUsersMap s)\<rparr>)"

lemma the_user_half:
  "r < length (heap s) \<Longrightarrow> the_user (half_in u r s) q = (if q = r then (the_user s r)\<lparr>isActivated := True\<rparr> else the_user s q)"
  by (simp add: half_in_def the_user_upd_cases user_defs)

lemma half_in_frame [simp]:
  "connectionsMap (half_in u r s) = connectionsMap s" "sent_to (half_in u r s) = sent_to s" "UsersMap (half_in u r s) = UsersMap s"
  "length (heap (half_in u r s)) = length (heap s)" "ActiveUsersMap (half_in u r s) = AList.update u r (ActiveUsersMap s)"
  "registered J (half_in u r s) = registered J s"
  by (simp_all add: half_in_def registered_def)

lemma wf_half_in: "wf_srv s \<Longrightarrow> r < length (heap s) \<Longrightarrow> wf_srv (half_in u r s)"
  unfolding half_in_def by (rule wf_upd_neutral [OF wf_enter_active]) (simp_all add: user_defs)

lemma recipients_half:
  assumes "r < length (heap s)"
  shows "recipients J my t (half_in u r s) = recipients J my t s"
proof -
  have f: "follows (half_in u r s) = follows s" by (simp add: follows_def fun_eq_iff the_user_half [OF assms])
  have n: "name_contains n (half_in u r s) = name_contains n s" for n
    by (simp add: name_contains_def fun_eq_iff the_user_half [OF assms])
  show ?thesis by (simp add: recipients_def mentioned_def f n)
qed

lemma author_half:
  assumes J: "map_order (map_values J)" and wf: "wf_srv s" and r: "r < length (heap s)" "connId (the_user s r) \<noteq> c"
    and my: "(k, my) \<in> set (ActiveUsersMap s)" "connId (the_user s my) = c" "k \<noteq> u"
    and only: "\<forall>q\<in>set (active J s). connId (the_user s q) = c \<longrightarrow> q = my"
  shows "find (serves c (half_in u r s)) (active J (half_in u r s)) = Some my"
proof -
  have d: "distinct (map fst (ActiveUsersMap s))" using wf refs_okD(2) by (simp add: wf_srv_def)
  note vals = map_order.set_vals [OF J]
  have act: "set (active J (half_in u r s)) = snd ` set (AList.update u r (ActiveUsersMap s))"
    using vals [OF AList.distinct_update [OF d]] by (simp add: active_def)
  have serves: "serves c (half_in u r s) q \<longleftrightarrow> connId (the_user s q) = c" for q
    by (simp add: serves_def the_user_half [OF r(1)])
  have "map_of (AList.update u r (ActiveUsersMap s)) k = Some my"
    using my(1,3) d by (simp add: update_conv')
  then have in_act: "my \<in> set (active J (half_in u r s))" unfolding act by (metis image_eqI map_of_SomeD snd_conv)
  have "q = my" if "q \<in> set (active J (half_in u r s))" "connId (the_user s q) = c" for q
  proof -
    from that(1) set_update [of u r "ActiveUsersMap s"] have "q = r \<or> q \<in> set (active J s)"
      unfolding act using vals [OF d] by (auto simp: active_def)
    with that(2) only r(2) show ?thesis by blast
  qed
  with in_act my(2) serves show ?thesis
    by (metis (mono_tags, lifting) find_None_iff find_in_set option.exhaust)
qed

lemma recipients_registered: "set (recipients J my t s) \<subseteq> set (registered J s)"
  by (auto simp: recipients_def mentioned_def)

lemma only_one: "x \<in> set xs \<Longrightarrow> P x \<Longrightarrow> \<forall>y\<in>set xs. P y \<longrightarrow> y = x \<Longrightarrow> find P xs = Some x"
  by (metis find_None_iff find_in_set option.exhaust)

text \<open>The post in this state goes to no connection but those the users already have.\<close>

lemma post_half_in:
  assumes J: "map_order (map_values J)" and wf: "wf_srv s" and r: "r < length (heap s)"
    and my: "find (serves c (half_in u r s)) (active J (half_in u r s)) = Some my"
    and d: "d \<noteq> c" "\<forall>q\<in>set (registered J s). connId (the_user s q) \<noteq> d"
  obtains s' new where "process J c (''05'' @ t @ [NUL]) (half_in u r s) = (None, s')"
    "the_user s' r = (the_user s r)\<lparr>isActivated := True\<rparr>" "length (heap s') = length (heap s)" "connectionsMap s' = connectionsMap s"
    "sent_to s' = sent_to s @ new @ to_wire s c ''1005''" "\<forall>m\<in>set new. fst m \<noteq> d"
proof -
  let ?h = "half_in u r s" and ?rs = "recipients J my t s"
  obtain s' where s': "process J c (''05'' @ t @ [NUL]) ?h = (None, s')"
    "sent_to s' = sent_to s @ post_sent ?h my t ?rs @ to_wire ?h c ''1005''"
    "heap s' = map (post_kept ?h my t ?rs) [0..<length (heap s)]"
    using post_effect [OF J wf_half_in [OF wf r] my, of t] by (auto simp: recipients_half [OF r])
  have "connectionsMap s' = connectionsMap s"
    using extends_process [OF extends_same [of ?h], of J c "''05'' @ t @ [NUL]"] s'(1) by (simp add: extends_def)
  moreover have "the_user s' r = (the_user s r)\<lparr>isActivated := True\<rparr>"
    using r s'(3) by (simp add: the_user_def [of s'] post_kept_def the_user_half)
  moreover have "fst m \<noteq> d" if "m \<in> set (post_sent ?h my t ?rs)" for m
  proof -
    from that obtain q where "q \<in> set ?rs" "fst m = connId (the_user ?h q)"
      by (auto simp: post_sent_def to_wire_def split: if_splits)
    then have "q \<in> set (registered J s)" using recipients_registered by blast
    with d(2) \<open>fst m = _\<close> show ?thesis by (auto simp: the_user_half [OF r])
  qed
  ultimately show thesis using s' by (intro that [of s' "post_sent ?h my t ?rs"]) (simp_all add: to_wire_def)
qed

lemma sent_for_new:
  assumes "sent_to s' = sent_to s @ new @ rest" and "\<forall>m\<in>set new. fst m \<noteq> c"
  shows "sent_for s' c = sent_for s c @ concat (map snd (filter (\<lambda>m. fst m = c) rest))"
  using assms by (simp add: sent_for_def filter_empty_conv)

text \<open>
  C24. A post is lost when a user it is for is about to log in. LOGIN marks the user as logged in
  before it gives him the connection; a POST in between neither keeps the post for him nor sends it to
  the connection of the LOGIN. Had it been processed before, it would have been kept for him.
\<close>

theorem post_lost:
  assumes "map_order (map_values J)" and "wf_srv s"
    and my: "(k, my) \<in> set (ActiveUsersMap s)" "connId (the_user s my) = c1" "\<forall>q\<in>set (active J s). connId (the_user s q) = c1 \<longrightarrow> q = my"
    and r: "find (name_contains u s) (registered J s) = Some r" "\<not> isActivated (the_user s r)" "awaitingPosts (the_user s r) = []"
      "NUL \<notin> set u" "NUL \<notin> set (password (the_user s r))" "r \<in> set (recipients J my t s)" "k \<noteq> u"
    and c: "c1 \<noteq> c2" "c2 \<in> set (connectionsMap s)" "\<forall>q\<in>set (registered J s). connId (the_user s q) \<noteq> c2" "connId (the_user s r) \<noteq> c1"
  defines "p \<equiv> ''05'' @ t @ [NUL]" and "m \<equiv> ''02'' @ u @ NUL # password (the_user s r) @ NUL # ''1''"
  shows "\<exists>z. interleaved J (requests [(c1, p), (c2, m)], s) ([(c1, p, Ended None), (c2, m, Ended None)], z)
    \<and> logged z r \<and> connId (the_user z r) = c2 \<and> sent_for z c2 = sent_for s c2 @ ''1002;'' \<and> awaitingPosts (the_user z r) = []
    \<and> awaitingPosts (the_user (snd (process J c1 p s)) r) \<noteq> []"
proof -
  let ?h = "half_in u r s" and ?args = "[u, password (the_user s r), ''1'']"
  note J = server_jvm.intro [OF assms(1)]
  have n: "r < length (heap s)" using server_jvm.found_registered [OF J assms(2) r(1)] by blast
  have a: "find (serves c1 ?h) (active J ?h) = Some my" by (rule author_half [OF assms(1,2) n c(4) my(1,2) r(7) my(3)])
  obtain y new where y: "process J c1 p ?h = (None, y)" "the_user y r = (the_user s r)\<lparr>isActivated := True\<rparr>"
      "length (heap y) = length (heap s)" "connectionsMap y = connectionsMap s"
      "sent_to y = sent_to s @ new @ to_wire s c1 ''1005''" "\<forall>m\<in>set new. fst m \<noteq> c2"
    unfolding p_def using post_half_in [OF assms(1,2) n a, of c2 t] c(1,3) by metis
  let ?y = "upd r (setConnId c2) y" let ?z = "?y\<lparr>sent_to := sent_to y @ [(c2, ''1002;'')]\<rparr>"
  have yr: "awaitingPosts (the_user ?y r) = []" using n y(2,3) r(3) by (simp add: the_user_upd_cases user_defs)
  have zr: "the_user ?z r = (the_user s r)\<lparr>isActivated := True, connId := c2\<rparr>"
    using n y(2,3) by (simp add: the_user_upd_cases user_defs)
  have run: "interleaved J (requests [(c1, p), (c2, m)], s) ([(c1, p, Ended None), (c2, m, Ended None)], ?z)"
    unfolding requests_def list.map prod.case
  proof (rule two_threads(2) [of _ _ _ _ _ _ "LogPut ?args r" s], rule two_threads(2) [of _ _ _ _ _ _ "LogActivate r"],
      rule two_threads(2) [of _ _ _ _ _ _ "LogConn r"], rule two_threads(1) [of _ _ _ "Ended None" _ _ _ y],
      rule two_threads(2) [of _ _ _ _ _ _ "LogSend r" ?y], rule two_threads(2) [of _ _ _ _ _ _ "LogPosts r" ?z],
      rule two_threads(2) [of _ _ _ _ _ _ "Ended None" ?z], rule rtranclp.rtrancl_refl)
    show "job_step J c2 m Begin s = Some (LogPut ?args r, s)"
      using r by (simp add: begin_login_def m_def login_args)
    show "job_step J c1 p Begin ?h = Some (Ended None, y)" using y(1) by (simp add: end_with_def p_def)
    show "job_step J c2 m (LogSend r) ?y = Some (LogPosts r, ?z)" using c(2) y(4) by (simp add: send_plain to_wire_def)
    show "job_step J c2 m (LogPosts r) ?z = Some (Ended None, ?z)" using yr by (simp add: end_with_def)
  qed (simp_all add: half_in_def)
  have "sent_for ?z c2 = sent_for s c2 @ ''1002;''"
    using sent_for_new [of ?z s new "to_wire s c1 ''1005'' @ [(c2, ''1002;'')]" c2] y(5,6) c(1) by (simp add: to_wire_def)
  moreover have "find (serves c1 s) (active J s) = Some my"
    using my assms(2) map_order.set_vals [OF assms(1), of "ActiveUsersMap s"] refs_okD(2) [of s]
    by (intro only_one) (force simp: serves_def active_def wf_srv_def)+
  with post_effect [OF assms(1,2), of c1 my t] have "awaitingPosts (the_user (snd (process J c1 p s)) r) \<noteq> []"
    using n r(2,6) by (auto simp: p_def the_user_def [of "_ :: srv" r] post_kept_def Let_def count_list_0_iff)
  moreover have "logged ?z r" using n y(3) zr by (simp add: logged_def)
  ultimately show ?thesis using run zr r(3) by (intro exI [of _ ?z]) simp
qed

text \<open>Ann mentions Bob, who has registered on the other connection and logs in.\<close>

definition bob_registered :: "(int \<times> string list) list" where
  "bob_registered = [(0, [''01ann'' @ NUL # ''pa'' @ NUL # ''01-01-2000'', ''02ann'' @ NUL # ''pa'' @ NUL # ''1'']),
     (1, [''01bob'' @ NUL # ''pb'' @ NUL # ''02-02-1999''])]"

definition bob_there :: srv where
  "bob_there = ann_bob\<lparr>heap := [ann, User ''bob'' ''pb'' ''02-02-1999''], ActiveUsersMap := [(''ann'', 0)],
      sent_to := [(0, ''1001;''), (0, ''1002;''), (1, ''1001;'')]\<rparr>"

lemma bob_there:
  "demo_srv bob_registered = bob_there" "wf_srv bob_there" "name_contains ''bob'' bob_there 1 \<and> \<not> name_contains ''bob'' bob_there 0"
  "recipients jvm_demo 0 ''hi @bob there'' bob_there = [1]" "active jvm_demo bob_there = [0]" "registered jvm_demo bob_there = [0, 1]"
  "the_user bob_there 0 = ann" "the_user bob_there 1 = User ''bob'' ''pb'' ''02-02-1999''" "connectionsMap bob_there = [1, 0]"
proof -
  show e: "demo_srv bob_registered = bob_there" unfolding demo_srv_def two_clients(1) by code_simp
  have "script_ok bob_registered" unfolding script_ok_def two_clients(1) by code_simp
  with server_jvm.wf_reached [OF server_jvm.intro [OF jvm_demo_order] demo_reached [of bob_registered]] show "wf_srv bob_there"
    by (simp add: demo_server(1) e)
qed code_simp+

theorem post_lost_witness:
  "\<exists>z. interleaved jvm_demo (requests [(0, ''05hi @bob there'' @ [NUL]), (1, ''02bob'' @ NUL # ''pb'' @ NUL # ''1'')], bob_there)
      ([(0, ''05hi @bob there'' @ [NUL], Ended None), (1, ''02bob'' @ NUL # ''pb'' @ NUL # ''1'', Ended None)], z)
    \<and> sent_for z 1 = ''1001;1002;'' \<and> awaitingPosts (the_user z 1) = []"
proof -
  have "sent_for bob_there 1 = ''1001;''" "ActiveUsersMap bob_there = [(''ann'', 0)]" by code_simp+
  with post_lost [OF jvm_demo_order bob_there(2), of "''ann''" 0 0 "''bob''" 1 "''hi @bob there''" 1]
  show ?thesis by (auto simp: bob_there(3-9) [unfolded One_nat_def] User_def ann_def)
qed

section \<open>Following a user who is blocking\<close>

text \<open>The state after both: \<open>a\<close> follows \<open>b\<close>, who has blocked him and follows him no more.\<close>

definition blocked_and_following :: "nat \<Rightarrow> nat \<Rightarrow> srv \<Rightarrow> srv" where
  "blocked_and_following a b s = upd a incrementFollowing (upd a (addFollower b)
     (drop_if_follows a b (drop_if_follows b a (upd b (addBlocking a) s))))"

lemma blocked_and_following:
  assumes "a < length (heap s)" and "b < length (heap s)" and "a \<noteq> b"
  shows "a \<in> set (blockingUsers (the_user (blocked_and_following a b s) b))"
    and "b \<in> set (followers (the_user (blocked_and_following a b s) a))"
    and "connectionsMap (blocked_and_following a b s) = connectionsMap s" "sent_to (blocked_and_following a b s) = sent_to s"
    and "length (heap (blocked_and_following a b s)) = length (heap s)"
  using assms by (auto simp: blocked_and_following_def drop_if_follows_def the_user_upd_cases user_defs)

text \<open>
  C25. That nobody follows a user who has blocked him rests on requests that do not overlap: when the
  BLOCK comes between the tests of a FOLLOW and its entry in the queue, both are acknowledged, and the
  user follows the one who has blocked him, whose posts he goes on to get.
\<close>

theorem block_race:
  assumes "map_order (map_values J)" and "wf_srv s" and "a \<noteq> b"
    and a: "find (serves c1 s) (active J s) = Some a" "isActivated (the_user s a)" "find (named_in f s) (registered J s) = Some b"
      "b \<notin> set (followers (the_user s a))" "a \<notin> set (blockingUsers (the_user s b))"
    and b: "find (serves c2 s) (active J s) = Some b" "find (named_in n s) (registered J s) = Some a" "n \<noteq> []"
    and c: "c1 \<in> set (connectionsMap s)" "c2 \<in> set (connectionsMap s)"
  defines "p \<equiv> ''040'' @ f" and "m \<equiv> ''12'' @ n"
  shows "\<exists>z. interleaved J (requests [(c1, p), (c2, m)], s) ([(c1, p, Ended None), (c2, m, Ended None)], z)
    \<and> sent_to z = sent_to s @ [(c2, ''1012;''), (c1, ''100400'' @ f @ [NUL, SEMI])]
    \<and> a \<in> set (blockingUsers (the_user z b)) \<and> b \<in> set (followers (the_user z a))
    \<and> refs_ok z \<and> \<not> wf_srv z"
proof -
  note J = server_jvm.intro [OF assms(1)]
  have lt: "a < length (heap s)" "b < length (heap s)"
    using server_jvm.found_active [OF J assms(2)] a(1) b(1) by blast+
  let ?s1 = "upd b (addBlocking a) s" let ?s2 = "drop_if_follows b a ?s1" let ?s3 = "drop_if_follows a b ?s2"
  let ?s4 = "upd a (addFollower b) ?s3" let ?s5 = "blocked_and_following a b s"
  let ?s6 = "?s5\<lparr>sent_to := sent_to s @ [(c2, ''1012;'')]\<rparr>"
  let ?z = "?s5\<lparr>sent_to := sent_to s @ [(c2, ''1012;''), (c1, ''100400'' @ f @ [NUL, SEMI])]\<rparr>"
  note s5 = blocked_and_following [OF lt assms(3)]
  have run: "interleaved J (requests [(c1, p), (c2, m)], s) ([(c1, p, Ended None), (c2, m, Ended None)], ?z)"
    unfolding requests_def list.map prod.case
  proof (rule two_threads(1) [of _ _ _ "FolAdd a b f" _ _ _ s], rule two_threads(2) [of _ _ _ _ _ _ "BlkAdd b a" s],
      rule two_threads(2) [of _ _ _ _ _ _ "BlkMine b a" ?s1], rule two_threads(2) [of _ _ _ _ _ _ "BlkHis b a" ?s2],
      rule two_threads(2) [of _ _ _ _ _ _ "Say ''1012''" ?s3], rule two_threads(1) [of _ _ _ "FolInc a f" _ _ _ ?s4],
      rule two_threads(1) [of _ _ _ "Say (''100400'' @ f @ [NUL])" _ _ _ ?s5], rule two_threads(2) [of _ _ _ _ _ _ "Ended None" ?s6],
      rule two_threads(1) [of _ _ _ "Ended None" _ _ _ ?z], rule rtranclp.rtrancl_refl)
    show "job_step J c1 p Begin s = Some (FolAdd a b f, s)" using a by (simp add: p_def begin_follow_def Let_def)
    have "a \<notin> set (blockingUsers (the_user s b))" by (rule a(5))
    then show "job_step J c2 m Begin s = Some (BlkAdd b a, s)" using b by (simp add: m_def begin_block_def)
    show "job_step J c2 m (Say ''1012'') ?s5 = Some (Ended None, ?s6)"
      using c(2) s5(3,4) by (simp add: send_plain to_wire_def end_with_def)
    show "job_step J c1 p (Say (''100400'' @ f @ [NUL])) ?s6 = Some (Ended None, ?z)"
      using c(1) s5(3,4) by (simp add: send_plain to_wire_def end_with_def)
  qed (simp_all add: blocked_and_following_def)
  have "refs_ok ?z"
  proof -
    have "refs_ok ?s1" using refs_user_ops(9) [OF _ lt(1)] assms(2) by (simp add: wf_srv_def)
    then have "refs_ok ?s4" using lt(2) by (intro refs_user_ops(8) refs_user_ops(6)) (simp_all add: drop_if_follows_def)
    then have "refs_ok ?s5" unfolding blocked_and_following_def by (rule refs_user_ops(4))
    then show ?thesis by (rule refs_links) (simp_all add: links_def)
  qed
  moreover have "b < length (heap ?z)" using lt(2) s5(5) by simp
  then have "\<not> blocks_ok ?z" using s5(1,2) by (auto simp: blocks_ok_def simp del: length_0_conv)
  ultimately show ?thesis using run s5(1,2) by (intro exI [of _ ?z]) (simp add: wf_srv_def)
qed

text \<open>Ann follows Bob while he blocks her.\<close>

theorem block_race_witness:
  "\<exists>z. interleaved jvm_demo (requests [(0, ''040bob'' @ [NUL]), (1, ''12ann'' @ [NUL])], demo_srv logged_in)
      ([(0, ''040bob'' @ [NUL], Ended None), (1, ''12ann'' @ [NUL], Ended None)], z)
    \<and> 0 \<in> set (blockingUsers (the_user z 1)) \<and> 1 \<in> set (followers (the_user z 0))"
proof -
  have wf: "wf_srv (demo_srv logged_in)"
    using server_jvm.wf_reached [OF server_jvm.intro [OF jvm_demo_order] demo_reached [of logged_in]]
    by (simp add: demo_server(1) [OF scripts_ok(1)])
  have f: "find (serves 0 (demo_srv logged_in)) (active jvm_demo (demo_srv logged_in)) = Some 0"
    "find (serves 1 (demo_srv logged_in)) (active jvm_demo (demo_srv logged_in)) = Some 1"
    "find (named_in (''bob'' @ [NUL]) (demo_srv logged_in)) (registered jvm_demo (demo_srv logged_in)) = Some 1"
    "find (named_in (''ann'' @ [NUL]) (demo_srv logged_in)) (registered jvm_demo (demo_srv logged_in)) = Some 0"
    "isActivated (the_user (demo_srv logged_in) 0)" "1 \<notin> set (followers (the_user (demo_srv logged_in) 0))"
    "0 \<notin> set (blockingUsers (the_user (demo_srv logged_in) 1))" "0 \<in> set (connectionsMap (demo_srv logged_in))"
    "1 \<in> set (connectionsMap (demo_srv logged_in))"
    unfolding demo_states by code_simp+
  from block_race [OF jvm_demo_order wf zero_neq_one f(1,5,3,6,7,2,4) _ f(8,9)] obtain z where
    "interleaved jvm_demo (requests [(0, ''040'' @ ''bob'' @ [NUL]), (1, ''12'' @ ''ann'' @ [NUL])], demo_srv logged_in)
      ([(0, ''040'' @ ''bob'' @ [NUL], Ended None), (1, ''12'' @ ''ann'' @ [NUL], Ended None)], z)"
    "0 \<in> set (blockingUsers (the_user z 1))" "1 \<in> set (followers (the_user z 0))" by blast
  then show ?thesis by auto
qed

end
