(* ===== verification/Spec2Isabelle.thy ===== *)
theory Spec2Isabelle
  imports Session Delivery WordFilter ReactorProps ProbeCopies WorldProps Framework RaceProps
begin

text \<open>
  A verification development for the social network of this repository: the client
  (\<open>client/\<close>, C++) and its server (\<open>Server/\<close>, Java).

  \<^bold>\<open>The program.\<close> The client connects to the server and runs two threads on one connection
  handler. The keyboard thread (\<open>client/src/readFromKeyboardThread.cpp\<close>) reads lines and passes
  them to \<open>sendLine\<close>, which encodes a command and writes it to the socket. The socket thread
  (\<open>client/src/readFromSocketThread.cpp\<close>) calls \<open>decoder\<close>, which reads one reply of the server
  and returns the line to show. They interact through three flags of the handler: \<open>terminate\<close>,
  set when a logout is acknowledged, ends both; \<open>logoutSent\<close> and \<open>logoutFailed\<close> steer the wait
  of the keyboard thread for the reply to a logout. The handler itself
  (\<open>client/src/connectionHandler.cpp\<close>) uses a Boost.Asio socket. On the other side the accept loop
  (\<open>srv/BaseServer.java\<close>) starts a thread per client, whose read loop
  (\<open>api/ConnectionHandlerImpl.java\<close>) passes each byte to a codec (\<open>api/MessageEncoderDecoderImpl.java\<close>)
  and each completed message to the protocol (\<open>api/BidiMessagingProtocolImpl.java\<close>); the protocol
  works on the users (\<open>api/User.java\<close>) and answers over the connection table
  (\<open>api/ConnectionsImpl.java\<close>), which all connections share. The same protocol also runs on a
  reactor (\<open>srv/Reactor.java\<close>): one selector thread accepts, reads and writes for all clients, and a
  pool of threads (\<open>srv/ActorThreadPool.java\<close>) decodes and processes what has been read; the two
  sides meet in the queues and flags of \<open>srv/NonBlockingConnectionHandler.java\<close>.

  \<^bold>\<open>The theories of the client.\<close>
  \<^item> \<open>Prelude\<close>: bytes, 16- and 32-bit words, decimal numerals, lemmas on lists and words.
  \<^item> \<open>Asio\<close>: the socket. Boost.Asio is not part of the repository; its operations are a record
    \<open>A\<close> that every method takes as a parameter. What the client relies on is stated in four
    locales: \<open>asio_in\<close> (a read delivers a non-empty part of what has arrived, reports an error at
    the end of a closed stream, blocks otherwise), \<open>asio_out\<close> (a write takes a prefix), \<open>asio_up\<close>
    (a connection without errors) and \<open>asio_stream\<close> (the two directions are independent). They
    are interpreted on a pair of byte queues that split transfers in any way.
  \<^item> \<open>Handler\<close>: the record \<open>handler\<close> is the object (\<open>host_\<close>, \<open>port_\<close>, \<open>socket_\<close>, the three flags, and
    the lines written to the standard streams); \<open>connect\<close>, \<open>close\<close>, \<open>getBytes\<close>, \<open>sendBytes\<close>,
    \<open>getFrameAscii\<close>, \<open>bytesToShort\<close>, \<open>resetLogout\<close> and the accessors are the methods of these names.
  \<^item> \<open>Encoder\<close>: \<open>Encoder\<close> with its index loops, \<open>sendFrameAscii\<close>, \<open>sendLine\<close>; the datatype \<open>command\<close>,
    the line a user types for one (\<open>show_command\<close>) and its wire form (\<open>wire_command\<close>) are the
    abstract specification.
  \<^item> \<open>Decoder\<close>: \<open>decoder\<close>, \<open>notificationDecoder\<close>, \<open>ackDecoder\<close>, \<open>errorDecoder\<close>; the datatype \<open>reply\<close>,
    its wire form (\<open>wire_reply\<close>), its line (\<open>render\<close>) and its \<open>effect\<close> are the specification.
  \<^item> \<open>Keyboard\<close>: the input stream with \<open>istream::getline\<close>, and the bodies of the two threads as step
    functions \<open>kb_step\<close> and \<open>sk_step\<close> over their control points.
  \<^item> \<open>Threads\<close>: \<open>main\<close>. \<open>main_start\<close> is the start of the program, \<open>sys_step\<close> one step of a thread,
    of the network (any relation on sockets) or the end of \<open>main\<close>, \<open>reachable\<close> the states of all runs.

  \<^bold>\<open>The theories of the server.\<close>
  \<^item> \<open>ServerCodec\<close>: the growing buffer of the two codecs of the server behind one locale
    (\<open>delimited_codec\<close>), interpreted for both, and \<open>encode\<close> with \<open>String.split\<close>,
    \<open>Short.parseShort\<close> and \<open>shortToBytes\<close>.
  \<^item> \<open>Users\<close>: \<open>user\<close> is the class \<open>User\<close>; users are shared and compared by identity, so they live on the
    \<open>heap\<close> of the record \<open>srv\<close>, which also has the maps, the table and the counter of
    \<open>ConnectionsImpl\<close>, and the log \<open>sent_to\<close> of the bytes written to each connection. The order in
    which a \<open>ConcurrentHashMap\<close> visits its values is a parameter with the contract \<open>map_order\<close>,
    interpreted on the bins of a map of 16 buckets. An \<open>outcome\<close> is a state with the exception that
    has been thrown, if any.
  \<^item> \<open>Protocol\<close>: \<open>process\<close> and one definition per opcode, \<open>do_register\<close> to \<open>do_block\<close>.
  \<^item> \<open>ServerInv\<close>: the invariant \<open>wf_srv\<close> (references, keys, names; nobody follows a user who has blocked
    him) and its preservation by every handler, in the locale \<open>server_jvm\<close>.
  \<^item> \<open>ServerLoop\<close>: \<open>run_loop\<close> is \<open>ConnectionHandlerImpl.run\<close>; a \<open>server\<close> is the shared state with its
    connections, \<open>serve\<close> its reaction to an event (a client connects, bytes arrive, a stream ends),
    \<open>reached\<close> the states of all sequences of events.
  \<^item> \<open>ServerProps\<close>: who is logged in, what a run keeps, what ends a connection.
  \<^item> \<open>Delivery\<close>: what POST, LOGIN, FOLLOW, LOGOUT, PM and BLOCK send and change.
  \<^item> \<open>WordFilter\<close>: the filter of private messages against a reference that cuts a text into words.
  \<^item> \<open>ActorPool\<close>: \<open>submit\<close>, \<open>execute\<close>, \<open>complete\<close> and \<open>shutdown\<close> of \<open>srv/ActorThreadPool.java\<close> over an
    executor with a fixed number of threads, whose steps are the relation \<open>work\<close>.
  \<^item> \<open>Races\<close>: REGISTER, LOGIN, LOGOUT, FOLLOW and BLOCK cut into the steps between which other threads run
    (\<open>job_step\<close>), threads that interleave them (\<open>interleave\<close>), and their invariant; \<open>RaceProps\<close>: what every
    interleaving keeps, and the races.
  \<^item> \<open>ReactorTask\<close>: the task that \<open>NonBlockingConnectionHandler.continueRead\<close> submits to the pool.
  \<^item> \<open>Reactor\<close>: the record \<open>reactor\<close> has the handlers with their channels and write queues, the pool of
    buffers, the selector tasks and the thread pool; \<open>turn_at\<close> is a step of the selector thread
    (accept, \<open>continueRead\<close>, \<open>continueWrite\<close>, the change of the interest of a key), \<open>run_task\<close> and
    \<open>notify\<close> are those of the pool, \<open>react\<close> adds what clients and network do, \<open>rsteps\<close> are the runs.
  \<^item> \<open>Outbox\<close>, \<open>ReactorInv\<close>, \<open>ReactorWire\<close>: the log of sent bytes only grows; the invariant \<open>reactor_ok\<close>
    (buffers, keys, actors, and that no message waits unannounced); \<open>wire_ok\<close>, what is written and
    what waits in a queue. \<open>ReactorProps\<close>: order, progress, and the two ways a client ends the server.
  \<^item> \<open>Framework\<close>: \<open>srv/BlockingConnectionHandler.java\<close>, the echo protocol, and the remote command
    invocation of \<open>impl/rci\<close> with its codec of length-prefixed objects.

  \<^bold>\<open>Both.\<close> \<open>Session\<close>: the client and the codec on one connection. \<open>Traffic\<close>: the client's calls
  only read from one stream and append to the other. \<open>World\<close>: the server with one thread per client,
  any number of client processes (\<open>peers\<close>) and the network between them, in one step relation
  \<open>wstep\<close>, with the invariant \<open>world_ok\<close>; \<open>WorldProps\<close>: the properties of its runs. This theory: the
  other properties that span the two programs. \<open>CompilerProbe\<close> and \<open>ProbeCopies\<close>: the four compiler
  identification programs in the build directory of the client.

  \<^bold>\<open>How C++ and Java appear.\<close> A method of the client that may wait for the peer or loop for ever has an
  optional result, where \<^term>\<open>None\<close> means that it does not return; the two loops that may not end
  are partial functions, so no fuel is used and every statement that a call returns is proved as
  one. \<open>return NULL\<close> in a method with result \<open>std::string\<close> throws \<open>std::logic_error\<close>, which nobody
  catches: it is the value \<^term>\<open>Inl LogicError\<close> of \<open>decoder\<close> and the control point \<^term>\<open>SAbort\<close>
  of the socket thread, after which the process makes no step. Memory that is read before it is
  written (a local \<open>char\<close>, the bytes behind \<open>messageOpcode\<close>) is the record \<open>stack\<close>, over which the
  theorems quantify. \<open>short\<close> is \<^typ>\<open>int16\<close>; sizes and indices are natural numbers, as messages
  are far below \<open>2\<^sup>3\<^sup>1\<close> bytes. Java's \<open>Short\<close> and \<open>int\<close> are words; a Java string is the list of its
  UTF-8 bytes; the exceptions the protocol can throw are the datatype \<open>jexn\<close>, and the state at the
  throw is kept. The loops of the server all end, so its definitions are total.

  \<^bold>\<open>What the lemmas show.\<close> Bytes: a transfer ends with the requested bytes, with a prefix and an
  error, or waits, for every way the network splits it. Commands: \<open>Encoder\<close> refines the wire format
  and the format is injective. Replies: \<open>decoder\<close> refines the reply format and consumes exactly one
  reply. Threads: invariants of all reachable states (dead code of the socket thread, when
  \<open>terminate\<close> and \<open>logoutSent\<close> are set), and runs: the logout that is acknowledged, the one that is
  refused, the server that goes away, a sequence of replies. Codec: lossless on every byte stream.
  Server: the invariant of all reachable states, authentication, the exact effect of the requests
  on users and log, the read loop as codec and protocol in sequence, the filter as replacement of
  words, the order and the progress of the thread pool; and what goes wrong: STAT, accounts that
  stay locked, messages under a foreign name. Requests at the same time: the steps of a request are
  the request, what every interleaving keeps, and four races that nothing excludes: a second
  registration of a name, a second login of a user, a post that is lost, a user who follows one who
  has blocked him. Reactor: for every schedule, a client is written what the protocol has sent to
  it, in order, the tasks are given the bytes that have been received, in order, and no work is
  left when all threads wait; but a message for a closed channel ends the selector thread, and a
  write that fails hangs it. Both: typed lines arrive as messages, a registration is acknowledged
  on the screen, replies are shown; a STAT reply ends the client. The whole program: a post that is
  typed appears on the screen of a follower who is online, a logout ends the session on both sides,
  the streams between a client and the server lose and invent no byte, and a client process that
  exits normally has been acknowledged.

  \<^bold>\<open>Limits.\<close> Memory is sequentially consistent, which the plain \<open>bool\<close> flags of the client do not
  promise; a call of \<open>sendLine\<close> or of \<open>decoder\<close> is one step of its thread, so \<open>terminate\<close> becomes
  visible when \<open>decoder\<close> returns and not between the bytes \<open>1003\<close> and the delimiter. The runs of
  the client and of the whole program are existential: the schedule exists, fairness is not
  assumed. A call of \<open>process\<close> is atomic, although the code takes no lock across one, except in
  \<open>Races\<close> and \<open>RaceProps\<close>; there a search in a map and the tests on what it has found are one step,
  and so are POST, PM, LOGSTAT and STAT, which only add to the waiting posts, the counter of posts
  and what is sent. The bytes of an event of the server are processed without an event of another
  connection in between; single bytes are events too. A reply that is sent before the thread of its
  connection has opened its streams is written like any other, and an \<open>IOException\<close> of a write,
  which the handler prints, does not show. In the reactor a task runs in one step up to the
  notifications of the selector that its messages cause, which come later and in any order; which
  keys a selection finds, how much a read or a write transfers and when a connection breaks are
  free; the properties that name a connection by its id hold up to \<open>2\<^sup>3\<^sup>2\<close> accepted clients, after
  which \<open>connectionId\<close> repeats.

  \<^bold>\<open>Not modelled.\<close> \<open>echoClient.cpp\<close>, which is commented out as a whole; the methods \<open>close\<close> of
  \<open>Reactor\<close> and of \<open>BaseServer\<close>, which the two main methods call only when \<open>serve\<close> has ended, and
  these main methods, which do nothing but start a server; the \<open>main\<close> of \<open>EchoClient\<close> and the
  methods of \<open>RCIClient\<close> but \<open>receive\<close>, which open, write to and close a socket; the interfaces of
  the server, which have no code, and the build files. What is left of the C and C++ files beside
  this is comments, include directives and declarations without a body.
\<close>

section \<open>Properties\<close>



text \<open>
  A semicolon in the content of a post is not escaped: the server receives one message more
  for each of them, the later ones made up of what the user wrote.
\<close>

lemma post_injection:
  "length (fst (feed decodeNextByte (fst (Encoder (show_command (Post s)) h)) new_codec)) = count_list s SEMI + 1"
proof -
  have "fst (Encoder (show_command (Post s)) h) = ''05'' @ s @ [NUL, SEMI]"
    using Encoder_command [of "Post s" h] by simp
  moreover obtain ms s' where f: "feed decodeNextByte (''05'' @ s @ [NUL, SEMI]) new_codec = (ms, s')" by fastforce
  moreover from semi.feed_count [OF codec_inv_new(1) f] have "length ms = count_list s SEMI + 1"
    by (simp add: count_list_append)
  ultimately show ?thesis by simp
qed

text \<open>
  The server's \<open>shortToBytes\<close> and the client's \<open>bytesToShort\<close> are inverse for every 16-bit
  value.
\<close>

lemma short_roundtrip: "bytesToShort (shortToBytes w ! 0) (shortToBytes w ! 1) = w"
  by (simp add: shortToBytes_be16)

text \<open>
  End to end: the texts of the server's replies, put through its \<open>encode\<close> and read by the
  client in one stream, are all shown, in order, and the stream is used up.
\<close>

lemma server_replies_shown:
  assumes "asio_in A avail closed"
    and "running s" and "sk s = STest" and "\<not> terminate (con s)"
    and "\<forall>r\<in>set rs. reply_ok r \<and> \<not> is_stat r \<and> r \<noteq> AckOp (CHR ''0'') (CHR ''3'')"
    and "map (\<lambda>r. encode (server_text r)) rs = map Inr bss"
    and "avail (socket (con s)) = concat bss"
  shows "\<exists>t. sys_steps A net s t \<and> cout (con t) = cout (con s) @ map (render m) rs \<and> avail (socket (con t)) = []"
proof -
  have e: "map (\<lambda>r. encode (server_text r)) rs = map (\<lambda>r. Inr (wire_reply r)) rs"
    using assms(5) by (auto simp: encode_text)
  from trans [OF assms(6) [symmetric] e] have "map (Inr :: bytes \<Rightarrow> jexn + bytes) bss = map Inr (map wire_reply rs)"
    by (simp only: map_map comp_def)
  then have "bss = map wire_reply rs" by (rule map_injective) (auto intro: injI)
  with assms(7) asio_in.socket_turns [OF assms(1-4), of rs "[]" net m] assms(5) obtain h where
    "sys_steps A net s (s\<lparr>con := h\<rparr>)" "cout h = cout (con s) @ map (render m) rs" "avail (socket h) = []" by auto
  then show ?thesis by - (rule exI, rule conjI, assumption, simp)
qed

text \<open>
  C32. The reply to STAT or LOGSTAT ends the client. \<open>encode\<close> returns its whole array of 65536
  bytes; the client shows the line, takes the zero bytes behind the delimiter for the
  opcode of the next message and throws.
\<close>

theorem stat_reply_aborts:
  assumes "asio_in A avail closed"
    and "running s" and "sk s = STest" and "\<not> terminate (con s)"
    and "d = CHR ''7'' \<or> d = CHR ''8''"
    and "encode (server_text (AckStat d w1 w2 w3 w4)) = Inr bs"
    and "avail (socket (con s)) = bs @ rest"
  shows "length bs = 65536 \<and>
    (\<exists>t. sys_steps A net s t \<and> \<not> running t \<and> exit_code t = None
      \<and> cout (con t) = cout (con s) @ [render m (AckStat d w1 w2 w3 w4)])"
proof -
  let ?r = "AckStat d w1 w2 w3 w4"
  have bs: "bs = wire_reply ?r @ replicate 65523 NUL" using assms(6) encode_stat [OF assms(5)] by simp
  then have len: "length bs = 65536" by simp
  have "65523 = Suc (Suc 65521)" by simp
  then have "replicate 65523 NUL = NUL # NUL # replicate 65521 NUL" by (simp only: replicate_Suc)
  with assms(5,7) bs asio_in.socket_turn [OF assms(1-4), of ?r "NUL # NUL # replicate 65521 NUL @ rest" net m]
  obtain k' where
    run: "sys_steps A net s (s\<lparr>con := say (render m ?r) (effect ?r ((con s)\<lparr>socket := k'\<rparr>))\<rparr>)"
    and k': "avail k' = NUL # NUL # replicate 65521 NUL @ rest" by (metis append.assoc append_Cons reply_ok.simps(4))
  let ?s = "s\<lparr>con := say (render m ?r) (effect ?r ((con s)\<lparr>socket := k'\<rparr>))\<rparr>"
  have "running ?s" "sk ?s = STest" "\<not> terminate (con ?s)"
    "avail (socket (con ?s)) = NUL # NUL # replicate 65521 NUL @ rest"
    using assms(2-4) k' by (simp_all add: running_def effect_def conn_simps)
  from asio_in.bad_opcode_aborts [OF assms(1) this, of net] obtain t
    where "sys_steps A net ?s t" "\<not> running t" "exit_code t = None" "cout (con t) = cout (con ?s)" by auto
  with run len show ?thesis by (auto simp: effect_def conn_simps intro: rtranclp_trans)
qed

definition stat_reply :: reply where
  "stat_reply = AckStat (CHR ''8'') 23 1 (- 1) 7"

theorem stat_reply_aborts_witness:
  "\<exists>bs. encode (server_text stat_reply) = Inr bs \<and> length bs = 65536
    \<and> (\<exists>t. sys_steps tcp_asio quiet (demo_sys KGetline bs False) t \<and> \<not> running t
      \<and> cout (con t) = [''ACK 08 23 1 -1 7''])"
proof -
  let ?bs = "wire_reply stat_reply @ replicate 65523 NUL"
  have e: "encode (server_text stat_reply) = Inr ?bs"
    unfolding stat_reply_def by (rule encode_stat) simp
  have "render clean_stack stat_reply = ''ACK 08 23 1 -1 7''"
    by (simp add: stat_reply_def cstr_def show_int_def show_nat.simps digit_char_def char_of_def bit_0)
  with stat_reply_aborts [OF tcp.asio_in_axioms _ _ _ _ e [unfolded stat_reply_def], of "demo_sys KGetline ?bs False" "[]" quiet clean_stack] e
  show ?thesis by (auto simp: stat_reply_def)
qed

text \<open>What the server sends as text is what the client's decoder reads.\<close>

lemma notice_wire: "notice name t @ [SEMI] = wire_reply (Notify True name t)"
  by (simp add: notice_def)

lemma sendLine_reaches:
  assumes "asio_up A sent up" and "up (socket h)" and "sent (socket h) = []" and "command_ok cmd"
    and "SEMI \<notin> set (show_command cmd)" and "reached J S" and "idle S c"
    and "process J c (wire_command cmd) (shared S) = (None, s')"
  obtains h' where "sendLine A (show_command cmd) h = Some (True, h')"
    and "shared (serve J (Bytes c (sent (socket h'))) S) = s'"
proof -
  from asio_up.sendLine_sends [OF assms(1,2,4)] assms(3) obtain k'
    where k': "sendLine A (show_command cmd) h = Some (True, (mark_logout cmd h)\<lparr>socket := k'\<rparr>)"
      "sent k' = wire [wire_command cmd]" by (auto simp: wire_def)
  have "process_all J c [wire_command cmd] (shared S) = (None, s')" using assms(8) by simp
  from serve_wire(1) [OF assms(6,7) _ this] wire_command_no_semi [OF assms(5)]
  have "shared (serve J (Bytes c (wire [wire_command cmd])) S) = s'" by simp
  with k' that [OF k'(1)] show thesis by (simp del: serve.simps)
qed



text \<open>
  End to end: a user who is logged in types a POST; a user who follows him and is online
  receives it, and his client shows it as a public notification under the author's name.
\<close>

lemma post_end_to_end:
  assumes "asio_up A sent up" and "up (socket h)" and "sent (socket h) = []"
    and "map_order (map_values J)" and "reached J S" and "idle S c"
    and "find (serves c (shared S)) (active J (shared S)) = Some my"
    and "SEMI \<notin> set t" and "NUL \<notin> set t" and "NUL \<notin> set (username (the_user (shared S) my))"
    and "(k, r) \<in> set (UsersMap (shared S))" and "my \<in> set (followers (the_user (shared S) r))"
    and "isActivated (the_user (shared S) r)" and "connId (the_user (shared S) r) = c'"
    and "c' \<in> set (connectionsMap (shared S))" and "asio_in A' avail closed"
  shows "\<exists>h' bs. sendLine A (show_command (Post t)) h = Some (True, h')
    \<and> (c', bs) \<in> set (sent_to (shared (serve J (Bytes c (sent (socket h'))) S)))
    \<and> (\<forall>g rest. avail (socket g) = bs @ rest \<longrightarrow>
         (\<exists>k'. decoder A' m g = Some (Inr (''NOTIFICATION Public '' @ username (the_user (shared S) my) @ '' '' @ t), g\<lparr>socket := k'\<rparr>)
            \<and> avail k' = rest))"
proof -
  let ?s = "shared S" and ?u = "username (the_user (shared S) my)"
  let ?n = "Notify True ?u t"
  have J: "server_jvm J" by (rule server_jvm.intro) (rule assms(4))
  have wf: "wf_srv ?s" by (rule server_jvm.wf_reached [OF J assms(5)])
  from post_effect [OF assms(4) wf assms(7), of t] obtain s'
    where p: "process J c (wire_command (Post t)) ?s = (None, s')"
      and s': "sent_to s' = sent_to ?s @ post_sent ?s my t (recipients J my t ?s) @ to_wire ?s c ''1005''" by auto
  have ok: "command_ok (Post t)" "SEMI \<notin> set (show_command (Post t))" using assms(8) by simp_all
  from sendLine_reaches [OF assms(1-3) ok assms(5,6) p] obtain h'
    where h': "sendLine A (show_command (Post t)) h = Some (True, h')" "shared (serve J (Bytes c (sent (socket h'))) S) = s'" .
  have "r \<in> set (registered J ?s)" using server_jvm.set_registered [OF J wf] assms(11) by force
  then have "r \<in> set (recipients J my t ?s)" using assms(12) by (simp add: recipients_def follows_def)
  then have "(c', wire_reply ?n) \<in> set (post_sent ?s my t (recipients J my t ?s))"
    using assms(13-15) notice_wire [of ?u t] by (auto simp: post_sent_def to_wire_def intro!: bexI [of _ r])
  with s' have sent: "(c', wire_reply ?n) \<in> set (sent_to s')" by simp
  have shown: "\<exists>k'. decoder A' m g = Some (Inr (''NOTIFICATION Public '' @ ?u @ '' '' @ t), g\<lparr>socket := k'\<rparr>) \<and> avail k' = rest"
    if "avail (socket g) = wire_reply ?n @ rest" for g rest
    using asio_in.decoder_reads [OF assms(16), of g ?n rest m] that assms(9,10) by (auto simp: effect_def)
  show ?thesis
    by (rule exI [of _ h'], rule exI [of _ "wire_reply ?n"]) (use h' sent shown in \<open>simp del: serve.simps\<close>)
qed

end
